(* ===== verification/Prelude.thy ===== *)
theory Prelude
  imports Main "HOL-Library.Word" "HOL-Library.Finite_Map" "HOL-Library.Sublist"
    "HOL-Library.Char_ord" "HOL-Library.List_Lexorder" "HOL-Library.Monad_Syntax"
begin

text \<open>
  What every theory of the development shares: the names of the machine types, the parts of
  Rust's standard library the program calls on strings and options, the ordered view of a
  finite map that \<open>BTreeMap\<close> and the skip lists iterate in, and generic lemmas.

  Strings are lists of code points. \<open>char\<close> holds the code points U+0000 to U+00FF; every
  definition on strings below is exact there, and ordering, equality, prefixes and splitting
  at an ASCII character agree with what Rust does on the UTF-8 encoding.
\<close>

section \<open>Types\<close>

type_synonym str = string
type_synonym u8 = "8 word"
type_synonym u32 = "32 word"
type_synonym u64 = "64 word"
type_synonym bytes = "u8 list"

text \<open>\<open>Result<T, E>\<close> is \<open>'e + 'a\<close>, the error on the left. A computation that may panic or not
  return is an \<open>option\<close>, \<open>None\<close> the panic.\<close>

named_theorems step_defs \<open>single accesses of the server's state, unfolded to record updates\<close>

section \<open>Character classes\<close>

text \<open>The methods of \<open>char\<close>, on the code points U+0000 to U+00FF.\<close>

definition code :: "char \<Rightarrow> nat" where
  "code c = of_char c"

definition is_whitespace :: "char \<Rightarrow> bool" where
  "is_whitespace c \<longleftrightarrow> (let n = code c in 9 \<le> n \<and> n \<le> 13 \<or> n = 32 \<or> n = 133 \<or> n = 160)"

definition is_alphabetic :: "char \<Rightarrow> bool" where
  "is_alphabetic c \<longleftrightarrow> (let n = code c in
     65 \<le> n \<and> n \<le> 90 \<or> 97 \<le> n \<and> n \<le> 122 \<or> n = 170 \<or> n = 181 \<or> n = 186 \<or>
     192 \<le> n \<and> n \<le> 214 \<or> 216 \<le> n \<and> n \<le> 246 \<or> 248 \<le> n)"

definition is_numeric :: "char \<Rightarrow> bool" where
  "is_numeric c \<longleftrightarrow> (let n = code c in
     48 \<le> n \<and> n \<le> 57 \<or> n = 178 \<or> n = 179 \<or> n = 185 \<or> 188 \<le> n \<and> n \<le> 190)"

definition is_alphanumeric :: "char \<Rightarrow> bool" where
  "is_alphanumeric c \<longleftrightarrow> is_alphabetic c \<or> is_numeric c"

definition lower_char :: "char \<Rightarrow> char" where
  "lower_char c = (let n = code c in
     if 65 \<le> n \<and> n \<le> 90 \<or> 192 \<le> n \<and> n \<le> 222 \<and> n \<noteq> 215 then char_of (n + 32) else c)"

definition to_lowercase :: "str \<Rightarrow> str" where
  "to_lowercase = map lower_char"

lemmas char_class_defs = code_def is_whitespace_def is_alphabetic_def is_numeric_def is_alphanumeric_def

lemma whitespace_disjoint: "is_whitespace c \<Longrightarrow> \<not> is_alphanumeric c"
  by (auto simp: char_class_defs Let_def)

section \<open>Strings of the standard library\<close>

text \<open>\<open>s.split(c).next()\<close>: the part before the first separator; it always exists.\<close>

definition split_first :: "char \<Rightarrow> str \<Rightarrow> str" where
  "split_first c s = takeWhile (\<lambda>x. x \<noteq> c) s"

text \<open>\<open>s.starts_with(p)\<close>.\<close>

definition starts_with :: "str \<Rightarrow> str \<Rightarrow> bool" where
  "starts_with s p = prefix p s"

text \<open>Decimal rendering of an unsigned integer, as \<open>format!("{}", n)\<close> prints it.\<close>

fun show_nat :: "nat \<Rightarrow> str" where
  "show_nat n = (if n < 10 then [char_of (48 + n)] else show_nat (n div 10) @ [char_of (48 + n mod 10)])"

declare show_nat.simps [simp del]

lemma starts_with_append [simp]: "starts_with (p @ s) p"
  by (simp add: starts_with_def)

lemma split_first_append [simp]:
  "c \<notin> set p \<Longrightarrow> split_first c (p @ c # s) = p"
  by (simp add: split_first_def takeWhile_tail) (induction p, auto)

section \<open>Sum results\<close>

fun is_ok :: "'e + 'a \<Rightarrow> bool" where
  "is_ok (Inl _) = False"
| "is_ok (Inr _) = True"

text \<open>The \<open>?\<close> operator: an error ends the computation, a value is passed on.\<close>

definition try_ok :: "'e + 'a \<Rightarrow> ('a \<Rightarrow> 'e + 'b) \<Rightarrow> 'e + 'b" where
  "try_ok m f = (case m of Inl e \<Rightarrow> Inl e | Inr x \<Rightarrow> f x)"

lemma try_ok_simps [simp]: "try_ok (Inl e) f = Inl e" "try_ok (Inr x) f = f x"
  by (simp_all add: try_ok_def)

lemma try_ok_Inr: "try_ok m f = Inr y \<longleftrightarrow> (\<exists>x. m = Inr x \<and> f x = Inr y)"
  by (cases m) auto

lemma try_ok_cong [fundef_cong]:
  "m = m' \<Longrightarrow> (\<And>x. m' = Inr x \<Longrightarrow> f x = f' x) \<Longrightarrow> try_ok m f = try_ok m' f'"
  by (cases m') auto

section \<open>Ordered iteration over a finite map\<close>

text \<open>\<open>BTreeMap\<close>, \<open>SkipMap\<close> and \<open>SkipSet\<close> iterate in increasing key order.\<close>

definition sorted_entries :: "('k::linorder, 'v) fmap \<Rightarrow> ('k \<times> 'v) list" where
  "sorted_entries m = map (\<lambda>k. (k, the (fmlookup m k))) (sorted_list_of_fset (fmdom m))"

lemma in_sorted_entries:
  "(k, v) \<in> set (sorted_entries m) \<longleftrightarrow> fmlookup m k = Some v"
  by (auto simp: sorted_entries_def fmlookup_dom_iff image_iff)

lemma map_fst_sorted_entries [simp]:
  "map fst (sorted_entries m) = sorted_list_of_fset (fmdom m)"
  by (simp add: sorted_entries_def comp_def)

lemma sorted_entries_sorted: "sorted (map fst (sorted_entries m))"
  by (simp add: sorted_list_of_fset.rep_eq)

lemma sorted_entries_distinct: "distinct (map fst (sorted_entries m))"
  by (simp add: sorted_list_of_fset.rep_eq)

lemma map_of_sorted_entries: "map_of (sorted_entries m) = fmlookup m"
proof
  fix k
  show "map_of (sorted_entries m) k = fmlookup m k"
  proof (cases "fmlookup m k")
    case None
    then have "k \<notin> fst ` set (sorted_entries m)"
      using in_sorted_entries [of k _ m] by force
    with None show ?thesis by (simp add: map_of_eq_None_iff)
  next
    case (Some v)
    then have "(k, v) \<in> set (sorted_entries m)" by (simp add: in_sorted_entries)
    then show ?thesis using Some map_of_is_SomeI [OF sorted_entries_distinct] by metis
  qed
qed

lemma fmap_of_sorted_entries: "fmap_of_list (sorted_entries m) = m"
  by (rule fmap_ext) (simp add: fmlookup_of_list map_of_sorted_entries)

lemma sorted_list_of_fset_finsert:
  "sorted_list_of_fset (finsert x A) =
     (if x |\<in>| A then sorted_list_of_fset A else insort x (sorted_list_of_fset A))"
proof (cases "x |\<in>| A")
  case True
  then show ?thesis by (simp add: finsert_absorb)
next
  case False
  then show ?thesis by (simp add: sorted_list_of_fset.rep_eq)
qed

lemma sorted_list_of_fset_fempty [simp]: "sorted_list_of_fset {||} = []"
  by (simp add: sorted_list_of_fset.rep_eq)

section \<open>Lists and options\<close>

definition hd_or :: "'a list \<Rightarrow> 'a option \<Rightarrow> 'a option" where
  "hd_or xs d = (case xs of [] \<Rightarrow> d | x # _ \<Rightarrow> Some x)"

definition last_or :: "'a option \<Rightarrow> 'a list \<Rightarrow> 'a option" where
  "last_or d xs = (if xs = [] then d else Some (last xs))"

lemma hd_or_simps [simp]:
  "hd_or [] d = d" "hd_or (x # xs) d = Some x"
  "hd_or (xs @ ys) d = hd_or xs (hd_or ys d)"
  by (auto simp: hd_or_def split: list.splits)

lemma last_or_simps [simp]:
  "last_or d [] = d" "last_or d (xs @ [x]) = Some x"
  "last_or d (xs @ ys) = last_or (last_or d xs) ys"
  "last_or d (x # xs) = last_or (Some x) xs"
  by (auto simp: last_or_def)

lemma hd_or_NoneD: "hd_or xs None = None \<Longrightarrow> xs = []"
  by (cases xs) auto

lemma last_or_NoneD: "last_or None xs = None \<Longrightarrow> xs = []"
  by (auto simp: last_or_def split: if_splits)

lemma hd_or_SomeD: "hd_or xs None = Some x \<Longrightarrow> \<exists>ys. xs = x # ys"
  by (cases xs) auto

lemma last_or_SomeD: "last_or None xs = Some x \<Longrightarrow> \<exists>ys. xs = ys @ [x]"
  by (cases xs rule: rev_cases) auto

lemma takeWhile_until:
  "list_all p s \<Longrightarrow> \<not> p b \<Longrightarrow> takeWhile p (s @ b # r) = s"
  "list_all p s \<Longrightarrow> \<not> p b \<Longrightarrow> dropWhile p (s @ b # r) = b # r"
  by (induction s) auto

lemma map_le_SomeD: "m \<subseteq>\<^sub>m m' \<Longrightarrow> m k = Some v \<Longrightarrow> m' k = Some v"
  by (metis domI map_le_def)

lemma map_of_filter_neq:
  "map_of (filter (\<lambda>(k', v). k' \<noteq> k) xs) = (map_of xs)(k := None)"
  by (induction xs) (auto simp: fun_eq_iff)

end
