(* ===== verification/Cache_Spec.thy ===== *)
theory Cache_Spec
  imports Prelude
begin

text \<open>
  The \<open>Cache\<close> trait of src/cache.rs as an interface. A cache holds part of what was put into
  it: it may forget entries, it never invents one, and it never panics while its invariant
  holds. \<open>abs\<close> is the map from key to value that the cache holds, \<open>inv\<close> the implementation's
  invariant. The three implementations interpret the locale in their own theories.
\<close>

datatype ('k, 'v) cache_op = CacheGet 'k | CachePut 'k 'v | CacheInvalidate 'k

text \<open>A sequence of calls on one cache; \<open>None\<close> when a call panics.\<close>

fun cache_run ::
  "('k \<Rightarrow> 'c \<Rightarrow> ('v option \<times> 'c) option) \<Rightarrow> ('k \<Rightarrow> 'v \<Rightarrow> 'c \<Rightarrow> 'c option) \<Rightarrow> ('k \<Rightarrow> 'c \<Rightarrow> 'c option)
   \<Rightarrow> ('k, 'v) cache_op list \<Rightarrow> 'c \<Rightarrow> 'c option" where
  "cache_run g p i [] c = Some c"
| "cache_run g p i (CacheGet k # ops) c = do { (_, c') \<leftarrow> g k c; cache_run g p i ops c' }"
| "cache_run g p i (CachePut k v # ops) c = do { c' \<leftarrow> p k v c; cache_run g p i ops c' }"
| "cache_run g p i (CacheInvalidate k # ops) c = do { c' \<leftarrow> i k c; cache_run g p i ops c' }"

text \<open>The ideal cache: unbounded, nothing is ever evicted.\<close>

fun ideal_run :: "('k, 'v) cache_op list \<Rightarrow> ('k \<rightharpoonup> 'v) \<Rightarrow> ('k \<rightharpoonup> 'v)" where
  "ideal_run [] m = m"
| "ideal_run (CacheGet k # ops) m = ideal_run ops m"
| "ideal_run (CachePut k v # ops) m = ideal_run ops (m(k \<mapsto> v))"
| "ideal_run (CacheInvalidate k # ops) m = ideal_run ops (m(k := None))"

locale cache =
  fixes inv :: "'c \<Rightarrow> bool"
    and abs :: "'c \<Rightarrow> 'k \<Rightarrow> 'v option"
    and cget :: "'k \<Rightarrow> 'c \<Rightarrow> ('v option \<times> 'c) option"
    and cput :: "'k \<Rightarrow> 'v \<Rightarrow> 'c \<Rightarrow> 'c option"
    and cinv :: "'k \<Rightarrow> 'c \<Rightarrow> 'c option"
  assumes get_law: "inv c \<Longrightarrow> \<exists>c'. cget k c = Some (abs c k, c') \<and> inv c' \<and> abs c' = abs c"
    and put_law: "inv c \<Longrightarrow>
      \<exists>c'. cput k v c = Some c' \<and> inv c' \<and> abs c' k = Some v \<and> abs c' \<subseteq>\<^sub>m (abs c)(k \<mapsto> v)"
    and invalidate_law: "inv c \<Longrightarrow> \<exists>c'. cinv k c = Some c' \<and> inv c' \<and> abs c' = (abs c)(k := None)"
begin

lemma put_get:
  assumes "inv c" "cput k v c = Some c'"
  shows "\<exists>c''. cget k c' = Some (Some v, c'')"
  using put_law [OF assms(1), of k v] assms(2) get_law [of c' k] by auto

lemma invalidate_get:
  assumes "inv c" "cinv k c = Some c'"
  shows "\<exists>c''. cget k c' = Some (None, c'')"
  using invalidate_law [OF assms(1), of k] assms(2) get_law [of c' k] by auto

lemma run_refines:
  "inv c \<Longrightarrow> abs c \<subseteq>\<^sub>m m \<Longrightarrow>
   \<exists>c'. cache_run cget cput cinv ops c = Some c' \<and> inv c' \<and> abs c' \<subseteq>\<^sub>m ideal_run ops m"
proof (induction ops arbitrary: c m)
  case Nil
  then show ?case by simp
next
  case (Cons op ops)
  show ?case
  proof (cases op)
    case (CacheGet k)
    then show ?thesis using get_law [OF Cons.prems(1), of k] Cons.IH Cons.prems(2) by fastforce
  next
    case (CachePut k v)
    obtain c' where c': "cput k v c = Some c'" "inv c'" "abs c' \<subseteq>\<^sub>m (abs c)(k \<mapsto> v)"
      using put_law [OF Cons.prems(1), of k v] by auto
    have "abs c' \<subseteq>\<^sub>m m(k \<mapsto> v)"
      using c'(3) Cons.prems(2) by (rule map_le_trans [OF _ map_le_upd])
    then show ?thesis using CachePut c' Cons.IH by simp
  next
    case (CacheInvalidate k)
    obtain c' where c': "cinv k c = Some c'" "inv c'" "abs c' = (abs c)(k := None)"
      using invalidate_law [OF Cons.prems(1), of k] by auto
    have "abs c' \<subseteq>\<^sub>m m(k := None)"
      using c'(3) Cons.prems(2) by (auto simp: map_le_def dom_def)
    from Cons.IH [OF c'(2) this] show ?thesis
      by (simp only: CacheInvalidate cache_run.simps ideal_run.simps c'(1) Option.bind.bind_lunit)
  qed
qed

text \<open>What a lookup after any history may answer: nothing, or what the ideal cache holds.\<close>

lemma get_after_run:
  assumes "inv c" and "abs c \<subseteq>\<^sub>m m" and "cache_run cget cput cinv ops c = Some c'"
  shows "\<exists>r c''. cget k c' = Some (r, c'') \<and> (r = None \<or> r = ideal_run ops m k)"
proof -
  from run_refines [OF assms(1,2), of ops] assms(3)
  have "inv c'" and le: "abs c' \<subseteq>\<^sub>m ideal_run ops m" by auto
  then obtain c'' where "cget k c' = Some (abs c' k, c'')" using get_law by blast
  moreover have "abs c' k = None \<or> abs c' k = ideal_run ops m k"
    using le by (auto simp: map_le_def dom_def)
  ultimately show ?thesis by blast
qed

end

text \<open>A cache with a capacity: no history makes it hold more entries than that.\<close>

locale bounded_cache = cache inv abs cget cput cinv
  for inv :: "'c \<Rightarrow> bool" and abs :: "'c \<Rightarrow> 'k \<Rightarrow> 'v option" and cget cput cinv +
  fixes cap :: "'c \<Rightarrow> nat"
  assumes bound_law: "inv c \<Longrightarrow> finite (dom (abs c)) \<and> card (dom (abs c)) \<le> cap c"
    and cap_get: "inv c \<Longrightarrow> cget k c = Some (r, c') \<Longrightarrow> cap c' = cap c"
    and cap_put: "inv c \<Longrightarrow> cput k v c = Some c' \<Longrightarrow> cap c' = cap c"
    and cap_inv: "inv c \<Longrightarrow> cinv k c = Some c' \<Longrightarrow> cap c' = cap c"
begin

lemma cap_run: "inv c \<Longrightarrow> cache_run cget cput cinv ops c = Some c' \<Longrightarrow> cap c' = cap c"
proof (induction ops arbitrary: c)
  case Nil
  then show ?case by simp
next
  case (Cons op ops)
  show ?case
  proof (cases op)
    case (CacheGet k)
    with Cons show ?thesis using get_law [of c k] cap_get by fastforce
  next
    case (CachePut k v)
    with Cons show ?thesis using put_law [of c k v] cap_put by fastforce
  next
    case (CacheInvalidate k)
    with Cons show ?thesis using invalidate_law [of c k] cap_inv by fastforce
  qed
qed

lemma run_bounded:
  assumes "inv c"
  shows "\<exists>c'. cache_run cget cput cinv ops c = Some c' \<and> card (dom (abs c')) \<le> cap c"
proof -
  obtain c' where "cache_run cget cput cinv ops c = Some c'" "inv c'"
    using run_refines [OF assms, of "abs c" ops] by auto
  then show ?thesis using bound_law cap_run [OF assms] by metis
qed

end

end
