(* ===== verification/Lfu_Cache.thy ===== *)
theory Lfu_Cache
  imports Cache_Spec
begin

text \<open>
  \<open>LfuCache\<close> of src/cache.rs: a hash map from keys to value and use count, and a \<open>BTreeMap\<close>
  from counts to the set of keys with that count. Eviction takes some key of the least count;
  which one is the hash set's iteration order, a parameter here. The counts are unbounded: a
  key would have to be used \<open>2 ^ 64\<close> times for the \<open>usize\<close> to overflow.
\<close>

section \<open>The iteration order of a hash set\<close>

text \<open>All that is known of \<open>keys.iter().next()\<close>: it is an element of the set when there is one.\<close>

typedef 'k hash_order = "{f :: 'k fset \<Rightarrow> 'k. \<forall>S. S \<noteq> {||} \<longrightarrow> f S |\<in>| S}"
  morphisms pick Hash_order
  by (rule exI [of _ "\<lambda>S. SOME x. x |\<in>| S"]) (auto intro: someI)

setup_lifting type_definition_hash_order

lemma pick_in: "S \<noteq> {||} \<Longrightarrow> pick ord S |\<in>| S"
  using pick [of ord] by simp

text \<open>One such order, for linearly ordered keys.\<close>

lift_definition least_first :: "'k::linorder hash_order" is fMin
  by simp

section \<open>State and operations\<close>

record ('k, 'v) lfu_inner =
  lfu_capacity :: nat
  lfu_map :: "('k, 'v \<times> nat) fmap"
  lfu_freqs :: "(nat, 'k fset) fmap"

definition lfu_new :: "nat \<Rightarrow> ('k, 'v) lfu_inner option" where
  "lfu_new capacity =
     (if 0 < capacity
      then Some \<lparr>lfu_capacity = capacity, lfu_map = fmempty, lfu_freqs = fmempty\<rparr> else None)"

text \<open>Taking a key out of the set of a count, and the set out of the map when it is empty.\<close>

definition freq_remove :: "nat \<Rightarrow> 'k \<Rightarrow> (nat, 'k fset) fmap \<Rightarrow> (nat, 'k fset) fmap" where
  "freq_remove freq key freqs =
     (case fmlookup freqs freq of
        Some S \<Rightarrow> (let S' = S |-| {|key|} in if S' = {||} then fmdrop freq freqs else fmupd freq S' freqs)
      | None \<Rightarrow> freqs)"

definition freq_insert :: "nat \<Rightarrow> 'k \<Rightarrow> (nat, 'k fset) fmap \<Rightarrow> (nat, 'k fset) fmap" where
  "freq_insert freq key freqs =
     fmupd freq (finsert key (case fmlookup freqs freq of Some S \<Rightarrow> S | None \<Rightarrow> {||})) freqs"

definition increment_freq :: "'k \<Rightarrow> nat \<Rightarrow> ('k, 'v) lfu_inner \<Rightarrow> ('k, 'v) lfu_inner" where
  "increment_freq key current_freq c =
     (let c1 = c\<lparr>lfu_freqs := freq_remove current_freq key (lfu_freqs c)\<rparr>;
          new_freq = current_freq + 1;
          c2 = c1\<lparr>lfu_freqs := freq_insert new_freq key (lfu_freqs c1)\<rparr>
      in case fmlookup (lfu_map c2) key of
           Some (v, _) \<Rightarrow> c2\<lparr>lfu_map := fmupd key (v, new_freq) (lfu_map c2)\<rparr>
         | None \<Rightarrow> c2)"

definition lfu_get :: "'k \<Rightarrow> ('k, 'v) lfu_inner \<Rightarrow> ('v option \<times> ('k, 'v) lfu_inner) option" where
  "lfu_get key c =
     (case fmlookup (lfu_map c) key of
        Some (_, current_freq) \<Rightarrow>
          (let c1 = increment_freq key current_freq c
           in Some (map_option fst (fmlookup (lfu_map c1) key), c1))
      | None \<Rightarrow> Some (None, c))"

text \<open>The eviction: \<open>freqs.iter().next()\<close> is the least count, and the \<open>unwrap\<close> panics on an empty set.\<close>

definition lfu_evict :: "'k hash_order \<Rightarrow> ('k, 'v) lfu_inner \<Rightarrow> ('k, 'v) lfu_inner option" where
  "lfu_evict ord c =
     (if lfu_capacity c \<le> fcard (fmdom (lfu_map c)) \<and> fmdom (lfu_freqs c) \<noteq> {||}
      then do {
        keys \<leftarrow> fmlookup (lfu_freqs c) (fMin (fmdom (lfu_freqs c)));
        evict_key \<leftarrow> (if keys = {||} then None else Some (pick ord keys));
        Some (case fmlookup (lfu_map c) evict_key of
                Some (_, freq) \<Rightarrow>
                  c\<lparr>lfu_map := fmdrop evict_key (lfu_map c),
                    lfu_freqs := freq_remove freq evict_key (lfu_freqs c)\<rparr>
              | None \<Rightarrow> c)
      }
      else Some c)"

definition lfu_put :: "'k hash_order \<Rightarrow> 'k \<Rightarrow> 'v \<Rightarrow> ('k, 'v) lfu_inner \<Rightarrow> ('k, 'v) lfu_inner option" where
  "lfu_put ord key val c =
     (case fmlookup (lfu_map c) key of
        Some (_, current_freq) \<Rightarrow>
          Some (increment_freq key current_freq
            (c\<lparr>lfu_map := fmupd key (val, current_freq) (lfu_map c)\<rparr>))
      | None \<Rightarrow> do {
          c1 \<leftarrow> lfu_evict ord c;
          Some (c1\<lparr>lfu_map := fmupd key (val, 1) (lfu_map c1),
                   lfu_freqs := freq_insert 1 key (lfu_freqs c1)\<rparr>)
        })"

definition lfu_invalidate :: "'k \<Rightarrow> ('k, 'v) lfu_inner \<Rightarrow> ('k, 'v) lfu_inner option" where
  "lfu_invalidate key c =
     Some (case fmlookup (lfu_map c) key of
        Some (_, freq) \<Rightarrow>
          c\<lparr>lfu_map := fmdrop key (lfu_map c), lfu_freqs := freq_remove freq key (lfu_freqs c)\<rparr>
      | None \<Rightarrow> c)"

section \<open>Invariant\<close>

text \<open>The keys filed under a count.\<close>

definition members :: "(nat, 'k fset) fmap \<Rightarrow> nat \<Rightarrow> 'k fset" where
  "members freqs f = (case fmlookup freqs f of Some S \<Rightarrow> S | None \<Rightarrow> {||})"

definition no_empty :: "(nat, 'k fset) fmap \<Rightarrow> bool" where
  "no_empty freqs \<longleftrightarrow> (\<forall>f. fmlookup freqs f \<noteq> Some {||})"

definition filed :: "('k, 'v \<times> nat) fmap \<Rightarrow> (nat, 'k fset) fmap \<Rightarrow> bool" where
  "filed m freqs \<longleftrightarrow> (\<forall>k f. k |\<in>| members freqs f \<longleftrightarrow> (\<exists>v. fmlookup m k = Some (v, f)))"

definition lfu_inv :: "('k, 'v) lfu_inner \<Rightarrow> bool" where
  "lfu_inv c \<longleftrightarrow> filed (lfu_map c) (lfu_freqs c) \<and> no_empty (lfu_freqs c) \<and>
     fcard (fmdom (lfu_map c)) \<le> lfu_capacity c \<and> 0 < lfu_capacity c"

definition lfu_abs :: "('k, 'v) lfu_inner \<Rightarrow> 'k \<Rightarrow> 'v option" where
  "lfu_abs c k = map_option fst (fmlookup (lfu_map c) k)"

definition lfu_count :: "('k, 'v) lfu_inner \<Rightarrow> 'k \<Rightarrow> nat option" where
  "lfu_count c k = map_option snd (fmlookup (lfu_map c) k)"

lemma members_remove:
  "members (freq_remove f k freqs) f' = (if f' = f then members freqs f |-| {|k|} else members freqs f')"
  by (auto simp: members_def freq_remove_def Let_def split: option.splits)

lemma members_insert:
  "members (freq_insert f k freqs) f' = (if f' = f then finsert k (members freqs f) else members freqs f')"
  by (auto simp: members_def freq_insert_def)

lemma no_empty_remove: "no_empty freqs \<Longrightarrow> no_empty (freq_remove f k freqs)"
  by (auto simp: no_empty_def freq_remove_def Let_def split: option.splits)

lemma no_empty_insert: "no_empty freqs \<Longrightarrow> no_empty (freq_insert f k freqs)"
  by (auto simp: no_empty_def freq_insert_def)

lemmas freq_simps = members_remove members_insert no_empty_remove no_empty_insert

lemma filed_increment:
  assumes "filed m freqs" "fmlookup m k = Some (v0, f)"
  shows "filed (fmupd k (v, f + 1) m) (freq_insert (f + 1) k (freq_remove f k freqs))"
  using assms by (auto simp: filed_def freq_simps)

lemma filed_drop:
  assumes "filed m freqs" "fmlookup m k = Some (v, f)"
  shows "filed (fmdrop k m) (freq_remove f k freqs)"
  using assms by (auto simp: filed_def freq_simps)

lemma filed_new:
  assumes "filed m freqs" "fmlookup m k = None"
  shows "filed (fmupd k (v, 1) m) (freq_insert 1 k freqs)"
  using assms by (auto simp: filed_def freq_simps)

lemma increment_freq_spec:
  assumes "fmlookup (lfu_map c) k = Some (v, f)"
  shows "increment_freq k f c =
    c\<lparr>lfu_map := fmupd k (v, f + 1) (lfu_map c),
      lfu_freqs := freq_insert (f + 1) k (freq_remove f k (lfu_freqs c))\<rparr>"
  using assms by (simp add: increment_freq_def Let_def)

lemma fcard_present: "fmlookup m k = Some w \<Longrightarrow> finsert k (fmdom m) = fmdom m"
  by (auto simp: fmlookup_dom_iff)

text \<open>What an eviction does: nothing below capacity, else it drops one key of the least count.\<close>

lemma lfu_evict_spec:
  assumes "lfu_inv c"
  shows "\<exists>c'. lfu_evict ord c = Some c' \<and> filed (lfu_map c') (lfu_freqs c') \<and> no_empty (lfu_freqs c') \<and>
    fcard (fmdom (lfu_map c')) < lfu_capacity c \<and> lfu_capacity c' = lfu_capacity c \<and>
    (if lfu_capacity c \<le> fcard (fmdom (lfu_map c))
     then \<exists>k v f. fmlookup (lfu_map c) k = Some (v, f) \<and> lfu_map c' = fmdrop k (lfu_map c) \<and>
            (\<forall>k' v' f'. fmlookup (lfu_map c) k' = Some (v', f') \<longrightarrow> f \<le> f')
     else c' = c)"
proof (cases "lfu_capacity c \<le> fcard (fmdom (lfu_map c))")
  case False
  then show ?thesis using assms by (auto simp: lfu_evict_def lfu_inv_def)
next
  case True
  have inv: "filed (lfu_map c) (lfu_freqs c)" "no_empty (lfu_freqs c)" "0 < lfu_capacity c"
    "fcard (fmdom (lfu_map c)) \<le> lfu_capacity c"
    using assms by (auto simp: lfu_inv_def)
  let ?freqs = "lfu_freqs c" and ?min = "fMin (fmdom (lfu_freqs c))"
  have "fmdom (lfu_map c) \<noteq> {||}" using True inv(3) by (auto simp: fcard.rep_eq)
  then obtain k0 v0 f0 where "fmlookup (lfu_map c) k0 = Some (v0, f0)"
    by (metis fmlookup_dom_iff all_not_fin_conv surj_pair)
  then have "k0 |\<in>| members ?freqs f0" using inv(1) by (auto simp: filed_def)
  then have ne: "fmdom ?freqs \<noteq> {||}" by (auto simp: members_def dest: fmdomI split: option.splits)
  then have "?min |\<in>| fmdom ?freqs" by (rule fMin_in)
  then obtain keys where keys: "fmlookup ?freqs ?min = Some keys" by (auto simp: fmlookup_dom_iff)
  with inv(2) have "keys \<noteq> {||}" by (auto simp: no_empty_def)
  then have "pick ord keys |\<in>| members ?freqs ?min" using keys by (simp add: members_def pick_in)
  then obtain v where v: "fmlookup (lfu_map c) (pick ord keys) = Some (v, ?min)"
    using inv(1) by (auto simp: filed_def)
  let ?c = "c\<lparr>lfu_map := fmdrop (pick ord keys) (lfu_map c),
              lfu_freqs := freq_remove ?min (pick ord keys) ?freqs\<rparr>"
  have ev: "lfu_evict ord c = Some ?c"
    using True ne keys v \<open>keys \<noteq> {||}\<close> by (simp add: lfu_evict_def)
  have least: "?min \<le> f'" if "fmlookup (lfu_map c) k' = Some (v', f')" for k' v' f'
  proof -
    from that have "k' |\<in>| members ?freqs f'" using inv(1) by (auto simp: filed_def)
    then have "f' |\<in>| fmdom ?freqs" by (auto simp: members_def fmlookup_dom_iff split: option.splits)
    then show ?thesis by (rule fMin_le)
  qed
  have "pick ord keys |\<in>| fmdom (lfu_map c)" using v by (auto simp: fmlookup_dom_iff)
  then have "fcard (fmdom (fmdrop (pick ord keys) (lfu_map c))) < fcard (fmdom (lfu_map c))"
    by (simp add: fcard_fminus1_less del: fcard_fminus_finsert)
  then show ?thesis
    using ev inv v least filed_drop [OF inv(1) v] no_empty_remove [OF inv(2)] True by auto
qed

section \<open>Every operation\<close>

lemma lfu_new_inv: "lfu_new n = Some c \<Longrightarrow> lfu_inv c \<and> lfu_abs c = Map.empty \<and> lfu_capacity c = n"
  by (auto simp: lfu_new_def lfu_inv_def lfu_abs_def filed_def no_empty_def members_def fcard.rep_eq
      split: if_splits)

lemma lfu_increment_inv:
  assumes "lfu_inv c" "fmlookup (lfu_map c) k = Some (v0, f)"
  shows "lfu_inv (c\<lparr>lfu_map := fmupd k (v, f + 1) (lfu_map c),
      lfu_freqs := freq_insert (f + 1) k (freq_remove f k (lfu_freqs c))\<rparr>)"
  using assms filed_increment [of "lfu_map c" "lfu_freqs c" k v0 f v]
  by (simp add: lfu_inv_def freq_simps fcard_present)

lemma lfu_get_spec:
  assumes "lfu_inv c"
  shows "\<exists>c'. lfu_get k c = Some (lfu_abs c k, c') \<and> lfu_inv c' \<and> lfu_abs c' = lfu_abs c \<and>
    lfu_count c' = (lfu_count c)(k := map_option Suc (lfu_count c k)) \<and>
    lfu_capacity c' = lfu_capacity c"
proof (cases "fmlookup (lfu_map c) k")
  case None
  then show ?thesis using assms by (auto simp: lfu_get_def lfu_abs_def lfu_count_def)
next
  case (Some w)
  obtain v f where w: "fmlookup (lfu_map c) k = Some (v, f)" using Some by (cases w) auto
  then show ?thesis
    using lfu_increment_inv [OF assms w, of v]
    by (auto simp: lfu_get_def lfu_abs_def lfu_count_def increment_freq_spec [OF w] fun_eq_iff)
qed

lemma lfu_put_present:
  assumes "lfu_inv c" "fmlookup (lfu_map c) k = Some (v0, f)"
  shows "\<exists>c'. lfu_put ord k v c = Some c' \<and> lfu_inv c' \<and> lfu_map c' = fmupd k (v, f + 1) (lfu_map c) \<and>
              lfu_capacity c' = lfu_capacity c"
proof -
  let ?c = "c\<lparr>lfu_map := fmupd k (v, f) (lfu_map c)\<rparr>"
  have "fmlookup (lfu_map ?c) k = Some (v, f)" by simp
  from increment_freq_spec [OF this] show ?thesis
    using assms(2) lfu_increment_inv [OF assms, of v] by (simp add: lfu_put_def)
qed

lemma lfu_put_absent:
  assumes "lfu_inv c" "fmlookup (lfu_map c) k = None"
  shows "\<exists>c' m. lfu_put ord k v c = Some c' \<and> lfu_inv c' \<and> lfu_map c' = fmupd k (v, 1) m \<and>
    lfu_capacity c' = lfu_capacity c \<and>
    (if lfu_capacity c \<le> fcard (fmdom (lfu_map c))
     then \<exists>k0 v0 f0. fmlookup (lfu_map c) k0 = Some (v0, f0) \<and> m = fmdrop k0 (lfu_map c) \<and>
            (\<forall>k' v' f'. fmlookup (lfu_map c) k' = Some (v', f') \<longrightarrow> f0 \<le> f')
     else m = lfu_map c)"
proof -
  obtain c1 where c1: "lfu_evict ord c = Some c1" "filed (lfu_map c1) (lfu_freqs c1)"
    "no_empty (lfu_freqs c1)" "fcard (fmdom (lfu_map c1)) < lfu_capacity c"
    "lfu_capacity c1 = lfu_capacity c"
    and e: "if lfu_capacity c \<le> fcard (fmdom (lfu_map c))
     then \<exists>k v f. fmlookup (lfu_map c) k = Some (v, f) \<and> lfu_map c1 = fmdrop k (lfu_map c) \<and>
            (\<forall>k' v' f'. fmlookup (lfu_map c) k' = Some (v', f') \<longrightarrow> f \<le> f')
     else c1 = c"
    using lfu_evict_spec [OF assms(1), of ord] by blast
  have n: "fmlookup (lfu_map c1) k = None"
    using e assms(2) by (auto split: if_splits)
  let ?c = "c1\<lparr>lfu_map := fmupd k (v, 1) (lfu_map c1), lfu_freqs := freq_insert 1 k (lfu_freqs c1)\<rparr>"
  have "lfu_inv ?c"
    using c1 filed_new [OF c1(2) n] n
    by (simp add: lfu_inv_def freq_simps fcard_finsert_if fmlookup_dom_iff)
  moreover have "lfu_put ord k v c = Some ?c" using c1(1) assms(2) by (simp add: lfu_put_def)
  ultimately show ?thesis using e c1(5) by (intro exI [of _ ?c] exI [of _ "lfu_map c1"]) auto
qed

lemma lfu_invalidate_spec:
  assumes "lfu_inv c"
  shows "\<exists>c'. lfu_invalidate k c = Some c' \<and> lfu_inv c' \<and> lfu_map c' = fmdrop k (lfu_map c) \<and>
              lfu_capacity c' = lfu_capacity c"
proof (cases "fmlookup (lfu_map c) k")
  case None
  then have "fmdrop k (lfu_map c) = lfu_map c" by (intro fmdrop_idle) (simp add: fmlookup_dom_iff)
  then show ?thesis using None assms by (simp add: lfu_invalidate_def)
next
  case (Some w)
  obtain v f where w: "fmlookup (lfu_map c) k = Some (v, f)" using Some by (cases w) auto
  have "fcard (fmdom (fmdrop k (lfu_map c))) \<le> fcard (fmdom (lfu_map c))"
    by (simp add: fcard_fminus1_le del: fcard_fminus_finsert)
  then show ?thesis
    using w assms filed_drop [OF _ w] by (auto simp: lfu_invalidate_def lfu_inv_def freq_simps)
qed

lemma fmdom_card: "card (dom (fmlookup m)) = fcard (fmdom m)"
  by (simp add: fcard.rep_eq fmdom'_alt_def)

interpretation lfu: bounded_cache lfu_inv lfu_abs lfu_get "lfu_put ord" lfu_invalidate lfu_capacity for ord
proof
  fix c :: "('a, 'b) lfu_inner" and k v
  assume inv: "lfu_inv c"
  show "\<exists>c'. lfu_get k c = Some (lfu_abs c k, c') \<and> lfu_inv c' \<and> lfu_abs c' = lfu_abs c"
    using lfu_get_spec [OF inv, of k] by blast
  show "\<exists>c'. lfu_put ord k v c = Some c' \<and> lfu_inv c' \<and> lfu_abs c' k = Some v \<and>
             lfu_abs c' \<subseteq>\<^sub>m (lfu_abs c)(k \<mapsto> v)"
  proof (cases "fmlookup (lfu_map c) k")
    case None
    show ?thesis using lfu_put_absent [OF inv None, of ord v]
      by (fastforce simp: lfu_abs_def map_le_def split: if_splits)
  next
    case (Some w)
    then show ?thesis using lfu_put_present [OF inv, of k "fst w" "snd w" ord v]
      by (fastforce simp: lfu_abs_def map_le_def)
  qed
  show "\<exists>c'. lfu_invalidate k c = Some c' \<and> lfu_inv c' \<and> lfu_abs c' = (lfu_abs c)(k := None)"
    using lfu_invalidate_spec [OF inv, of k] by (fastforce simp: lfu_abs_def)
  have "dom (lfu_abs c) = dom (fmlookup (lfu_map c))"
    by (auto simp: lfu_abs_def simp del: dom_fmlookup)
  then show "finite (dom (lfu_abs c)) \<and> card (dom (lfu_abs c)) \<le> lfu_capacity c"
    using inv by (simp add: lfu_inv_def fmdom_card del: dom_fmlookup)
  show "lfu_get k c = Some (r, c') \<Longrightarrow> lfu_capacity c' = lfu_capacity c" for r c'
    using lfu_get_spec [OF inv, of k] by auto
  show "lfu_put ord k v c = Some c' \<Longrightarrow> lfu_capacity c' = lfu_capacity c" for c'
    using lfu_put_present [OF inv, of k _ _ ord v] lfu_put_absent [OF inv, of k ord v]
    by (cases "fmlookup (lfu_map c) k") auto
  show "lfu_invalidate k c = Some c' \<Longrightarrow> lfu_capacity c' = lfu_capacity c" for c'
    using lfu_invalidate_spec [OF inv, of k] by auto
qed

section \<open>Properties\<close>

text \<open>A history in which the hash set's order may differ at every call.\<close>

fun lfu_run :: "('k hash_order \<times> ('k, 'v) cache_op) list \<Rightarrow> ('k, 'v) lfu_inner \<Rightarrow> ('k, 'v) lfu_inner option" where
  "lfu_run [] c = Some c"
| "lfu_run ((ord, op) # ops) c = do {
     c' \<leftarrow> cache_run lfu_get (lfu_put ord) lfu_invalidate [op] c;
     lfu_run ops c'
   }"

lemma lfu_run_inv:
  "lfu_inv c \<Longrightarrow> \<exists>c'. lfu_run ops c = Some c' \<and> lfu_inv c' \<and> lfu_capacity c' = lfu_capacity c"
proof (induction ops arbitrary: c)
  case Nil
  then show ?case by simp
next
  case (Cons o1 ops)
  obtain ord op where o1: "o1 = (ord, op)" by (cases o1)
  obtain c' where c': "cache_run lfu_get (lfu_put ord) lfu_invalidate [op] c = Some c'" "lfu_inv c'"
    using lfu.run_refines [OF Cons.prems, of "lfu_abs c" ord "[op]"] by auto
  then have "lfu_capacity c' = lfu_capacity c" using lfu.cap_run [OF Cons.prems] by blast
  then show ?case using Cons.IH [OF c'(2)] c'(1) unfolding o1 lfu_run.simps by simp
qed

lemma lfu_reachable:
  assumes "lfu_new cap = Some c" "lfu_run ops c = Some c'"
  shows "lfu_inv c' \<and> lfu_capacity c' = cap"
  using lfu_new_inv [OF assms(1)] lfu_run_inv [of c ops] assms(2) by auto

text \<open>
  C39: After any history, storing a new key into a full LFU cache removes one key whose use count
  is the least of all, whatever the iteration order of the hash set, and keeps every other
  entry and count; the new key starts at count 1, and nothing panics.
\<close>

theorem lfu_evicts_least:
  assumes "lfu_new cap = Some c" and "lfu_run ops c = Some c1"
    and "lfu_abs c1 k = None" and "card (dom (lfu_abs c1)) = cap"
  shows "\<exists>c2 k0 f0. lfu_put ord k v c1 = Some c2 \<and> lfu_count c1 k0 = Some f0 \<and>
    (\<forall>k' f'. lfu_count c1 k' = Some f' \<longrightarrow> f0 \<le> f') \<and>
    lfu_abs c2 = (lfu_abs c1)(k0 := None, k \<mapsto> v) \<and>
    lfu_count c2 = (lfu_count c1)(k0 := None, k \<mapsto> 1)"
proof -
  have inv: "lfu_inv c1" and cap: "lfu_capacity c1 = cap" using lfu_reachable [OF assms(1,2)] by auto
  have "dom (lfu_abs c1) = dom (fmlookup (lfu_map c1))" by (auto simp: lfu_abs_def dom_def)
  then have "fcard (fmdom (lfu_map c1)) = cap" using assms(4) fmdom_card by metis
  moreover have "fmlookup (lfu_map c1) k = None" using assms(3) by (simp add: lfu_abs_def)
  ultimately obtain c2 k0 v0 f0 where
    "lfu_put ord k v c1 = Some c2" "lfu_map c2 = fmupd k (v, 1) (fmdrop k0 (lfu_map c1))"
    "fmlookup (lfu_map c1) k0 = Some (v0, f0)"
    "\<forall>k' v' f'. fmlookup (lfu_map c1) k' = Some (v', f') \<longrightarrow> f0 \<le> f'"
    using lfu_put_absent [OF inv, of k ord v] cap by auto
  then show ?thesis
    by (intro exI [of _ c2] exI [of _ k0] exI [of _ f0]) (auto simp: lfu_abs_def lfu_count_def fun_eq_iff)
qed

theorem lfu_evicts_least_witness:
  "\<exists>c c1 c2. lfu_new 2 = Some c \<and>
     lfu_run [(least_first, CachePut ''x'' ''a''), (least_first, CachePut ''y'' ''b''), (least_first, CacheGet ''x'')] c = Some c1 \<and>
     lfu_put least_first ''z'' ''c'' c1 = Some c2 \<and> lfu_abs c2 ''y'' = None \<and> lfu_abs c2 ''x'' = Some ''a''"
proof -
  let ?ops = "[(least_first, CachePut ''x'' ''a''), (least_first, CachePut ''y'' ''b''), (least_first, CacheGet ''x'')]"
  obtain c :: "(string, string) lfu_inner" where c: "lfu_new 2 = Some c" by (simp add: lfu_new_def)
  obtain c1 where r: "lfu_run ?ops c = Some c1"
    and m: "lfu_map c1 = fmupd ''x'' (''a'', 2) (fmupd ''y'' (''b'', 1) (fmupd ''x'' (''a'', 1) fmempty))"
    using c
    by (auto simp: lfu_new_def lfu_get_def lfu_put_def lfu_evict_def increment_freq_def freq_insert_def
        freq_remove_def Let_def fcard_finsert_if fcard_fempty numeral_2_eq_2)
  have a: "lfu_abs c1 = [''x'' \<mapsto> ''a'', ''y'' \<mapsto> ''b'']" and n: "lfu_count c1 = [''x'' \<mapsto> 2, ''y'' \<mapsto> 1]"
    by (auto simp: lfu_abs_def lfu_count_def m fun_eq_iff)
  have "card (dom (lfu_abs c1)) = 2" "lfu_abs c1 ''z'' = None" by (simp_all add: a)
  with lfu_evicts_least [OF c r, of "''z''" least_first "''c''"] obtain c2 k0 f0 where
    c2: "lfu_put least_first ''z'' ''c'' c1 = Some c2" "lfu_count c1 k0 = Some f0"
      "\<forall>k' f'. lfu_count c1 k' = Some f' \<longrightarrow> f0 \<le> f'" "lfu_abs c2 = (lfu_abs c1)(k0 := None, ''z'' \<mapsto> ''c'')"
    by blast
  have "lfu_count c1 ''y'' = Some 1" by (simp add: n)
  then have "f0 \<le> 1" using c2(3) by blast
  then have "k0 = ''y''" using c2(2) by (auto simp: n split: if_splits)
  then have "lfu_abs c2 ''y'' = None" "lfu_abs c2 ''x'' = Some ''a''" by (simp_all add: c2(4) a)
  then show ?thesis using c r c2(1) by blast
qed

end
