(* ===== verification/Fifo_Cache.thy ===== *)
theory Fifo_Cache
  imports Cache_Spec
begin

text \<open>
  \<open>FifoCache\<close> of src/cache.rs: a hash map and a queue of its keys in order of insertion. The
  eviction loop runs while the map is full and removes nothing when the queue is empty, so it
  may run for ever; it is a partial function, and the invariant shows that it returns.
\<close>

section \<open>State and operations\<close>

record ('k, 'v) fifo_inner =
  fifo_capacity :: nat
  fifo_map :: "('k, 'v) fmap"
  fifo_queue :: "'k list"

definition fifo_new :: "nat \<Rightarrow> ('k, 'v) fifo_inner option" where
  "fifo_new capacity =
     (if 0 < capacity
      then Some \<lparr>fifo_capacity = capacity, fifo_map = fmempty, fifo_queue = []\<rparr> else None)"

definition fifo_get :: "'k \<Rightarrow> ('k, 'v) fifo_inner \<Rightarrow> ('v option \<times> ('k, 'v) fifo_inner) option" where
  "fifo_get key c = Some (fmlookup (fifo_map c) key, c)"

text \<open>The \<open>while\<close> loop of \<open>put\<close>; \<open>None\<close> is a loop that never ends.\<close>

partial_function (option) fifo_evict :: "('k, 'v) fifo_inner \<Rightarrow> ('k, 'v) fifo_inner option" where
  "fifo_evict c =
     (if fifo_capacity c \<le> fcard (fmdom (fifo_map c))
      then fifo_evict
        (case fifo_queue c of
           evict_key # q \<Rightarrow> c\<lparr>fifo_queue := q, fifo_map := fmdrop evict_key (fifo_map c)\<rparr>
         | [] \<Rightarrow> c)
      else Some c)"

definition fifo_put :: "'k \<Rightarrow> 'v \<Rightarrow> ('k, 'v) fifo_inner \<Rightarrow> ('k, 'v) fifo_inner option" where
  "fifo_put key val c =
     (if fmlookup (fifo_map c) key \<noteq> None
      then Some (c\<lparr>fifo_map := fmupd key val (fifo_map c)\<rparr>)
      else do {
        c1 \<leftarrow> fifo_evict c;
        let c2 = c1\<lparr>fifo_queue := fifo_queue c1 @ [key]\<rparr>;
        Some (c2\<lparr>fifo_map := fmupd key val (fifo_map c2)\<rparr>)
      })"

definition fifo_invalidate :: "'k \<Rightarrow> ('k, 'v) fifo_inner \<Rightarrow> ('k, 'v) fifo_inner option" where
  "fifo_invalidate key c =
     (let removed = fmlookup (fifo_map c) key;
          c1 = c\<lparr>fifo_map := fmdrop key (fifo_map c)\<rparr>
      in Some (if removed \<noteq> None
               then c1\<lparr>fifo_queue := filter (\<lambda>k. k \<noteq> key) (fifo_queue c1)\<rparr> else c1))"

section \<open>Invariant and abstraction\<close>

definition fifo_inv :: "('k, 'v) fifo_inner \<Rightarrow> bool" where
  "fifo_inv c \<longleftrightarrow> distinct (fifo_queue c) \<and> set (fifo_queue c) = fset (fmdom (fifo_map c)) \<and>
     length (fifo_queue c) \<le> fifo_capacity c \<and> 0 < fifo_capacity c"

definition fifo_abs :: "('k, 'v) fifo_inner \<Rightarrow> 'k \<Rightarrow> 'v option" where
  "fifo_abs c = fmlookup (fifo_map c)"

lemma fifo_inv_card: "fifo_inv c \<Longrightarrow> fcard (fmdom (fifo_map c)) = length (fifo_queue c)"
  by (metis distinct_card fcard.rep_eq fifo_inv_def)

lemma fifo_inv_lookup: "fifo_inv c \<Longrightarrow> k \<in> set (fifo_queue c) \<longleftrightarrow> fmlookup (fifo_map c) k \<noteq> None"
  by (auto simp: fifo_inv_def fmlookup_dom_iff)

text \<open>Under the invariant the loop body runs at most once, on the oldest key.\<close>

lemma fifo_evict_spec:
  assumes "fifo_inv c"
  shows "fifo_evict c =
    (if fifo_capacity c \<le> length (fifo_queue c)
     then Some (c\<lparr>fifo_queue := tl (fifo_queue c),
                  fifo_map := fmdrop (hd (fifo_queue c)) (fifo_map c)\<rparr>)
     else Some c)"
proof (cases "fifo_capacity c \<le> length (fifo_queue c)")
  case False
  then show ?thesis using fifo_inv_card [OF assms] by (subst fifo_evict.simps) simp
next
  case True
  then obtain k q where q: "fifo_queue c = k # q"
    using assms by (cases "fifo_queue c") (auto simp: fifo_inv_def)
  let ?c = "c\<lparr>fifo_queue := q, fifo_map := fmdrop k (fifo_map c)\<rparr>"
  have "fset (fmdom (fmdrop k (fifo_map c))) = set q"
    using assms q by (auto simp: fifo_inv_def)
  then have "fcard (fmdom (fifo_map ?c)) = length q"
    using assms q by (metis distinct.simps(2) distinct_card fcard.rep_eq fifo_inv_def
        fifo_inner.select_convs(2) fifo_inner.surjective fifo_inner.update_convs(2))
  then have "fifo_evict ?c = Some ?c"
    using assms q True by (subst fifo_evict.simps) (auto simp: fifo_inv_def)
  moreover have "fifo_evict c = fifo_evict ?c"
    using True fifo_inv_card [OF assms] q by (subst fifo_evict.simps) simp
  ultimately show ?thesis using True q by simp
qed

lemma fifo_new_inv: "fifo_new n = Some c \<Longrightarrow> fifo_inv c \<and> fifo_abs c = Map.empty \<and> fifo_capacity c = n"
  by (auto simp: fifo_new_def fifo_inv_def fifo_abs_def split: if_splits)

text \<open>
  The abstract queue: the entries from the oldest to the newest. Storing under a present key
  keeps its place; a full cache loses the oldest entry.
\<close>

definition afifo_put :: "nat \<Rightarrow> 'k \<Rightarrow> 'k list \<Rightarrow> 'k list" where
  "afifo_put cap k ks =
     (if k \<in> set ks then ks else (if cap \<le> length ks then tl ks else ks) @ [k])"

lemma fifo_put_spec:
  assumes "fifo_inv c"
  shows "\<exists>c'. fifo_put k v c = Some c' \<and> fifo_inv c' \<and> fifo_capacity c' = fifo_capacity c \<and>
    fifo_queue c' = afifo_put (fifo_capacity c) k (fifo_queue c) \<and>
    fifo_abs c' = (fifo_abs c |` set (fifo_queue c'))(k \<mapsto> v)"
proof (cases "fmlookup (fifo_map c) k = None")
  case False
  then have k: "k \<in> set (fifo_queue c)" using fifo_inv_lookup [OF assms] by auto
  then have "fifo_inv (c\<lparr>fifo_map := fmupd k v (fifo_map c)\<rparr>)"
    using assms by (auto simp: fifo_inv_def)
  moreover have "fifo_abs c |` set (fifo_queue c) = fifo_abs c"
    using fifo_inv_lookup [OF assms] by (auto simp: fifo_abs_def restrict_map_def fun_eq_iff)
  ultimately show ?thesis
    using False k by (auto simp: fifo_put_def afifo_put_def fifo_abs_def fun_eq_iff)
next
  case True
  then have k: "k \<notin> set (fifo_queue c)" using fifo_inv_lookup [OF assms] by auto
  show ?thesis
  proof (cases "fifo_capacity c \<le> length (fifo_queue c)")
    case full: True
    then obtain e q where q: "fifo_queue c = e # q"
      using assms by (cases "fifo_queue c") (auto simp: fifo_inv_def)
    let ?c = "c\<lparr>fifo_queue := q @ [k], fifo_map := fmupd k v (fmdrop e (fifo_map c))\<rparr>"
    have "fifo_put k v c = Some ?c"
      using True full q by (simp add: fifo_put_def fifo_evict_spec [OF assms])
    moreover have "fifo_inv ?c" using assms q k by (auto simp: fifo_inv_def)
    moreover have "fifo_abs ?c = (fifo_abs c |` set (q @ [k]))(k \<mapsto> v)"
      using fifo_inv_lookup [OF assms] q assms
      by (auto simp: fifo_abs_def restrict_map_def fun_eq_iff fifo_inv_def)
    ultimately show ?thesis using full q k by (auto simp: afifo_put_def)
  next
    case False
    let ?c = "c\<lparr>fifo_queue := fifo_queue c @ [k], fifo_map := fmupd k v (fifo_map c)\<rparr>"
    have "fifo_put k v c = Some ?c"
      using True False by (simp add: fifo_put_def fifo_evict_spec [OF assms])
    moreover have "fifo_inv ?c" using assms False k by (auto simp: fifo_inv_def)
    moreover have "fifo_abs ?c = (fifo_abs c |` set (fifo_queue c @ [k]))(k \<mapsto> v)"
      using fifo_inv_lookup [OF assms] by (auto simp: fifo_abs_def restrict_map_def fun_eq_iff)
    ultimately show ?thesis using False k by (auto simp: afifo_put_def)
  qed
qed

lemma fifo_invalidate_spec:
  assumes "fifo_inv c"
  shows "\<exists>c'. fifo_invalidate k c = Some c' \<and> fifo_inv c' \<and> fifo_capacity c' = fifo_capacity c \<and>
    fifo_queue c' = filter (\<lambda>k'. k' \<noteq> k) (fifo_queue c) \<and> fifo_abs c' = (fifo_abs c)(k := None)"
proof -
  have "k \<notin> set (fifo_queue c) \<Longrightarrow> filter (\<lambda>k'. k' \<noteq> k) (fifo_queue c) = fifo_queue c"
    by (auto intro!: filter_True)
  moreover have "length (filter (\<lambda>k'. k' \<noteq> k) (fifo_queue c)) \<le> fifo_capacity c"
    using assms le_trans [OF length_filter_le] by (auto simp: fifo_inv_def)
  ultimately show ?thesis
    using assms fifo_inv_lookup [OF assms, of k]
    by (auto simp: fifo_invalidate_def Let_def fifo_inv_def fifo_abs_def)
qed

interpretation fifo: bounded_cache fifo_inv fifo_abs fifo_get fifo_put fifo_invalidate fifo_capacity
proof
  fix c :: "('a, 'b) fifo_inner" and k v
  assume inv: "fifo_inv c"
  show "\<exists>c'. fifo_get k c = Some (fifo_abs c k, c') \<and> fifo_inv c' \<and> fifo_abs c' = fifo_abs c"
    using inv by (simp add: fifo_get_def fifo_abs_def)
  show "\<exists>c'. fifo_put k v c = Some c' \<and> fifo_inv c' \<and> fifo_abs c' k = Some v \<and>
             fifo_abs c' \<subseteq>\<^sub>m (fifo_abs c)(k \<mapsto> v)"
    using fifo_put_spec [OF inv, of k v] by (auto simp: map_le_def restrict_map_def split: if_splits)
  show "\<exists>c'. fifo_invalidate k c = Some c' \<and> fifo_inv c' \<and> fifo_abs c' = (fifo_abs c)(k := None)"
    using fifo_invalidate_spec [OF inv, of k] by blast
  show "finite (dom (fifo_abs c)) \<and> card (dom (fifo_abs c)) \<le> fifo_capacity c"
    using fifo_inv_card [OF inv] inv
    by (simp add: fifo_abs_def fifo_inv_def fcard.rep_eq fmdom'_alt_def)
  show "fifo_get k c = Some (r, c') \<Longrightarrow> fifo_capacity c' = fifo_capacity c" for r c'
    by (simp add: fifo_get_def)
  show "fifo_put k v c = Some c' \<Longrightarrow> fifo_capacity c' = fifo_capacity c" for c'
    using fifo_put_spec [OF inv, of k v] by auto
  show "fifo_invalidate k c = Some c' \<Longrightarrow> fifo_capacity c' = fifo_capacity c" for c'
    using fifo_invalidate_spec [OF inv, of k] by auto
qed

section \<open>Properties\<close>

lemma fifo_reachable:
  assumes "fifo_new cap = Some c" "cache_run fifo_get fifo_put fifo_invalidate ops c = Some c'"
  shows "fifo_inv c' \<and> fifo_capacity c' = cap"
proof -
  have c: "fifo_inv c" "fifo_capacity c = cap" using fifo_new_inv [OF assms(1)] by auto
  show ?thesis
    using fifo.run_refines [OF c(1), of "fifo_abs c" ops] assms(2) fifo.cap_run [OF c(1) assms(2)] c(2)
    by auto
qed

text \<open>One call on the abstract queue of keys.\<close>

fun afifo_op :: "nat \<Rightarrow> ('k, 'v) cache_op \<Rightarrow> 'k list \<Rightarrow> 'k list" where
  "afifo_op cap (CacheGet k) ks = ks"
| "afifo_op cap (CachePut k v) ks = afifo_put cap k ks"
| "afifo_op cap (CacheInvalidate k) ks = filter (\<lambda>k'. k' \<noteq> k) ks"

lemma fifo_run_queue:
  "fifo_inv c \<Longrightarrow> \<exists>c'. cache_run fifo_get fifo_put fifo_invalidate ops c = Some c' \<and> fifo_inv c' \<and>
     fifo_capacity c' = fifo_capacity c \<and> fifo_queue c' = fold (afifo_op (fifo_capacity c)) ops (fifo_queue c)"
proof (induction ops arbitrary: c)
  case Nil
  then show ?case by simp
next
  case (Cons op ops)
  show ?case
  proof (cases op)
    case (CacheGet k)
    then show ?thesis using Cons by (auto simp: fifo_get_def)
  next
    case (CachePut k v)
    then show ?thesis using fifo_put_spec [OF Cons.prems, of k v] Cons.IH by fastforce
  next
    case (CacheInvalidate k)
    then show ?thesis using fifo_invalidate_spec [OF Cons.prems, of k] Cons.IH by fastforce
  qed
qed

text \<open>
  C38: The FIFO cache's eviction loop, which the code leaves only when the map has room, ends on
  every history from a new cache; the queue is that of the abstract policy (storing under a
  present key keeps its place, a full cache loses the oldest key), holds exactly the stored
  keys, once each, and never exceeds the capacity.
\<close>

theorem fifo_history:
  assumes "fifo_new cap = Some c"
  shows "\<exists>c'. cache_run fifo_get fifo_put fifo_invalidate ops c = Some c' \<and>
    fifo_queue c' = fold (afifo_op cap) ops [] \<and> distinct (fifo_queue c') \<and>
    set (fifo_queue c') = dom (fifo_abs c') \<and> length (fifo_queue c') \<le> cap"
proof -
  have "fifo_queue c = []" using assms by (auto simp: fifo_new_def split: if_splits)
  then have c: "fifo_inv c" "fifo_capacity c = cap" "fifo_queue c = []"
    using fifo_new_inv [OF assms] by auto
  then obtain c' where c': "cache_run fifo_get fifo_put fifo_invalidate ops c = Some c'" "fifo_inv c'"
    "fifo_capacity c' = cap" "fifo_queue c' = fold (afifo_op cap) ops []"
    using fifo_run_queue [OF c(1), of ops] by auto
  have "set (fifo_queue c') = dom (fifo_abs c')"
    using fifo_inv_lookup [OF c'(2)] by (simp add: fifo_abs_def fmdom'_notI fmlookup_dom'_iff set_eq_iff)
  moreover have "distinct (fifo_queue c') \<and> length (fifo_queue c') \<le> cap"
    using c'(2,3) by (simp add: fifo_inv_def)
  ultimately show ?thesis using c'(1,4) by blast
qed

theorem fifo_history_witness:
  "\<exists>c c'. fifo_new 2 = Some c \<and>
     cache_run fifo_get fifo_put fifo_invalidate
       [CachePut (1::nat) ''a'', CachePut 2 ''b'', CachePut 1 ''d'', CachePut 3 ''c''] c = Some c' \<and>
     fifo_queue c' = [2, 3]"
proof -
  obtain c :: "(nat, string) fifo_inner" where c: "fifo_new 2 = Some c" by (simp add: fifo_new_def)
  let ?ops = "[CachePut (1::nat) ''a'', CachePut 2 ''b'', CachePut 1 ''d'', CachePut 3 ''c'']"
  obtain c' where "cache_run fifo_get fifo_put fifo_invalidate ?ops c = Some c'"
    "fifo_queue c' = fold (afifo_op 2) ?ops []"
    using fifo_history [OF c, of ?ops] by blast
  moreover have "fold (afifo_op 2) ?ops [] = [2, 3]" by (simp add: afifo_put_def)
  ultimately show ?thesis using c by metis
qed

end
