(* ===== verification/Schema_Ast.thy ===== *)
theory Schema_Ast
  imports Prelude
begin

text \<open>
  The syntax trees of the Kind Schema Language (src/schema/ast.rs).
\<close>

text \<open>\<open>DataType::String\<close> is \<open>StringT\<close>: \<open>String\<close> is a theory of HOL.\<close>

datatype data_type =
  StringT | U16 | U32 | U64 | I32 | I64 | F64 | Boolean | Custom str | Array data_type

record field_definition =
  fd_name :: str
  fd_data_type :: data_type
  fd_is_indexed :: bool

record type_definition =
  td_name :: str
  td_fields :: "field_definition list"
  td_prefix :: "str option"

record enum_definition =
  ed_name :: str
  ed_variants :: "str list"

datatype schema_node = TypeNode type_definition | EnumNode enum_definition

end
