(* ===== verification/Ksl_Lexer.thy ===== *)
theory Ksl_Lexer
  imports Schema_Ast
begin

text \<open>
  The lexer of src/schema/parser.rs. Its state is the rest of the input, \<open>&self.input[self.pos..]\<close>:
  every access of the code is to that suffix.
\<close>

datatype token =
  Keyword str | Identifier str | StringLiteral str
| LBrace | RBrace | LParen | RParen | Comma | Colon | AtIndexed | AtPrefix | LBracket | RBracket

definition skip_whitespace :: "str \<Rightarrow> str" where
  "skip_whitespace = dropWhile is_whitespace"

definition quote :: char where
  "quote = CHR 0x22"

definition ident_char :: "char \<Rightarrow> bool" where
  "ident_char c \<longleftrightarrow> is_alphanumeric c \<or> c = CHR ''_''"

lemma length_skip_whitespace: "length (skip_whitespace s) \<le> length s"
  by (simp add: skip_whitespace_def length_dropWhile_le)

lemma skip_whitespace_Cons_length: "skip_whitespace s = c # cs \<Longrightarrow> length cs < length s"
  using length_skip_whitespace [of s] by simp

text \<open>
  The branches of \<open>next_token\<close> on the first character after the blanks: a token and the rest of
  the input, or (\<open>Inr\<close>) the input at which the recursive call goes on, after an unknown
  annotation or an unexpected character.
\<close>

definition scan :: "char \<Rightarrow> str \<Rightarrow> (token \<times> str) + str" where
  "scan c cs =
     (if c = CHR ''{'' then Inl (LBrace, cs)
      else if c = CHR ''}'' then Inl (RBrace, cs)
      else if c = CHR ''('' then Inl (LParen, cs)
      else if c = CHR '')'' then Inl (RParen, cs)
      else if c = CHR ''['' then Inl (LBracket, cs)
      else if c = CHR '']'' then Inl (RBracket, cs)
      else if c = quote then
        (let word = takeWhile (\<lambda>x. x \<noteq> quote) cs; rest = dropWhile (\<lambda>x. x \<noteq> quote) cs
         in Inl (StringLiteral word, (case rest of [] \<Rightarrow> [] | q # r \<Rightarrow> r)))
      else if c = CHR '','' then Inl (Comma, cs)
      else if c = CHR '':'' then Inl (Colon, cs)
      else if c = CHR ''@'' then
        (let word = c # takeWhile is_alphanumeric cs; rest = dropWhile is_alphanumeric cs
         in if word = ''@indexed'' then Inl (AtIndexed, rest)
            else if word = ''@prefix'' then Inl (AtPrefix, rest)
            else Inr rest)
      else if is_alphabetic c \<or> c = CHR ''_'' then
        (let word = takeWhile ident_char (c # cs); rest = dropWhile ident_char (c # cs)
         in Inl (if word = ''type'' \<or> word = ''enum'' then Keyword word else Identifier word, rest))
      else Inr cs)"

lemma scan_shrinks:
  "scan c cs = Inl (t, r) \<Longrightarrow> length r \<le> length cs"
  "scan c cs = Inr r \<Longrightarrow> length r \<le> length cs"
proof -
  note le = length_dropWhile_le [of is_alphanumeric cs] length_dropWhile_le [of ident_char cs]
    length_dropWhile_le [of "\<lambda>x. x \<noteq> quote" cs]
  have "is_alphabetic c \<or> c = CHR ''_'' \<Longrightarrow> ident_char c"
    by (auto simp: ident_char_def is_alphanumeric_def)
  then show "scan c cs = Inl (t, r) \<Longrightarrow> length r \<le> length cs"
    using le by (auto simp: scan_def Let_def split: if_splits list.splits)
  show "scan c cs = Inr r \<Longrightarrow> length r \<le> length cs"
    using le by (auto simp: scan_def Let_def split: if_splits)
qed

function next_token :: "str \<Rightarrow> token option \<times> str" where
  "next_token inp =
     (case skip_whitespace inp of
        [] \<Rightarrow> (None, [])
      | c # cs \<Rightarrow>
          (case scan c cs of
             Inl (t, rest) \<Rightarrow> (Some t, rest)
           | Inr rest \<Rightarrow> next_token rest))"
  by pat_completeness auto
termination
  by (relation "measure length") (auto dest!: skip_whitespace_Cons_length scan_shrinks(2))

declare next_token.simps [simp del]

text \<open>Every token consumes input, and the end of the input is reached only with nothing left.\<close>

lemma next_token_consumes: "next_token inp = (Some t, rest) \<Longrightarrow> length rest < length inp"
proof (induction inp rule: next_token.induct)
  case (1 inp)
  show ?case
  proof (cases "skip_whitespace inp")
    case Nil
    with "1.prems" show ?thesis by (simp add: next_token.simps [of inp])
  next
    case (Cons c cs)
    then show ?thesis
      using "1.prems" "1.IH" [OF Cons] scan_shrinks [of c cs] skip_whitespace_Cons_length [OF Cons]
      by (fastforce simp: next_token.simps [of inp] split: sum.splits)
  qed
qed

lemma next_token_None: "next_token inp = (None, rest) \<Longrightarrow> rest = []"
proof (induction inp rule: next_token.induct)
  case (1 inp)
  show ?case
  proof (cases "skip_whitespace inp")
    case Nil
    with "1.prems" show ?thesis by (simp add: next_token.simps [of inp])
  next
    case (Cons c cs)
    then show ?thesis
      using "1.prems" "1.IH" [OF Cons] by (auto simp: next_token.simps [of inp] split: sum.splits)
  qed
qed

section \<open>The text of a token\<close>

fun token_text :: "token \<Rightarrow> str" where
  "token_text (Keyword s) = s"
| "token_text (Identifier s) = s"
| "token_text (StringLiteral s) = quote # s @ [quote]"
| "token_text LBrace = ''{''"
| "token_text RBrace = ''}''"
| "token_text LParen = ''(''"
| "token_text RParen = '')''"
| "token_text Comma = '',''"
| "token_text Colon = '':''"
| "token_text AtIndexed = ''@indexed''"
| "token_text AtPrefix = ''@prefix''"
| "token_text LBracket = ''[''"
| "token_text RBracket = '']''"

definition is_word :: "str \<Rightarrow> bool" where
  "is_word s \<longleftrightarrow> s \<noteq> [] \<and> (is_alphabetic (hd s) \<or> hd s = CHR ''_'') \<and> list_all ident_char s"

fun wf_token :: "token \<Rightarrow> bool" where
  "wf_token (Keyword s) \<longleftrightarrow> s = ''type'' \<or> s = ''enum''"
| "wf_token (Identifier s) \<longleftrightarrow> is_word s \<and> s \<noteq> ''type'' \<and> s \<noteq> ''enum''"
| "wf_token (StringLiteral s) \<longleftrightarrow> quote \<notin> set s"
| "wf_token _ \<longleftrightarrow> True"

text \<open>A token's text followed by a blank lexes to that token, and the blank is left.\<close>

lemma next_token_blank: "next_token (CHR '' '' # r) = next_token r"
proof -
  have "skip_whitespace (CHR '' '' # r) = skip_whitespace r"
    by (simp add: skip_whitespace_def char_class_defs)
  then show ?thesis by (subst (1 2) next_token.simps) simp
qed

lemma blank_classes [simp]: "\<not> is_alphanumeric (CHR '' '')" "\<not> ident_char (CHR '' '')"
  by (simp_all add: ident_char_def char_class_defs)

lemma next_token_word:
  assumes "is_word s"
  shows "next_token (s @ CHR '' '' # r) =
    (Some (if s = ''type'' \<or> s = ''enum'' then Keyword s else Identifier s), CHR '' '' # r)"
proof -
  obtain c cs where s: "s = c # cs" and c: "is_alphabetic c \<or> c = CHR ''_''" "list_all ident_char s"
    using assms by (cases s) (auto simp: is_word_def)
  have "\<not> is_whitespace c" using c(1) by (auto simp: char_class_defs Let_def)
  then have "skip_whitespace (s @ CHR '' '' # r) = c # cs @ CHR '' '' # r"
    by (simp add: s skip_whitespace_def)
  moreover have "c \<notin> {CHR ''{'', CHR ''}'', CHR ''('', CHR '')'', CHR ''['', CHR '']'', quote,
      CHR '','', CHR '':'', CHR ''@''}"
    using c(1) by (auto simp: char_class_defs quote_def)
  moreover have "takeWhile ident_char (c # cs @ CHR '' '' # r) = s"
    "dropWhile ident_char (c # cs @ CHR '' '' # r) = CHR '' '' # r"
    using takeWhile_until [OF c(2), of "CHR '' ''" r] s by simp_all
  ultimately show ?thesis using c(1) by (subst next_token.simps) (simp add: scan_def)
qed

lemma next_token_text:
  assumes "wf_token t"
  shows "next_token (token_text t @ CHR '' '' # r) = (Some t, CHR '' '' # r)"
proof -
  have kw: "is_word ''type''" "is_word ''enum''"
    by (simp_all add: is_word_def ident_char_def char_class_defs)
  show ?thesis
  proof (cases t)
    case (Keyword s)
    then show ?thesis using assms next_token_word [of s r] kw by auto
  next
    case (Identifier s)
    then show ?thesis using assms next_token_word [of s r] by auto
  next
    case (StringLiteral s)
    then have "list_all (\<lambda>x. x \<noteq> quote) s" using assms by (auto simp: list_all_iff)
    from takeWhile_until [OF this, of quote "CHR '' '' # r"] show ?thesis
      using StringLiteral
      by (subst next_token.simps) (simp add: scan_def skip_whitespace_def char_class_defs quote_def)
  qed (subst next_token.simps; simp add: scan_def skip_whitespace_def char_class_defs quote_def)+
qed

end
