(* ===== verification/Ksl_Parser.thy ===== *)
theory Ksl_Parser
  imports Ksl_Lexer
begin

text \<open>
  The recursive-descent parser of src/schema/parser.rs: the current token and the lexer. A
  parsing function returns an error message, or a value and the parser after it.
\<close>

type_synonym parser = "token option \<times> str"
type_synonym 'a parsed = "str + 'a \<times> parser"

definition parser_new :: "str \<Rightarrow> parser" where
  "parser_new input = next_token input"

definition current :: "parser \<Rightarrow> token option" where
  "current p = fst p"

definition advance :: "parser \<Rightarrow> parser" where
  "advance p = next_token (snd p)"

definition expect_identifier :: "parser \<Rightarrow> str parsed" where
  "expect_identifier p =
     (case current p of
        Some (Identifier val) \<Rightarrow> Inr (val, advance p)
      | _ \<Rightarrow> Inl ''Expected identifier'')"

text \<open>\<open>{:?}\<close> of a token; the code only ever expects tokens without a payload.\<close>

fun token_debug :: "token \<Rightarrow> str" where
  "token_debug (Keyword s) = ''Keyword('' @ quote # s @ quote # '')''"
| "token_debug (Identifier s) = ''Identifier('' @ quote # s @ quote # '')''"
| "token_debug (StringLiteral s) = ''StringLiteral('' @ quote # s @ quote # '')''"
| "token_debug LBrace = ''LBrace''"
| "token_debug RBrace = ''RBrace''"
| "token_debug LParen = ''LParen''"
| "token_debug RParen = ''RParen''"
| "token_debug Comma = ''Comma''"
| "token_debug Colon = ''Colon''"
| "token_debug AtIndexed = ''AtIndexed''"
| "token_debug AtPrefix = ''AtPrefix''"
| "token_debug LBracket = ''LBracket''"
| "token_debug RBracket = ''RBracket''"

definition match_token :: "token \<Rightarrow> parser \<Rightarrow> str + parser" where
  "match_token expected p =
     (if current p = Some expected then Inr (advance p) else Inl (''Expected '' @ token_debug expected))"

text \<open>What is left to parse; every function that succeeds makes it smaller.\<close>

definition psize :: "parser \<Rightarrow> nat" where
  "psize p = length (snd p) + (if current p = None then 0 else 1)"

lemma psize_advance: "current p \<noteq> None \<Longrightarrow> psize (advance p) < psize p"
proof -
  assume c: "current p \<noteq> None"
  obtain t r where tr: "next_token (snd p) = (t, r)" by fastforce
  then show ?thesis
    using c next_token_consumes [of "snd p" _ r] next_token_None [of "snd p" r]
    by (cases t) (auto simp: psize_def advance_def current_def)
qed

lemma psize_expect_identifier: "expect_identifier p = Inr (s, q) \<Longrightarrow> psize q < psize p"
  using psize_advance [of p]
  by (auto simp: expect_identifier_def split: option.splits token.splits)

lemma psize_match_token: "match_token t p = Inr q \<Longrightarrow> psize q < psize p"
  using psize_advance [of p] by (auto simp: match_token_def split: if_splits)

section \<open>Data types\<close>

definition named_type :: "str \<Rightarrow> data_type" where
  "named_type type_name =
     (if type_name = ''String'' then StringT
      else if type_name = ''U16'' then U16
      else if type_name = ''U32'' then U32
      else if type_name = ''U64'' then U64
      else if type_name = ''I32'' then I32
      else if type_name = ''I64'' then I64
      else if type_name = ''F64'' then F64
      else if type_name = ''Boolean'' then Boolean
      else Custom type_name)"

function parse_data_type :: "parser \<Rightarrow> data_type parsed" where
  "parse_data_type p =
     (if current p = Some LBracket then
        try_ok (parse_data_type (advance p)) (\<lambda>(inner, p1).
        try_ok (match_token RBracket p1) (\<lambda>p2.
        Inr (Array inner, p2)))
      else
        try_ok (expect_identifier p) (\<lambda>(type_name, p1). Inr (named_type type_name, p1)))"
  by pat_completeness auto
termination
  by (relation "measure psize") (simp_all add: psize_advance)

declare parse_data_type.simps [simp del]

lemma psize_parse_data_type: "parse_data_type p = Inr (d, q) \<Longrightarrow> psize q < psize p"
proof (induction p arbitrary: d q rule: parse_data_type.induct)
  case (1 p)
  show ?case
  proof (cases "current p = Some LBracket")
    case True
    with "1.prems" obtain inner p1 where
      "parse_data_type (advance p) = Inr (inner, p1)" "match_token RBracket p1 = Inr q"
      by (auto simp: parse_data_type.simps [of p] try_ok_Inr)
    then show ?thesis
      using "1.IH" [OF True] psize_match_token [of RBracket p1 q] psize_advance [of p] True by fastforce
  next
    case False
    with "1.prems" show ?thesis
      by (auto simp: parse_data_type.simps [of p] try_ok_Inr dest: psize_expect_identifier)
  qed
qed

section \<open>Fields and variants\<close>

text \<open>One round of the \<open>while\<close> loop of a type: a field, up to the comma or the closing brace.\<close>

definition parse_field :: "parser \<Rightarrow> field_definition parsed" where
  "parse_field p =
     (let is_indexed = (current p = Some AtIndexed);
          p0 = (if is_indexed then advance p else p)
      in try_ok (expect_identifier p0) (\<lambda>(field_name, p1).
         try_ok (match_token Colon p1) (\<lambda>p2.
         try_ok (parse_data_type p2) (\<lambda>(data_type, p3).
         Inr (\<lparr>fd_name = field_name, fd_data_type = data_type, fd_is_indexed = is_indexed\<rparr>, p3)))))"

definition parse_separator :: "parser \<Rightarrow> str + parser" where
  "parse_separator p =
     (if current p = Some Comma then Inr (advance p)
      else if current p \<noteq> Some RBrace then Inl ''Expected comma or }''
      else Inr p)"

lemma psize_parse_field: "parse_field p = Inr (f, q) \<Longrightarrow> psize q < psize p"
  using psize_advance [of p]
  by (auto simp: parse_field_def Let_def try_ok_Inr split: if_splits
      dest!: psize_expect_identifier psize_match_token psize_parse_data_type)

lemma psize_parse_separator: "parse_separator p = Inr q \<Longrightarrow> psize q \<le> psize p"
  using psize_advance [of p] by (auto simp: parse_separator_def split: if_splits)

function parse_fields :: "parser \<Rightarrow> field_definition list parsed" where
  "parse_fields p =
     (if current p = Some RBrace then Inr ([], p)
      else
        try_ok (parse_field p) (\<lambda>(f, p1).
        try_ok (parse_separator p1) (\<lambda>p2.
        try_ok (parse_fields p2) (\<lambda>(fs, p3). Inr (f # fs, p3)))))"
  by pat_completeness auto
termination
  by (relation "measure psize") (auto dest!: psize_parse_field psize_parse_separator)

function parse_variants :: "parser \<Rightarrow> str list parsed" where
  "parse_variants p =
     (if current p = Some RBrace then Inr ([], p)
      else
        try_ok (expect_identifier p) (\<lambda>(v, p1).
        try_ok (parse_separator p1) (\<lambda>p2.
        try_ok (parse_variants p2) (\<lambda>(vs, p3). Inr (v # vs, p3)))))"
  by pat_completeness auto
termination
  by (relation "measure psize") (auto dest!: psize_expect_identifier psize_parse_separator)

declare parse_fields.simps [simp del] parse_variants.simps [simp del]

lemma psize_parse_fields: "parse_fields p = Inr (fs, q) \<Longrightarrow> psize q \<le> psize p"
proof (induction p arbitrary: fs q rule: parse_fields.induct)
  case (1 p)
  show ?case
  proof (cases "current p = Some RBrace")
    case True
    with "1.prems" show ?thesis by (simp add: parse_fields.simps [of p])
  next
    case False
    with "1.prems" obtain f p1 p2 gs where "parse_field p = Inr (f, p1)" "parse_separator p1 = Inr p2"
      "parse_fields p2 = Inr (gs, q)"
      by (auto simp: parse_fields.simps [of p] try_ok_Inr)
    then show ?thesis
      using "1.IH" [OF False, of "(f, p1)" f p1 p2 gs q] psize_parse_field [of p f p1]
        psize_parse_separator [of p1 p2] by simp
  qed
qed

lemma psize_parse_variants: "parse_variants p = Inr (vs, q) \<Longrightarrow> psize q \<le> psize p"
proof (induction p arbitrary: vs q rule: parse_variants.induct)
  case (1 p)
  show ?case
  proof (cases "current p = Some RBrace")
    case True
    with "1.prems" show ?thesis by (simp add: parse_variants.simps [of p])
  next
    case False
    with "1.prems" obtain v p1 p2 ws where "expect_identifier p = Inr (v, p1)"
      "parse_separator p1 = Inr p2" "parse_variants p2 = Inr (ws, q)"
      by (auto simp: parse_variants.simps [of p] try_ok_Inr)
    then show ?thesis
      using "1.IH" [OF False, of "(v, p1)" v p1 p2 ws q] psize_expect_identifier [of p v p1]
        psize_parse_separator [of p1 p2] by simp
  qed
qed

section \<open>Nodes\<close>

definition apostrophe :: char where
  "apostrophe = CHR 0x27"

text \<open>The optional \<open>@prefix("...")\<close> before a node.\<close>

definition prefix_literal :: "parser \<Rightarrow> str parsed" where
  "prefix_literal p =
     (case current p of
        Some (StringLiteral s) \<Rightarrow> Inr (s, advance p)
      | _ \<Rightarrow> Inl ''Expected string literal after @prefix('')"

definition parse_prefix :: "parser \<Rightarrow> str option parsed" where
  "parse_prefix p =
     (if current p = Some AtPrefix then
        try_ok (match_token LParen (advance p)) (\<lambda>p1.
        try_ok (prefix_literal p1) (\<lambda>(s, p2).
        try_ok (match_token RParen p2) (\<lambda>p3.
        Inr (Some s, p3))))
      else Inr (None, p))"

definition parse_node :: "parser \<Rightarrow> schema_node parsed" where
  "parse_node p =
     try_ok (parse_prefix p) (\<lambda>(pre, p0).
       if current p0 = Some (Keyword ''type'') then
         try_ok (expect_identifier (advance p0)) (\<lambda>(name, p1).
         try_ok (match_token LBrace p1) (\<lambda>p2.
         try_ok (parse_fields p2) (\<lambda>(fields, p3).
         try_ok (match_token RBrace p3) (\<lambda>p4.
         Inr (TypeNode \<lparr>td_name = name, td_fields = fields, td_prefix = pre\<rparr>, p4)))))
       else if current p0 = Some (Keyword ''enum'') then
         try_ok (expect_identifier (advance p0)) (\<lambda>(name, p1).
         try_ok (match_token LBrace p1) (\<lambda>p2.
         try_ok (parse_variants p2) (\<lambda>(variants, p3).
         try_ok (match_token RBrace p3) (\<lambda>p4.
         Inr (EnumNode \<lparr>ed_name = name, ed_variants = variants\<rparr>, p4)))))
       else Inl (''Expected keyword '' @ apostrophe # ''type'' @ apostrophe # '' or '' @
                 apostrophe # ''enum'' @ [apostrophe]))"

lemma psize_prefix_literal: "prefix_literal p = Inr (s, q) \<Longrightarrow> psize q < psize p"
  using psize_advance [of p] by (auto simp: prefix_literal_def split: option.splits token.splits)

lemma psize_parse_prefix: "parse_prefix p = Inr (s, q) \<Longrightarrow> psize q \<le> psize p"
  using psize_advance [of p]
  by (auto simp: parse_prefix_def try_ok_Inr split: if_splits
      dest!: psize_match_token psize_prefix_literal)

lemma psize_parse_node: "parse_node p = Inr (n, q) \<Longrightarrow> psize q < psize p"
proof -
  assume "parse_node p = Inr (n, q)"
  then obtain pre p0 name p1 p2 p3 where
    "parse_prefix p = Inr (pre, p0)" "current p0 \<noteq> None"
    "expect_identifier (advance p0) = Inr (name, p1)" "match_token LBrace p1 = Inr p2"
    "psize p3 \<le> psize p2" "match_token RBrace p3 = Inr q"
    by (auto simp: parse_node_def try_ok_Inr split: if_splits
        dest!: psize_parse_fields psize_parse_variants)
  then show ?thesis
    using psize_parse_prefix [of p pre p0] psize_advance [of p0]
      psize_expect_identifier [of "advance p0" name p1] psize_match_token [of LBrace p1 p2]
      psize_match_token [of RBrace p3 q] by linarith
qed

function parse :: "parser \<Rightarrow> str + schema_node list" where
  "parse p =
     (if current p = None then Inr []
      else
        try_ok (parse_node p) (\<lambda>(n, p1).
        try_ok (parse p1) (\<lambda>ns. Inr (n # ns))))"
  by pat_completeness auto
termination
  by (relation "measure psize") (auto dest!: psize_parse_node)

declare parse.simps [simp del]

definition parse_schema :: "str \<Rightarrow> str + schema_node list" where
  "parse_schema sdl = parse (parser_new sdl)"

end
