(* ===== verification/Ksl_Grammar.thy ===== *)
theory Ksl_Grammar
  imports Ksl_Parser
begin

text \<open>
  The grammar of the schema language, as the token sequence and the text of every syntax tree,
  and the round trip: the parser of src/schema/parser.rs reads each tree back from its text.
  The code has no printer; this is the specification the parser is checked against.
\<close>

section \<open>Grammar\<close>

fun type_tokens :: "data_type \<Rightarrow> token list" where
  "type_tokens StringT = [Identifier ''String'']"
| "type_tokens U16 = [Identifier ''U16'']"
| "type_tokens U32 = [Identifier ''U32'']"
| "type_tokens U64 = [Identifier ''U64'']"
| "type_tokens I32 = [Identifier ''I32'']"
| "type_tokens I64 = [Identifier ''I64'']"
| "type_tokens F64 = [Identifier ''F64'']"
| "type_tokens Boolean = [Identifier ''Boolean'']"
| "type_tokens (Custom s) = [Identifier s]"
| "type_tokens (Array d) = LBracket # type_tokens d @ [RBracket]"

definition field_tokens :: "field_definition \<Rightarrow> token list" where
  "field_tokens f = (if fd_is_indexed f then [AtIndexed] else []) @
     [Identifier (fd_name f), Colon] @ type_tokens (fd_data_type f)"

fun separated :: "token list list \<Rightarrow> token list" where
  "separated [] = []"
| "separated [ts] = ts"
| "separated (ts # tss) = ts @ Comma # separated tss"

fun node_tokens :: "schema_node \<Rightarrow> token list" where
  "node_tokens (TypeNode t) =
     (case td_prefix t of None \<Rightarrow> [] | Some s \<Rightarrow> [AtPrefix, LParen, StringLiteral s, RParen]) @
     [Keyword ''type'', Identifier (td_name t), LBrace] @
     separated (map field_tokens (td_fields t)) @ [RBrace]"
| "node_tokens (EnumNode e) =
     [Keyword ''enum'', Identifier (ed_name e), LBrace] @
     separated (map (\<lambda>v. [Identifier v]) (ed_variants e)) @ [RBrace]"

definition schema_text :: "schema_node list \<Rightarrow> str" where
  "schema_text ns = concat (map (\<lambda>t. token_text t @ '' '') (concat (map node_tokens ns)))"

text \<open>Names are words other than the keywords; a custom type is not one of the built-in names.\<close>

definition is_name :: "str \<Rightarrow> bool" where
  "is_name s \<longleftrightarrow> is_word s \<and> s \<noteq> ''type'' \<and> s \<noteq> ''enum''"

fun wf_type :: "data_type \<Rightarrow> bool" where
  "wf_type (Custom s) \<longleftrightarrow> is_name s \<and> named_type s = Custom s"
| "wf_type (Array d) \<longleftrightarrow> wf_type d"
| "wf_type _ \<longleftrightarrow> True"

definition wf_field :: "field_definition \<Rightarrow> bool" where
  "wf_field f \<longleftrightarrow> is_name (fd_name f) \<and> wf_type (fd_data_type f)"

fun wf_node :: "schema_node \<Rightarrow> bool" where
  "wf_node (TypeNode t) \<longleftrightarrow> is_name (td_name t) \<and> list_all wf_field (td_fields t) \<and>
     (case td_prefix t of None \<Rightarrow> True | Some s \<Rightarrow> quote \<notin> set s)"
| "wf_node (EnumNode e) \<longleftrightarrow> is_name (ed_name e) \<and> list_all is_name (ed_variants e)"

section \<open>The token stream of a parser\<close>

text \<open>\<open>lexes inp ts\<close>: the lexer yields exactly the tokens \<open>ts\<close>; \<open>ahead p ts\<close>: so does the parser.\<close>

fun lexes :: "str \<Rightarrow> token list \<Rightarrow> bool" where
  "lexes inp [] \<longleftrightarrow> fst (next_token inp) = None"
| "lexes inp (t # ts) \<longleftrightarrow> fst (next_token inp) = Some t \<and> lexes (snd (next_token inp)) ts"

fun ahead :: "parser \<Rightarrow> token list \<Rightarrow> bool" where
  "ahead p [] \<longleftrightarrow> current p = None"
| "ahead p (t # ts) \<longleftrightarrow> current p = Some t \<and> lexes (snd p) ts"

lemma ahead_advance: "ahead p (t # ts) \<Longrightarrow> current p = Some t \<and> ahead (advance p) ts"
  by (cases ts) (auto simp: advance_def current_def)

lemma lexes_blank: "lexes (CHR '' '' # r) ts \<longleftrightarrow> lexes r ts"
  by (cases ts) (simp_all add: next_token_blank)

lemma lexes_text: "list_all wf_token ts \<Longrightarrow> lexes (concat (map (\<lambda>t. token_text t @ '' '') ts)) ts"
proof (induction ts)
  case Nil
  then show ?case by (simp add: next_token.simps skip_whitespace_def)
next
  case (Cons t ts)
  then show ?case by (simp add: next_token_text lexes_blank)
qed

lemma ahead_parser_new: "lexes inp ts \<Longrightarrow> ahead (parser_new inp) ts"
  by (cases ts) (auto simp: parser_new_def current_def)

lemma ahead_expect_identifier:
  "ahead p (Identifier s # ts) \<Longrightarrow> \<exists>q. expect_identifier p = Inr (s, q) \<and> ahead q ts"
  using ahead_advance [of p "Identifier s" ts] by (auto simp: expect_identifier_def)

lemma ahead_match_token: "ahead p (t # ts) \<Longrightarrow> \<exists>q. match_token t p = Inr q \<and> ahead q ts"
  using ahead_advance [of p t ts] by (auto simp: match_token_def)

lemma ahead_current: "ahead p (t # ts) \<Longrightarrow> current p = Some t"
  by simp

lemma ahead_Nil: "ahead p [] \<longleftrightarrow> current p = None"
  by simp

declare ahead.simps [simp del]

section \<open>Parsing a printed tree\<close>

lemma builtin_type_tokens:
  assumes "ahead p (Identifier s # ts)"
  shows "\<exists>q. parse_data_type p = Inr (named_type s, q) \<and> ahead q ts"
proof -
  obtain q where "expect_identifier p = Inr (s, q)" "ahead q ts"
    using ahead_expect_identifier [OF assms] by blast
  then show ?thesis using ahead_current [OF assms] by (simp add: parse_data_type.simps [of p])
qed

lemma parse_data_type_tokens:
  "ahead p (type_tokens d @ ts) \<Longrightarrow> wf_type d \<Longrightarrow> \<exists>q. parse_data_type p = Inr (d, q) \<and> ahead q ts"
proof (induction d arbitrary: p ts)
  case (Custom s)
  then show ?case using builtin_type_tokens [of p s ts] by simp
next
  case (Array d)
  from Array.prems have a: "ahead p (LBracket # type_tokens d @ RBracket # ts)" by simp
  then obtain q where "parse_data_type (advance p) = Inr (d, q)" "ahead q (RBracket # ts)"
    using Array ahead_advance [OF a] by (metis wf_type.simps(2))
  moreover obtain q' where "match_token RBracket q = Inr q'" "ahead q' ts"
    using ahead_match_token calculation(2) by blast
  ultimately show ?case using ahead_current [OF a] by (simp add: parse_data_type.simps [of p])
qed (simp, drule builtin_type_tokens, simp add: named_type_def)+

lemma parse_field_tokens:
  assumes "ahead p (field_tokens f @ ts)" "wf_field f"
  shows "\<exists>q. parse_field p = Inr (f, q) \<and> ahead q ts"
proof -
  let ?p = "if fd_is_indexed f then advance p else p"
  have c: "(current p = Some AtIndexed) = fd_is_indexed f"
    using assms(1) ahead_current [of p] by (cases "fd_is_indexed f") (auto simp: field_tokens_def)
  have "ahead ?p (Identifier (fd_name f) # Colon # type_tokens (fd_data_type f) @ ts)"
    using assms(1) ahead_advance [of p AtIndexed] by (cases "fd_is_indexed f") (auto simp: field_tokens_def)
  then obtain p1 where p1: "expect_identifier ?p = Inr (fd_name f, p1)"
    "ahead p1 (Colon # type_tokens (fd_data_type f) @ ts)"
    using ahead_expect_identifier by blast
  then obtain p2 where p2: "match_token Colon p1 = Inr p2" "ahead p2 (type_tokens (fd_data_type f) @ ts)"
    using ahead_match_token by blast
  then obtain p3 where "parse_data_type p2 = Inr (fd_data_type f, p3)" "ahead p3 ts"
    using parse_data_type_tokens assms(2) unfolding wf_field_def by blast
  then show ?thesis using p1(1) p2(1) by (simp add: parse_field_def c Let_def)
qed

text \<open>The tokens of an item never start with the closing brace, and one of the two separators follows.\<close>

lemma separated_Cons: "separated (x # xs) = x @ (if xs = [] then [] else Comma # separated xs)"
  by (cases xs) auto

lemma field_tokens_hd: "ahead p (field_tokens f @ ts) \<Longrightarrow> current p \<noteq> Some RBrace"
  by (cases "fd_is_indexed f") (auto simp: field_tokens_def dest: ahead_current)

lemma ahead_separator:
  assumes "ahead p ((if xs = [] then [] else Comma # separated xs) @ RBrace # ts)"
  shows "\<exists>q. parse_separator p = Inr q \<and> ahead q (separated xs @ RBrace # ts)"
  using assms ahead_advance [of p Comma "separated xs @ RBrace # ts"] ahead_current [of p RBrace ts]
  by (cases "xs = []") (simp_all add: parse_separator_def)

lemma parse_fields_tokens:
  "ahead p (separated (map field_tokens fs) @ RBrace # ts) \<Longrightarrow> list_all wf_field fs \<Longrightarrow>
   \<exists>q. parse_fields p = Inr (fs, q) \<and> ahead q (RBrace # ts)"
proof (induction fs arbitrary: p)
  case Nil
  then show ?case using ahead_current [of p RBrace ts] by (simp add: parse_fields.simps [of p])
next
  case (Cons f fs)
  let ?sep = "(if map field_tokens fs = [] then [] else Comma # separated (map field_tokens fs)) @ RBrace # ts"
  have a: "ahead p (field_tokens f @ ?sep)" using Cons.prems(1) by (simp add: separated_Cons)
  then obtain p1 where p1: "parse_field p = Inr (f, p1)" "ahead p1 ?sep"
    using parse_field_tokens [OF a] Cons.prems(2) by auto
  then obtain p2 where p2: "parse_separator p1 = Inr p2"
    "ahead p2 (separated (map field_tokens fs) @ RBrace # ts)"
    using ahead_separator by blast
  then obtain q where "parse_fields p2 = Inr (fs, q)" "ahead q (RBrace # ts)"
    using Cons.IH [OF p2(2)] Cons.prems(2) by auto
  then show ?case using p1(1) p2(1) field_tokens_hd [OF a] by (simp add: parse_fields.simps [of p])
qed

lemma parse_variants_tokens:
  "ahead p (separated (map (\<lambda>v. [Identifier v]) vs) @ RBrace # ts) \<Longrightarrow>
   \<exists>q. parse_variants p = Inr (vs, q) \<and> ahead q (RBrace # ts)"
proof (induction vs arbitrary: p)
  case Nil
  then show ?case using ahead_current [of p RBrace ts] by (simp add: parse_variants.simps [of p])
next
  case (Cons v vs)
  let ?xs = "map (\<lambda>v. [Identifier v]) vs"
  let ?sep = "(if ?xs = [] then [] else Comma # separated ?xs) @ RBrace # ts"
  have a: "ahead p (Identifier v # ?sep)" using Cons.prems(1) by (simp add: separated_Cons)
  then obtain p1 where p1: "expect_identifier p = Inr (v, p1)" "ahead p1 ?sep"
    using ahead_expect_identifier by blast
  then obtain p2 where p2: "parse_separator p1 = Inr p2" "ahead p2 (separated ?xs @ RBrace # ts)"
    using ahead_separator by blast
  then obtain q where "parse_variants p2 = Inr (vs, q)" "ahead q (RBrace # ts)"
    using Cons.IH [OF p2(2)] by blast
  then show ?case using p1(1) p2(1) ahead_current [OF a] by (simp add: parse_variants.simps [of p])
qed

lemma parse_prefix_tokens:
  assumes "ahead p ((case pre of None \<Rightarrow> [] | Some s \<Rightarrow> [AtPrefix, LParen, StringLiteral s, RParen]) @
                    Keyword k # ts)"
  shows "\<exists>q. parse_prefix p = Inr (pre, q) \<and> ahead q (Keyword k # ts)"
proof (cases pre)
  case None
  then show ?thesis using assms ahead_current [of p "Keyword k" ts] by (simp add: parse_prefix_def)
next
  case (Some s)
  then have a: "ahead p (AtPrefix # LParen # StringLiteral s # RParen # Keyword k # ts)"
    using assms by simp
  obtain p1 where p1: "match_token LParen (advance p) = Inr p1"
    "ahead p1 (StringLiteral s # RParen # Keyword k # ts)"
    using ahead_advance [OF a] ahead_match_token by blast
  then have "prefix_literal p1 = Inr (s, advance p1)" "ahead (advance p1) (RParen # Keyword k # ts)"
    using ahead_advance [OF p1(2)] by (simp_all add: prefix_literal_def)
  then show ?thesis
    using Some p1(1) ahead_current [OF a] ahead_match_token [of "advance p1" RParen "Keyword k # ts"]
    by (auto simp: parse_prefix_def)
qed

lemma parse_node_tokens:
  assumes "ahead p (node_tokens n @ ts)" "wf_node n"
  shows "\<exists>q. parse_node p = Inr (n, q) \<and> ahead q ts"
proof (cases n)
  case (TypeNode t)
  let ?fs = "separated (map field_tokens (td_fields t)) @ RBrace # ts"
  obtain p0 where p0: "parse_prefix p = Inr (td_prefix t, p0)"
    "ahead p0 (Keyword ''type'' # Identifier (td_name t) # LBrace # ?fs)"
    using parse_prefix_tokens [of p "td_prefix t" "''type''" "Identifier (td_name t) # LBrace # ?fs"]
      assms(1) TypeNode by auto
  obtain p1 where p1: "expect_identifier (advance p0) = Inr (td_name t, p1)" "ahead p1 (LBrace # ?fs)"
    using ahead_advance [OF p0(2)] ahead_expect_identifier by blast
  obtain p2 where p2: "match_token LBrace p1 = Inr p2" "ahead p2 ?fs"
    using ahead_match_token [OF p1(2)] by blast
  obtain p3 where p3: "parse_fields p2 = Inr (td_fields t, p3)" "ahead p3 (RBrace # ts)"
    using parse_fields_tokens [OF p2(2)] assms(2) TypeNode by auto
  obtain q where "match_token RBrace p3 = Inr q" "ahead q ts" using ahead_match_token [OF p3(2)] by blast
  then show ?thesis
    using p0(1) p1(1) p2(1) p3(1) ahead_current [OF p0(2)] TypeNode by (simp add: parse_node_def)
next
  case (EnumNode e)
  let ?vs = "separated (map (\<lambda>v. [Identifier v]) (ed_variants e)) @ RBrace # ts"
  obtain p0 where p0: "parse_prefix p = Inr (None, p0)"
    "ahead p0 (Keyword ''enum'' # Identifier (ed_name e) # LBrace # ?vs)"
    using parse_prefix_tokens [of p None "''enum''" "Identifier (ed_name e) # LBrace # ?vs"]
      assms(1) EnumNode by auto
  obtain p1 where p1: "expect_identifier (advance p0) = Inr (ed_name e, p1)" "ahead p1 (LBrace # ?vs)"
    using ahead_advance [OF p0(2)] ahead_expect_identifier by blast
  obtain p2 where p2: "match_token LBrace p1 = Inr p2" "ahead p2 ?vs"
    using ahead_match_token [OF p1(2)] by blast
  obtain p3 where p3: "parse_variants p2 = Inr (ed_variants e, p3)" "ahead p3 (RBrace # ts)"
    using parse_variants_tokens [OF p2(2)] by blast
  obtain q where "match_token RBrace p3 = Inr q" "ahead q ts" using ahead_match_token [OF p3(2)] by blast
  then show ?thesis
    using p0(1) p1(1) p2(1) p3(1) ahead_current [OF p0(2)] EnumNode by (simp add: parse_node_def)
qed

lemma node_tokens_start: "ahead p (node_tokens n @ ts) \<Longrightarrow> current p \<noteq> None"
  by (cases n) (auto split: option.splits dest: ahead_current)

lemma parse_tokens:
  "ahead p (concat (map node_tokens ns)) \<Longrightarrow> list_all wf_node ns \<Longrightarrow> parse p = Inr ns"
proof (induction ns arbitrary: p)
  case Nil
  then show ?case by (simp add: parse.simps [of p] ahead_Nil)
next
  case (Cons n ns)
  then have a: "ahead p (node_tokens n @ concat (map node_tokens ns))" by simp
  then obtain q where "parse_node p = Inr (n, q)" "ahead q (concat (map node_tokens ns))"
    using parse_node_tokens [OF a] Cons.prems(2) by auto
  then show ?case
    using Cons.IH [of q] Cons.prems(2) node_tokens_start [OF a] by (simp add: parse.simps [of p])
qed

lemma wf_builtin: "list_all wf_token (map Identifier [''String'', ''U16'', ''U32'', ''U64'', ''I32'', ''I64'', ''F64'', ''Boolean''])"
  by (simp add: is_word_def ident_char_def char_class_defs)

lemma wf_type_tokens: "wf_type d \<Longrightarrow> list_all wf_token (type_tokens d)"
  using wf_builtin by (induction d) (auto simp: is_name_def)

lemma wf_separated: "list_all (list_all wf_token) tss \<Longrightarrow> list_all wf_token (separated tss)"
  by (induction tss rule: separated.induct) auto

lemma wf_node_tokens: "wf_node n \<Longrightarrow> list_all wf_token (node_tokens n)"
proof (cases n)
  case (TypeNode t)
  assume "wf_node n"
  moreover from this have "list_all wf_token (separated (map field_tokens (td_fields t)))"
    using TypeNode wf_type_tokens
    by (intro wf_separated) (auto simp: list_all_iff wf_field_def is_name_def field_tokens_def)
  ultimately show ?thesis using TypeNode by (auto simp: is_name_def split: option.splits)
next
  case (EnumNode e)
  assume "wf_node n"
  moreover from this have "list_all wf_token (separated (map (\<lambda>v. [Identifier v]) (ed_variants e)))"
    using EnumNode by (intro wf_separated) (auto simp: list_all_iff is_name_def)
  ultimately show ?thesis using EnumNode by (auto simp: is_name_def)
qed

lemma parse_printed: "list_all wf_node ns \<Longrightarrow> parse_schema (schema_text ns) = Inr ns"
proof -
  assume wf: "list_all wf_node ns"
  have "list_all wf_token (concat (map node_tokens ns))"
    using wf by (induction ns) (simp_all add: wf_node_tokens)
  from ahead_parser_new [OF lexes_text [OF this]] show ?thesis
    unfolding parse_schema_def schema_text_def using wf by (rule parse_tokens)
qed

section \<open>Properties\<close>

text \<open>
  C16: The schema parser reads every schema back from its text: the text of any list of types and
  enums with legal names, fields, nested array types, index annotations and prefixes parses to
  exactly that list, with no error.
\<close>

theorem parse_schema_text:
  assumes "list_all wf_node ns"
  shows "parse_schema (schema_text ns) = Inr ns"
  using assms by (rule parse_printed)

text \<open>The shape of the schema.ksl of the repository: a type with an indexed field and a prefix, an enum.\<close>

definition sample_schema :: "schema_node list" where
  "sample_schema =
     [TypeNode \<lparr>td_name = ''User'',
        td_fields = [\<lparr>fd_name = ''name'', fd_data_type = StringT, fd_is_indexed = True\<rparr>,
                     \<lparr>fd_name = ''roles'', fd_data_type = Array (Custom ''Role''), fd_is_indexed = False\<rparr>],
        td_prefix = Some ''user''\<rparr>,
      EnumNode \<lparr>ed_name = ''Role'', ed_variants = [''Admin'', ''Guest'']\<rparr>]"

lemma wf_sample_schema: "list_all wf_node sample_schema"
  by (simp add: sample_schema_def wf_field_def is_name_def is_word_def ident_char_def char_class_defs
      named_type_def quote_def)

theorem parse_schema_text_witness: "parse_schema (schema_text sample_schema) = Inr sample_schema"
  by (rule parse_schema_text [OF wf_sample_schema])

text \<open>
  C40: The lexer and the parser end on every input, and tokens cannot be invented: each call of
  \<open>next_token\<close> that yields a token consumes at least one character, it yields none only when
  the whole input is used up, and every node the parser returns has consumed input.
\<close>

theorem lexer_parser_progress:
  "(\<forall>inp t rest. next_token inp = (Some t, rest) \<longrightarrow> length rest < length inp) \<and>
   (\<forall>inp rest. next_token inp = (None, rest) \<longrightarrow> rest = []) \<and>
   (\<forall>p n q. parse_node p = Inr (n, q) \<longrightarrow> psize q < psize p)"
  using next_token_consumes next_token_None psize_parse_node by blast

theorem lexer_parser_progress_witness:
  "next_token ''{ x'' = (Some LBrace, '' x'') \<and> length '' x'' < length ''{ x''"
proof -
  have "next_token ''{ x'' = (Some LBrace, '' x'')"
    by (simp add: next_token.simps [of "''{ x''"] scan_def skip_whitespace_def char_class_defs)
  then show ?thesis using lexer_parser_progress by blast
qed

end
