(* ===== verification/Json.thy ===== *)
theory Json
  imports Prelude
begin

text \<open>
  JSON values as \<open>serde_json::Value\<close> documents them, and the functions of the crate and of
  floating-point arithmetic that the program calls. They are not part of the repository, so
  they are parameters: a record that every function using them takes. A number is opaque; an
  object is the list of its fields, looked up by \<open>map_of\<close>.
\<close>

datatype 'n json =
  JNull | JBool bool | JNumber 'n | JString str | JArray "'n json list" | JObject "(str \<times> 'n json) list"

text \<open>
  \<open>from_slice\<close> parses bytes; \<open>num_to_string\<close>, \<open>num_is_i64\<close>, \<open>num_is_u64\<close>, \<open>num_is_f64\<close> and \<open>num_as_f64\<close>
  are the methods of \<open>Number\<close>; \<open>parse_f64\<close> is \<open>str::parse::<f64>\<close>; \<open>f64_near a b\<close> is
  \<open>(a - b).abs() < f64::EPSILON\<close>. A float is its bit pattern.
\<close>

record 'n serde =
  from_slice :: "bytes \<Rightarrow> 'n json option"
  num_to_string :: "'n \<Rightarrow> str"
  num_is_i64 :: "'n \<Rightarrow> bool"
  num_is_u64 :: "'n \<Rightarrow> bool"
  num_is_f64 :: "'n \<Rightarrow> bool"
  num_as_f64 :: "'n \<Rightarrow> u64 option"
  parse_f64 :: "str \<Rightarrow> u64 option"
  f64_near :: "u64 \<Rightarrow> u64 \<Rightarrow> bool"

fun as_object :: "'n json \<Rightarrow> (str \<times> 'n json) list option" where
  "as_object (JObject obj) = Some obj"
| "as_object _ = None"

fun as_array :: "'n json \<Rightarrow> 'n json list option" where
  "as_array (JArray vs) = Some vs"
| "as_array _ = None"

fun as_str :: "'n json \<Rightarrow> str option" where
  "as_str (JString s) = Some s"
| "as_str _ = None"

fun is_boolean :: "'n json \<Rightarrow> bool" where
  "is_boolean (JBool _) = True"
| "is_boolean _ = False"

fun is_number_with :: "('n \<Rightarrow> bool) \<Rightarrow> 'n json \<Rightarrow> bool" where
  "is_number_with p (JNumber n) = p n"
| "is_number_with p _ = False"

lemma as_object_Some: "as_object v = Some obj \<longleftrightarrow> v = JObject obj"
  by (cases v) auto

lemma as_array_Some: "as_array v = Some vs \<longleftrightarrow> v = JArray vs"
  by (cases v) auto

lemma as_str_Some: "as_str v = Some s \<longleftrightarrow> v = JString s"
  by (cases v) auto

lemma size_json_field: "map_of obj k = Some v \<Longrightarrow> size v < size (JObject obj)"
proof -
  assume "map_of obj k = Some v"
  then have "(k, v) \<in> set obj" by (rule map_of_SomeD)
  then have "size_prod (\<lambda>_. 0) size (k, v) < Suc (size_list (size_prod (\<lambda>_. 0) size) obj)"
    by (metis less_Suc_eq_le size_list_estimation' order_refl)
  then show ?thesis by simp
qed

lemma size_json_item: "v \<in> set vs \<Longrightarrow> size v < size (JArray vs)"
  by (simp add: less_Suc_eq_le size_list_estimation')

end
