(* ===== verification/Schema_Registry.thy ===== *)
theory Schema_Registry
  imports Ksl_Grammar Json
begin

text \<open>
  The schema registry of src/schema/registry.rs: the types, enums and key prefixes a schema
  declares, loading a schema text into it, and checking a JSON value against a type.
\<close>

section \<open>State\<close>

record registry =
  reg_types :: "(str, type_definition) fmap"
  reg_enums :: "(str, enum_definition) fmap"
  reg_prefix_map :: "(str, str) fmap"

definition registry_new :: registry where
  "registry_new = \<lparr>reg_types = fmempty, reg_enums = fmempty, reg_prefix_map = fmempty\<rparr>"

datatype validation_error =
  TypeNotFound str
| FieldMissing str
| InvalidType (it_field: str) (it_expected: str)
| InvalidEnumVariant (iv_field: str) (iv_variant: str)

text \<open>\<open>impl Display for ValidationError\<close>.\<close>

fun display_error :: "validation_error \<Rightarrow> str" where
  "display_error (TypeNotFound t) = ''Type not found: '' @ t"
| "display_error (FieldMissing f) = ''Missing required field: '' @ f"
| "display_error (InvalidType f e) =
     ''Invalid type for field '' @ apostrophe # f @ apostrophe # '', expected '' @ e"
| "display_error (InvalidEnumVariant f v) =
     ''Invalid enum variant '' @ apostrophe # v @ apostrophe # '' for field '' @ apostrophe # f @ [apostrophe]"

section \<open>Loading a schema\<close>

fun load_node :: "schema_node \<Rightarrow> registry \<Rightarrow> registry" where
  "load_node (TypeNode t) reg =
     (let pre = (case td_prefix t of Some p \<Rightarrow> p | None \<Rightarrow> to_lowercase (td_name t));
          reg1 = reg\<lparr>reg_prefix_map := fmupd pre (td_name t) (reg_prefix_map reg)\<rparr>
      in reg1\<lparr>reg_types := fmupd (td_name t) t (reg_types reg1)\<rparr>)"
| "load_node (EnumNode e) reg = reg\<lparr>reg_enums := fmupd (ed_name e) e (reg_enums reg)\<rparr>"

definition load_nodes :: "schema_node list \<Rightarrow> registry \<Rightarrow> registry" where
  "load_nodes ns reg = fold load_node ns reg"

definition load_schema :: "str \<Rightarrow> registry \<Rightarrow> (str + unit) \<times> registry" where
  "load_schema sdl reg =
     (case parse_schema sdl of
        Inl e \<Rightarrow> (Inl e, reg)
      | Inr nodes \<Rightarrow> (Inr (), load_nodes nodes reg))"

definition indexed_fields_for_prefix :: "registry \<Rightarrow> str \<Rightarrow> field_definition list option" where
  "indexed_fields_for_prefix reg pre = do {
     type_name \<leftarrow> fmlookup (reg_prefix_map reg) pre;
     t_def \<leftarrow> fmlookup (reg_types reg) type_name;
     let indexed = filter fd_is_indexed (td_fields t_def);
     if indexed = [] then None else Some indexed
   }"

section \<open>Validation\<close>

text \<open>
  \<open>validate\<close> and \<open>validate_field\<close>, with the two loops of the code as functions of their own: over
  the fields of a type and over the items of an array. The recursion through a custom type
  keeps the value, the other calls go to a part of it, so it ends.
\<close>

function validate :: "('n, 'z) serde_scheme \<Rightarrow> registry \<Rightarrow> str \<Rightarrow> 'n json \<Rightarrow> validation_error + unit"
  and validate_fields ::
    "('n, 'z) serde_scheme \<Rightarrow> registry \<Rightarrow> field_definition list \<Rightarrow> (str \<times> 'n json) list \<Rightarrow> validation_error + unit"
  and validate_field :: "('n, 'z) serde_scheme \<Rightarrow> registry \<Rightarrow> str \<Rightarrow> data_type \<Rightarrow> 'n json \<Rightarrow> validation_error + unit"
  and validate_items ::
    "('n, 'z) serde_scheme \<Rightarrow> registry \<Rightarrow> str \<Rightarrow> data_type \<Rightarrow> nat \<Rightarrow> 'n json list \<Rightarrow> validation_error + unit" where
  "validate x reg type_name data =
     (case fmlookup (reg_types reg) type_name of
        None \<Rightarrow> Inl (TypeNotFound type_name)
      | Some t_def \<Rightarrow>
          (case as_object data of
             None \<Rightarrow> Inl (InvalidType ''root'' ''Object'')
           | Some obj \<Rightarrow> validate_fields x reg (td_fields t_def) obj))"
| "validate_fields x reg [] obj = Inr ()"
| "validate_fields x reg (f # fs) obj =
     (case map_of obj (fd_name f) of
        None \<Rightarrow> Inl (FieldMissing (fd_name f))
      | Some val \<Rightarrow>
          (case validate_field x reg (fd_name f) (fd_data_type f) val of
             Inl e \<Rightarrow> Inl e
           | Inr _ \<Rightarrow> validate_fields x reg fs obj))"
| "validate_field x reg field_name data_type val =
     (case data_type of
        StringT \<Rightarrow> if as_str val = None then Inl (InvalidType field_name ''String'') else Inr ()
      | F64 \<Rightarrow>
          if \<not> is_number_with (num_is_f64 x) val \<and> \<not> is_number_with (num_is_i64 x) val \<and>
             \<not> is_number_with (num_is_u64 x) val
          then Inl (InvalidType field_name ''Float'') else Inr ()
      | Boolean \<Rightarrow> if \<not> is_boolean val then Inl (InvalidType field_name ''Boolean'') else Inr ()
      | Custom custom_type \<Rightarrow>
          (case fmlookup (reg_enums reg) custom_type of
             Some enum_def \<Rightarrow>
               (case as_str val of
                  Some s \<Rightarrow>
                    if s \<notin> set (ed_variants enum_def) then Inl (InvalidEnumVariant field_name s) else Inr ()
                | None \<Rightarrow> Inl (InvalidType field_name ''String (Enum Variant)''))
           | None \<Rightarrow>
               (case fmlookup (reg_types reg) custom_type of
                  Some _ \<Rightarrow> validate x reg custom_type val
                | None \<Rightarrow> Inl (TypeNotFound custom_type)))
      | Array inner_type \<Rightarrow>
          (case as_array val of
             Some arr \<Rightarrow> validate_items x reg field_name inner_type 0 arr
           | None \<Rightarrow> Inl (InvalidType field_name ''Array''))
      | _ \<Rightarrow>
          if \<not> is_number_with (num_is_i64 x) val \<and> \<not> is_number_with (num_is_u64 x) val
          then Inl (InvalidType field_name ''Integer'') else Inr ())"
| "validate_items x reg field_name inner_type i [] = Inr ()"
| "validate_items x reg field_name inner_type i (item # items) =
     (case validate_field x reg (field_name @ ''['' @ show_nat i @ '']'') inner_type item of
        Inl e \<Rightarrow> Inl e
      | Inr _ \<Rightarrow> validate_items x reg field_name inner_type (i + 1) items)"
  by pat_completeness auto
termination
  by (relation "measures
      [\<lambda>a. case a of
         Inl (Inl (x, reg, tn, data)) \<Rightarrow> size data
       | Inl (Inr (x, reg, fs, obj)) \<Rightarrow> size (JObject obj)
       | Inr (Inl (x, reg, fname, dt, val)) \<Rightarrow> size val
       | Inr (Inr (x, reg, fname, dt, i, items)) \<Rightarrow> size (JArray items),
       \<lambda>a. case a of
         Inl (Inl _) \<Rightarrow> 1 | Inl (Inr _) \<Rightarrow> 0 | Inr (Inl _) \<Rightarrow> 2 | Inr (Inr _) \<Rightarrow> 0,
       \<lambda>a. case a of
         Inl (Inr (x, reg, fs, obj)) \<Rightarrow> length fs
       | Inr (Inr (x, reg, fname, dt, i, items)) \<Rightarrow> length items
       | _ \<Rightarrow> 0]")
    (auto simp: as_object_Some as_array_Some dest: size_json_field)

declare validate.simps [simp del] validate_field.simps [simp del]

section \<open>What validation means\<close>

text \<open>
  The reading of a data type as a set of JSON values, without order of checks or errors: an
  enum name shadows a type name, and an object conforms to a type when every declared field
  is there and conforms; other fields are not looked at. Which numbers a numeric type has is a
  parameter.
\<close>

inductive conforms :: "(data_type \<Rightarrow> 'n \<Rightarrow> bool) \<Rightarrow> registry \<Rightarrow> data_type \<Rightarrow> 'n json \<Rightarrow> bool" for num reg where
  conforms_string: "conforms num reg StringT (JString s)"
| conforms_number: "d \<in> {U16, U32, U64, I32, I64, F64} \<Longrightarrow> num d n \<Longrightarrow> conforms num reg d (JNumber n)"
| conforms_boolean: "conforms num reg Boolean (JBool b)"
| conforms_enum: "fmlookup (reg_enums reg) c = Some e \<Longrightarrow> s \<in> set (ed_variants e) \<Longrightarrow>
    conforms num reg (Custom c) (JString s)"
| conforms_type: "fmlookup (reg_enums reg) c = None \<Longrightarrow> fmlookup (reg_types reg) c = Some t \<Longrightarrow>
    (\<forall>f \<in> set (td_fields t). \<exists>v. map_of obj (fd_name f) = Some v \<and> conforms num reg (fd_data_type f) v) \<Longrightarrow>
    conforms num reg (Custom c) (JObject obj)"
| conforms_array: "(\<forall>v \<in> set vs. conforms num reg d v) \<Longrightarrow> conforms num reg (Array d) (JArray vs)"

inductive_simps conforms_simps:
  "conforms num reg StringT v"
  "conforms num reg U16 v"
  "conforms num reg U32 v"
  "conforms num reg U64 v"
  "conforms num reg I32 v"
  "conforms num reg I64 v"
  "conforms num reg F64 v"
  "conforms num reg Boolean v"
  "conforms num reg (Custom c) v"
  "conforms num reg (Array d) v"

definition conforms_fields ::
  "(data_type \<Rightarrow> 'n \<Rightarrow> bool) \<Rightarrow> registry \<Rightarrow> field_definition list \<Rightarrow> (str \<times> 'n json) list \<Rightarrow> bool" where
  "conforms_fields num reg fs obj \<longleftrightarrow>
     (\<forall>f \<in> set fs. \<exists>v. map_of obj (fd_name f) = Some v \<and> conforms num reg (fd_data_type f) v)"

text \<open>The numbers that \<open>validate_field\<close> lets pass.\<close>

definition passes_number :: "('n, 'z) serde_scheme \<Rightarrow> data_type \<Rightarrow> 'n \<Rightarrow> bool" where
  "passes_number x d n \<longleftrightarrow> num_is_i64 x n \<or> num_is_u64 x n \<or> d = F64 \<and> num_is_f64 x n"

lemma is_number_with_iff: "is_number_with p v \<longleftrightarrow> (\<exists>n. v = JNumber n \<and> p n)"
  by (cases v) auto

lemma is_boolean_iff: "is_boolean v \<longleftrightarrow> (\<exists>b. v = JBool b)"
  by (cases v) auto

lemma as_str_None: "as_str v = None \<longleftrightarrow> (\<forall>s. v \<noteq> JString s)"
  by (cases v) auto

lemma as_object_None: "as_object v = None \<longleftrightarrow> (\<forall>obj. v \<noteq> JObject obj)"
  by (cases v) auto

lemma as_array_None: "as_array v = None \<longleftrightarrow> (\<forall>vs. v \<noteq> JArray vs)"
  by (cases v) auto

lemmas json_iffs = is_number_with_iff is_boolean_iff as_str_None as_object_None as_array_None
  as_str_Some as_object_Some as_array_Some

lemma validate_iff:
  "validate x reg tn data = Inr () \<longleftrightarrow>
     (\<exists>t obj. fmlookup (reg_types reg) tn = Some t \<and> data = JObject obj \<and>
              conforms_fields (passes_number x) reg (td_fields t) obj)"
  "validate_fields x reg fs obj = Inr () \<longleftrightarrow> conforms_fields (passes_number x) reg fs obj"
  "validate_field x reg fname dt val = Inr () \<longleftrightarrow> conforms (passes_number x) reg dt val"
  "validate_items x reg fname dt i items = Inr () \<longleftrightarrow> (\<forall>v \<in> set items. conforms (passes_number x) reg dt v)"
proof (induction x reg tn data and x reg fs obj and x reg fname dt val and x reg fname dt i items
    rule: validate_validate_fields_validate_field_validate_items.induct)
  case (1 x reg tn data)
  then show ?case
    by (auto simp: validate.simps [of x reg tn data] json_iffs split: option.splits)
next
  case (2 x reg obj)
  then show ?case by (simp add: conforms_fields_def)
next
  case (3 x reg f fs obj)
  then show ?case by (auto simp: conforms_fields_def split: option.splits sum.splits)
next
  case (4 x reg fname dt val)
  show ?case
  proof (cases dt)
    case (Custom c)
    show ?thesis
    proof (cases "fmlookup (reg_enums reg) c")
      case None
      then show ?thesis using 4 Custom
        by (auto simp: validate_field.simps [of x reg fname] conforms_simps conforms_fields_def
            split: option.splits)
    next
      case (Some e)
      then show ?thesis using Custom
        by (auto simp: validate_field.simps [of x reg fname] conforms_simps json_iffs
            split: option.splits)
    qed
  next
    case (Array d)
    then show ?thesis using 4
      by (auto simp: validate_field.simps [of x reg fname] conforms_simps json_iffs
          split: option.splits)
  qed (auto simp: validate_field.simps [of x reg fname] conforms_simps json_iffs passes_number_def)
next
  case (5 x reg fname dt i)
  then show ?case by simp
next
  case (6 x reg fname dt i item items)
  then show ?case by (auto split: sum.splits)
qed

section \<open>Numbers and their types\<close>

text \<open>The integers of each type, and the reading of a number as an integer, if it is one.\<close>

fun int_range :: "data_type \<Rightarrow> int set" where
  "int_range U16 = {0..<2 ^ 16}"
| "int_range U32 = {0..<2 ^ 32}"
| "int_range U64 = {0..<2 ^ 64}"
| "int_range I32 = {- (2 ^ 31)..<2 ^ 31}"
| "int_range I64 = {- (2 ^ 63)..<2 ^ 63}"
| "int_range _ = {}"

definition of_type :: "('n \<Rightarrow> int option) \<Rightarrow> data_type \<Rightarrow> 'n \<Rightarrow> bool" where
  "of_type int_of d n \<longleftrightarrow> d = F64 \<or> (\<exists>i. int_of n = Some i \<and> i \<in> int_range d)"

definition any_integer :: "('n \<Rightarrow> int option) \<Rightarrow> data_type \<Rightarrow> 'n \<Rightarrow> bool" where
  "any_integer int_of d n \<longleftrightarrow> d = F64 \<or> (\<exists>i. int_of n = Some i \<and> - (2 ^ 63) \<le> i \<and> i < 2 ^ 64)"

text \<open>
  What \<open>serde_json\<close> documents of its numbers: \<open>is_i64\<close> and \<open>is_u64\<close> tell whether a number is an
  integer of that type, and a number that is neither is a float.
\<close>

definition numbers_ok :: "('n, 'z) serde_scheme \<Rightarrow> ('n \<Rightarrow> int option) \<Rightarrow> bool" where
  "numbers_ok x int_of \<longleftrightarrow>
     (\<forall>n. (num_is_i64 x n \<longleftrightarrow> (\<exists>i. int_of n = Some i \<and> i \<in> int_range I64)) \<and>
          (num_is_u64 x n \<longleftrightarrow> (\<exists>i. int_of n = Some i \<and> i \<in> int_range U64)) \<and>
          (num_is_i64 x n \<or> num_is_u64 x n \<or> num_is_f64 x n))"

text \<open>A value with an integer that its declared type does not have.\<close>

inductive overflows :: "('n \<Rightarrow> int option) \<Rightarrow> registry \<Rightarrow> data_type \<Rightarrow> 'n json \<Rightarrow> bool" for int_of reg where
  overflows_here: "d \<in> {U16, U32, U64, I32, I64} \<Longrightarrow> int_of n = Some i \<Longrightarrow> i \<notin> int_range d \<Longrightarrow>
    overflows int_of reg d (JNumber n)"
| overflows_field: "fmlookup (reg_enums reg) c = None \<Longrightarrow> fmlookup (reg_types reg) c = Some t \<Longrightarrow> f \<in> set (td_fields t) \<Longrightarrow>
    map_of obj (fd_name f) = Some v \<Longrightarrow> overflows int_of reg (fd_data_type f) v \<Longrightarrow> overflows int_of reg (Custom c) (JObject obj)"
| overflows_item: "v \<in> set vs \<Longrightarrow> overflows int_of reg d v \<Longrightarrow> overflows int_of reg (Array d) (JArray vs)"

lemma conforms_mono:
  assumes "\<And>d n. d \<in> {U16, U32, U64, I32, I64, F64} \<Longrightarrow> num d n \<Longrightarrow> num' d n"
  shows "conforms num reg d v \<Longrightarrow> conforms num' reg d v"
proof (induction rule: conforms.induct)
  case (conforms_number d n)
  then show ?case using assms by (blast intro: conforms.conforms_number)
next
  case (conforms_type c t obj)
  then show ?case by (intro conforms.conforms_type) blast+
qed (auto intro: conforms.intros)

lemma in_range_or_overflows: "conforms (any_integer int_of) reg d v \<Longrightarrow> conforms (of_type int_of) reg d v \<or> overflows int_of reg d v"
proof (induction rule: conforms.induct)
  case (conforms_number d n)
  show ?case
  proof (cases "of_type int_of d n")
    case True
    show ?thesis by (rule disjI1, rule conforms.conforms_number [where num = "of_type int_of"]) (use conforms_number(1) True in simp_all)
  next
    case False
    then show ?thesis using conforms_number by (auto simp: of_type_def any_integer_def intro: overflows_here)
  qed
next
  case (conforms_type c t obj)
  show ?case
  proof (cases "\<exists>f \<in> set (td_fields t). \<exists>v. map_of obj (fd_name f) = Some v \<and> overflows int_of reg (fd_data_type f) v")
    case True
    then show ?thesis using overflows_field [OF conforms_type(1,2)] by blast
  next
    case False
    then show ?thesis using conforms.conforms_type [OF conforms_type(1,2)] conforms_type(3) by blast
  qed
next
  case (conforms_array vs d)
  then show ?case by (metis conforms.conforms_array overflows_item)
qed (auto intro: conforms.intros)

lemma passes_any_integer:
  "numbers_ok x int_of \<Longrightarrow> conforms (passes_number x) reg d v \<longleftrightarrow> conforms (any_integer int_of) reg d v"
proof -
  assume "numbers_ok x int_of"
  then have "passes_number x d n \<longleftrightarrow> any_integer int_of d n" if "d \<in> {U16, U32, U64, I32, I64, F64}" for d n
    by (fastforce simp: numbers_ok_def passes_number_def any_integer_def)
  then show ?thesis by (blast intro: conforms_mono)
qed

lemma of_type_any_integer: "conforms (of_type int_of) reg d v \<Longrightarrow> conforms (any_integer int_of) reg d v"
  by (erule conforms_mono [rotated]) (auto simp: of_type_def any_integer_def)

definition well_typed :: "('n \<Rightarrow> int option) \<Rightarrow> registry \<Rightarrow> str \<Rightarrow> 'n json \<Rightarrow> bool" where
  "well_typed int_of reg type_name data \<longleftrightarrow>
     (\<exists>t obj. fmlookup (reg_types reg) type_name = Some t \<and> data = JObject obj \<and>
        conforms_fields (of_type int_of) reg (td_fields t) obj)"

section \<open>What loading a schema establishes\<close>

text \<open>Every prefix of the registry leads to a type that is declared under its own name.\<close>

definition registry_ok :: "registry \<Rightarrow> bool" where
  "registry_ok reg \<longleftrightarrow>
     (\<forall>n t. fmlookup (reg_types reg) n = Some t \<longrightarrow> td_name t = n) \<and>
     (\<forall>n e. fmlookup (reg_enums reg) n = Some e \<longrightarrow> ed_name e = n) \<and>
     (\<forall>p n. fmlookup (reg_prefix_map reg) p = Some n \<longrightarrow> fmlookup (reg_types reg) n \<noteq> None)"

lemma registry_new_ok: "registry_ok registry_new"
  by (simp add: registry_ok_def registry_new_def)

lemma load_node_ok: "registry_ok reg \<Longrightarrow> registry_ok (load_node n reg)"
  by (cases n) (auto simp: registry_ok_def Let_def)

lemma load_nodes_ok: "registry_ok reg \<Longrightarrow> registry_ok (load_nodes ns reg)"
  unfolding load_nodes_def by (induction ns arbitrary: reg) (auto simp: load_node_ok)

lemma load_schema_ok: "registry_ok reg \<Longrightarrow> registry_ok (snd (load_schema sdl reg))"
  by (simp add: load_schema_def load_nodes_ok split: sum.split)

text \<open>The last declaration of a name wins.\<close>

fun declared_types :: "schema_node list \<Rightarrow> (str \<times> type_definition) list" where
  "declared_types [] = []"
| "declared_types (TypeNode t # ns) = declared_types ns @ [(td_name t, t)]"
| "declared_types (EnumNode e # ns) = declared_types ns"

fun declared_enums :: "schema_node list \<Rightarrow> (str \<times> enum_definition) list" where
  "declared_enums [] = []"
| "declared_enums (TypeNode t # ns) = declared_enums ns"
| "declared_enums (EnumNode e # ns) = declared_enums ns @ [(ed_name e, e)]"

lemma load_nodes_types:
  "fmlookup (reg_types (load_nodes ns reg)) = fmlookup (reg_types reg) ++ map_of (declared_types ns)"
  unfolding load_nodes_def
  by (induction ns arbitrary: reg rule: declared_types.induct) (auto simp: Let_def map_add_def split: option.splits)

lemma load_nodes_enums:
  "fmlookup (reg_enums (load_nodes ns reg)) = fmlookup (reg_enums reg) ++ map_of (declared_enums ns)"
  unfolding load_nodes_def
  by (induction ns arbitrary: reg rule: declared_enums.induct) (auto simp: Let_def map_add_def split: option.splits)

lemma indexed_fields_Some:
  "indexed_fields_for_prefix reg p = Some fs \<longleftrightarrow>
     (\<exists>n t. fmlookup (reg_prefix_map reg) p = Some n \<and> fmlookup (reg_types reg) n = Some t \<and>
            fs = filter fd_is_indexed (td_fields t) \<and> fs \<noteq> [])"
  by (auto simp: indexed_fields_for_prefix_def Let_def bind_eq_Some_conv split: if_splits)

section \<open>Properties\<close>

text \<open>
  C27: What \<open>validate\<close> decides. It accepts a JSON value for a type name exactly when the type is
  declared, the value is an object, and every declared field is present with a value of its data
  type, through nested types, enums and arrays, where every integer type stands for all integers
  from -2^63 to 2^64 - 1. So it accepts every well-typed value, and whatever else it accepts has an
  integer that is out of the range of its declared type; any other value is an error.
\<close>

theorem validate_decides:
  assumes "numbers_ok x int_of"
  shows "(validate x reg type_name data = Inr () \<longleftrightarrow>
      (\<exists>t obj. fmlookup (reg_types reg) type_name = Some t \<and> data = JObject obj \<and>
        (\<forall>f \<in> set (td_fields t). \<exists>v. map_of obj (fd_name f) = Some v \<and> conforms (any_integer int_of) reg (fd_data_type f) v))) \<and>
    (well_typed int_of reg type_name data \<longrightarrow> validate x reg type_name data = Inr ()) \<and>
    (validate x reg type_name data = Inr () \<and> \<not> well_typed int_of reg type_name data \<longrightarrow>
      (\<exists>t obj f v. fmlookup (reg_types reg) type_name = Some t \<and> data = JObject obj \<and> f \<in> set (td_fields t) \<and>
        map_of obj (fd_name f) = Some v \<and> overflows int_of reg (fd_data_type f) v))"
proof -
  note p = passes_any_integer [OF assms]
  have a: "validate x reg type_name data = Inr () \<longleftrightarrow>
      (\<exists>t obj. fmlookup (reg_types reg) type_name = Some t \<and> data = JObject obj \<and>
        (\<forall>f \<in> set (td_fields t). \<exists>v. map_of obj (fd_name f) = Some v \<and> conforms (any_integer int_of) reg (fd_data_type f) v))"
    by (simp add: validate_iff(1) conforms_fields_def p)
  moreover have "well_typed int_of reg type_name data \<Longrightarrow> validate x reg type_name data = Inr ()"
  proof -
    assume "well_typed int_of reg type_name data"
    then obtain t obj where t: "fmlookup (reg_types reg) type_name = Some t" "data = JObject obj"
      "conforms_fields (of_type int_of) reg (td_fields t) obj"
      by (auto simp: well_typed_def)
    have "conforms_fields (any_integer int_of) reg (td_fields t) obj"
      using t(3) of_type_any_integer [of int_of reg] unfolding conforms_fields_def by fast
    then show ?thesis unfolding a using t(1,2) by (simp add: conforms_fields_def)
  qed
  moreover have "\<exists>t obj f v. fmlookup (reg_types reg) type_name = Some t \<and> data = JObject obj \<and> f \<in> set (td_fields t) \<and>
      map_of obj (fd_name f) = Some v \<and> overflows int_of reg (fd_data_type f) v"
    if acc: "validate x reg type_name data = Inr ()" and bad: "\<not> well_typed int_of reg type_name data"
  proof -
    obtain t obj where t: "fmlookup (reg_types reg) type_name = Some t" "data = JObject obj"
      "\<forall>f \<in> set (td_fields t). \<exists>v. map_of obj (fd_name f) = Some v \<and> conforms (any_integer int_of) reg (fd_data_type f) v"
      using acc unfolding a by blast
    then obtain f where f: "f \<in> set (td_fields t)" "\<not> (\<exists>v. map_of obj (fd_name f) = Some v \<and> conforms (of_type int_of) reg (fd_data_type f) v)"
      using bad by (auto simp: well_typed_def conforms_fields_def)
    obtain v where v: "map_of obj (fd_name f) = Some v" "conforms (any_integer int_of) reg (fd_data_type f) v"
      using t(3) f(1) by blast
    then have "overflows int_of reg (fd_data_type f) v" using in_range_or_overflows [OF v(2)] f(2) by simp
    then show ?thesis using f(1) t(1,2) v(1) by (intro exI conjI)
  qed
  ultimately show ?thesis by blast
qed

text \<open>An instance: numbers are integers; 70000 passes for a \<open>u16\<close>.\<close>

definition int_serde :: "int serde" where
  "int_serde = \<lparr>from_slice = (\<lambda>_. None), num_to_string = (\<lambda>_. []), num_is_i64 = (\<lambda>i. i \<in> int_range I64),
     num_is_u64 = (\<lambda>i. i \<in> int_range U64), num_is_f64 = (\<lambda>i. i \<notin> int_range I64 \<union> int_range U64),
     num_as_f64 = (\<lambda>_. None), parse_f64 = (\<lambda>_. None), f64_near = (\<lambda>_ _. False)\<rparr>"

definition port_schema :: registry where
  "port_schema = load_nodes [TypeNode \<lparr>td_name = ''Host'',
     td_fields = [\<lparr>fd_name = ''port'', fd_data_type = U16, fd_is_indexed = False\<rparr>], td_prefix = None\<rparr>] registry_new"

theorem validate_decides_witness:
  "validate int_serde port_schema ''Host'' (JObject [(''port'', JNumber 80)]) = Inr () \<and>
   well_typed (\<lambda>i. if i \<in> int_range I64 \<union> int_range U64 then Some i else None) port_schema ''Host'' (JObject [(''port'', JNumber 80)]) \<and>
   validate int_serde port_schema ''Host'' (JObject [(''port'', JNumber 70000)]) = Inr () \<and>
   \<not> well_typed (\<lambda>i. if i \<in> int_range I64 \<union> int_range U64 then Some i else None) port_schema ''Host'' (JObject [(''port'', JNumber 70000)]) \<and>
   validate int_serde port_schema ''Host'' (JObject [(''port'', JString ''80'')]) \<noteq> Inr ()"
proof -
  let ?i = "\<lambda>i. if i \<in> int_range I64 \<union> int_range U64 then Some i else None"
  have ok: "numbers_ok int_serde ?i" by (auto simp: numbers_ok_def int_serde_def)
  have t: "fmlookup (reg_types port_schema) ''Host'' = Some \<lparr>td_name = ''Host'',
      td_fields = [\<lparr>fd_name = ''port'', fd_data_type = U16, fd_is_indexed = False\<rparr>], td_prefix = None\<rparr>"
    by (simp add: port_schema_def load_nodes_def registry_new_def)
  have "validate int_serde port_schema ''Host'' (JObject [(''port'', JNumber 80)]) = Inr ()"
    "validate int_serde port_schema ''Host'' (JObject [(''port'', JNumber 70000)]) = Inr ()"
    "validate int_serde port_schema ''Host'' (JObject [(''port'', JString ''80'')]) \<noteq> Inr ()"
    by (subst validate_decides [OF ok, THEN conjunct1], simp add: t conforms_simps any_integer_def)+
  then show ?thesis by (simp add: well_typed_def conforms_fields_def t conforms_simps of_type_def)
qed

text \<open>
  Loading the text of a schema succeeds and registers it: a type name maps to its last
  declaration in the text and otherwise keeps what was registered, likewise enums, and a key
  prefix never leads to an undeclared type, whatever text was loaded.
\<close>

theorem load_schema_registers:
  assumes "list_all wf_node ns" and "registry_ok reg"
  shows "\<exists>reg'. load_schema (schema_text ns) reg = (Inr (), reg') \<and> registry_ok reg' \<and>
    fmlookup (reg_types reg') = fmlookup (reg_types reg) ++ map_of (declared_types ns) \<and>
    fmlookup (reg_enums reg') = fmlookup (reg_enums reg) ++ map_of (declared_enums ns)"
  using load_nodes_ok [OF assms(2)] parse_printed [OF assms(1)]
  by (simp add: load_schema_def load_nodes_types load_nodes_enums)

theorem load_schema_registers_witness:
  "\<exists>reg'. load_schema (schema_text sample_schema) registry_new = (Inr (), reg') \<and>
     fmlookup (reg_enums reg') ''Role'' = Some \<lparr>ed_name = ''Role'', ed_variants = [''Admin'', ''Guest'']\<rparr>"
  using load_schema_registers [OF wf_sample_schema registry_new_ok]
  by (auto simp: sample_schema_def)

text \<open>
  A text that does not parse changes nothing: \<open>load_schema\<close> reports the error and the
  registry is as before; and whatever the text, every prefix of the registry leads to a
  registered type and every definition is filed under its own name.
\<close>

theorem load_schema_safe:
  assumes "registry_ok reg"
  shows "registry_ok (snd (load_schema sdl reg)) \<and>
    (fst (load_schema sdl reg) \<noteq> Inr () \<longrightarrow> snd (load_schema sdl reg) = reg)"
  using load_schema_ok [OF assms] by (auto simp: load_schema_def split: sum.splits)

theorem load_schema_safe_witness:
  "load_schema ''type'' registry_new = (Inl ''Expected identifier'', registry_new)"
proof -
  have "parse_schema ''type'' = Inl ''Expected identifier''"
    by (simp add: parse_schema_def parser_new_def parse.simps [of "(_, _)"] parse_node_def parse_prefix_def
        next_token.simps [of "''type''"] next_token.simps [of "[]"] scan_def skip_whitespace_def char_class_defs
        quote_def ident_char_def current_def advance_def expect_identifier_def)
  then have "fst (load_schema ''type'' registry_new) = Inl ''Expected identifier''"
    by (simp add: load_schema_def)
  with load_schema_safe [OF registry_new_ok, of "''type''"] show ?thesis
    by (metis Inl_Inr_False prod.collapse)
qed

end
