(* ===== verification/Secondary_Index.thy ===== *)
theory Secondary_Index
  imports Schema_Registry
begin

text \<open>
  The secondary indexes of src/server.rs: which index keys a record has under the schema, and
  the sets of record keys filed under each. The locale states what the server relies on: a
  record filed and later taken out by the same value leaves no trace.
\<close>

section \<open>Index keys of a record\<close>

text \<open>The indexable JSON values as text; the others are skipped (\<open>_ => continue\<close>).\<close>

fun index_value :: "('n, 'z) serde_scheme \<Rightarrow> 'n json \<Rightarrow> str option" where
  "index_value x (JString s) = Some s"
| "index_value x (JNumber n) = Some (num_to_string x n)"
| "index_value x (JBool b) = Some (if b then ''true'' else ''false'')"
| "index_value x _ = None"

definition index_key :: "str \<Rightarrow> str \<Rightarrow> str \<Rightarrow> str" where
  "index_key type_name field_name v_str = type_name @ '':'' @ field_name @ '':'' @ v_str"

definition extract_index_keys ::
  "('n, 'z) serde_scheme \<Rightarrow> registry \<Rightarrow> str \<Rightarrow> bytes \<Rightarrow> str list" where
  "extract_index_keys x reg key val =
     (let type_prefix = split_first (CHR '':'') key in
      case indexed_fields_for_prefix reg type_prefix of
        None \<Rightarrow> []
      | Some indexed_fields \<Rightarrow>
          (case from_slice x val of
             None \<Rightarrow> []
           | Some json \<Rightarrow>
               (case as_object json of
                  None \<Rightarrow> []
                | Some obj \<Rightarrow>
                    (case fmlookup (reg_prefix_map reg) type_prefix of
                       None \<Rightarrow> []
                     | Some type_name \<Rightarrow>
                         List.map_filter
                           (\<lambda>field_def. do {
                              v \<leftarrow> map_of obj (fd_name field_def);
                              v_str \<leftarrow> index_value x v;
                              Some (index_key type_name (fd_name field_def) v_str)
                            })
                           indexed_fields))))"

section \<open>The index sets\<close>

type_synonym index_map = "(str, str fset) fmap"

definition index_has :: "index_map \<Rightarrow> str \<Rightarrow> str \<Rightarrow> bool" where
  "index_has ix idx_key key \<longleftrightarrow> (case fmlookup ix idx_key of Some S \<Rightarrow> key |\<in>| S | None \<Rightarrow> False)"

text \<open>Filing a key: a missing set is created first. Taking it out: a missing set is left alone.\<close>

definition skip_set_insert :: "str \<Rightarrow> str \<Rightarrow> index_map \<Rightarrow> index_map" where
  "skip_set_insert key idx_key ix =
     (case fmlookup ix idx_key of
        Some S \<Rightarrow> fmupd idx_key (finsert key S) ix
      | None \<Rightarrow> fmupd idx_key (finsert key {||}) ix)"

definition skip_set_remove :: "str \<Rightarrow> str \<Rightarrow> index_map \<Rightarrow> index_map" where
  "skip_set_remove key idx_key ix =
     (case fmlookup ix idx_key of
        Some S \<Rightarrow> fmupd idx_key (S |-| {|key|}) ix
      | None \<Rightarrow> ix)"

definition index_add :: "('n, 'z) serde_scheme \<Rightarrow> registry \<Rightarrow> str \<Rightarrow> bytes \<Rightarrow> index_map \<Rightarrow> index_map" where
  "index_add x reg key val ix = fold (skip_set_insert key) (extract_index_keys x reg key val) ix"

definition index_del :: "('n, 'z) serde_scheme \<Rightarrow> registry \<Rightarrow> str \<Rightarrow> bytes \<Rightarrow> index_map \<Rightarrow> index_map" where
  "index_del x reg key val ix = fold (skip_set_remove key) (extract_index_keys x reg key val) ix"

section \<open>The interface\<close>

text \<open>
  \<open>index_agrees keys has m ix\<close>: the index \<open>ix\<close> files exactly the keys of the map \<open>m\<close>, each
  under the index keys of its current value.
\<close>

definition index_agrees ::
  "('k \<Rightarrow> 'v \<Rightarrow> 'i list) \<Rightarrow> ('x \<Rightarrow> 'i \<Rightarrow> 'k \<Rightarrow> bool) \<Rightarrow> ('k \<rightharpoonup> 'v) \<Rightarrow> 'x \<Rightarrow> bool" where
  "index_agrees keys has m ix \<longleftrightarrow> (\<forall>i k. has ix i k \<longleftrightarrow> (\<exists>v. m k = Some v \<and> i \<in> set (keys k v)))"

locale secondary_index =
  fixes keys :: "'k \<Rightarrow> 'v \<Rightarrow> 'i list"
    and has :: "'x \<Rightarrow> 'i \<Rightarrow> 'k \<Rightarrow> bool"
    and add :: "'k \<Rightarrow> 'v \<Rightarrow> 'x \<Rightarrow> 'x"
    and del :: "'k \<Rightarrow> 'v \<Rightarrow> 'x \<Rightarrow> 'x"
    and empty :: 'x
  assumes has_add: "has (add k v ix) i k' \<longleftrightarrow> has ix i k' \<or> k' = k \<and> i \<in> set (keys k v)"
    and has_del: "has (del k v ix) i k' \<longleftrightarrow> has ix i k' \<and> \<not> (k' = k \<and> i \<in> set (keys k v))"
    and has_empty: "\<not> has empty i k'"
begin

lemma agrees_empty: "index_agrees keys has Map.empty empty"
  by (simp add: index_agrees_def has_empty)

lemma agrees_insert: "index_agrees keys has m ix \<Longrightarrow> m k = None \<Longrightarrow> index_agrees keys has (m(k \<mapsto> v)) (add k v ix)"
  by (auto simp: index_agrees_def has_add)

lemma agrees_remove:
  "index_agrees keys has m ix \<Longrightarrow> m k = Some v \<Longrightarrow> index_agrees keys has (m(k := None)) (del k v ix)"
  by (auto simp: index_agrees_def has_del)

lemma agrees_replace:
  assumes "index_agrees keys has m ix" "m k = Some old"
  shows "index_agrees keys has (m(k \<mapsto> v)) (add k v (del k old ix))"
proof -
  have "index_agrees keys has ((m(k := None))(k \<mapsto> v)) (add k v (del k old ix))"
    using agrees_remove [OF assms] by (rule agrees_insert) simp
  then show ?thesis by simp
qed

text \<open>What the server does on every write: take the old value out when there is one, file the new one.\<close>

lemma agrees_write:
  "index_agrees keys has m ix \<Longrightarrow>
   index_agrees keys has (m(k \<mapsto> v)) (add k v (case m k of Some old \<Rightarrow> del k old ix | None \<Rightarrow> ix))"
  by (cases "m k") (simp_all add: agrees_insert agrees_replace)

lemma agrees_erase:
  "index_agrees keys has m ix \<Longrightarrow>
   index_agrees keys has (m(k := None)) (case m k of Some old \<Rightarrow> del k old ix | None \<Rightarrow> ix)"
  by (cases "m k") (simp_all add: agrees_remove fun_upd_idem)

text \<open>Filing a value without taking the old one out is harmless only if it has the same index keys.\<close>

lemma agrees_overwrite:
  assumes "index_agrees keys has m ix"
  shows "index_agrees keys has (m(k \<mapsto> v)) (add k v ix) \<longleftrightarrow>
    (\<forall>old. m k = Some old \<longrightarrow> set (keys k old) \<subseteq> set (keys k v))"
  using assms by (auto simp: index_agrees_def has_add split: if_splits)

end

lemma has_skip_set_insert:
  "index_has (skip_set_insert key i ix) i' k' \<longleftrightarrow> index_has ix i' k' \<or> k' = key \<and> i' = i"
  by (auto simp: index_has_def skip_set_insert_def split: option.splits)

lemma has_skip_set_remove:
  "index_has (skip_set_remove key i ix) i' k' \<longleftrightarrow> index_has ix i' k' \<and> \<not> (k' = key \<and> i' = i)"
  by (auto simp: index_has_def skip_set_remove_def split: option.splits)

lemma has_fold_insert:
  "index_has (fold (skip_set_insert key) is ix) i' k' \<longleftrightarrow> index_has ix i' k' \<or> k' = key \<and> i' \<in> set is"
  by (induction "is" arbitrary: ix) (auto simp: has_skip_set_insert)

lemma has_fold_remove:
  "index_has (fold (skip_set_remove key) is ix) i' k' \<longleftrightarrow> index_has ix i' k' \<and> \<not> (k' = key \<and> i' \<in> set is)"
  by (induction "is" arbitrary: ix) (auto simp: has_skip_set_remove)

interpretation ix: secondary_index
  "extract_index_keys x reg" index_has "index_add x reg" "index_del x reg" fmempty for x reg
proof unfold_locales
  show "\<not> index_has fmempty i k" for i k by (simp add: index_has_def)
qed (simp_all add: index_add_def index_del_def has_fold_insert has_fold_remove)

lemma in_map_filter: "y \<in> set (List.map_filter f xs) \<longleftrightarrow> (\<exists>x \<in> set xs. f x = Some y)"
  by (force simp: List.map_filter_def)

text \<open>Which index keys a record has, without the order of the fields.\<close>

lemma extract_index_keys_iff:
  assumes "registry_ok reg"
  shows "i \<in> set (extract_index_keys x reg key val) \<longleftrightarrow>
    (\<exists>type_name t obj f v s.
       fmlookup (reg_prefix_map reg) (split_first (CHR '':'') key) = Some type_name \<and>
       fmlookup (reg_types reg) type_name = Some t \<and> f \<in> set (td_fields t) \<and> fd_is_indexed f \<and>
       from_slice x val = Some (JObject obj) \<and> map_of obj (fd_name f) = Some v \<and>
       index_value x v = Some s \<and> i = index_key type_name (fd_name f) s)" (is "_ \<longleftrightarrow> ?R")
proof -
  let ?p = "split_first (CHR '':'') key"
  show ?thesis
  proof (cases "fmlookup (reg_prefix_map reg) ?p")
    case None
    then show ?thesis by (simp add: extract_index_keys_def indexed_fields_for_prefix_def)
  next
    case (Some n)
    then obtain t where t: "fmlookup (reg_types reg) n = Some t"
      using assms unfolding registry_ok_def by (meson not_None_eq)
    let ?key = "\<lambda>obj f. do { v \<leftarrow> map_of obj (fd_name f); s \<leftarrow> index_value x v; Some (index_key n (fd_name f) s) }"
    have "indexed_fields_for_prefix reg ?p =
        (if filter fd_is_indexed (td_fields t) = [] then None else Some (filter fd_is_indexed (td_fields t)))"
      using Some t by (simp add: indexed_fields_for_prefix_def Let_def)
    then have "extract_index_keys x reg key val =
        (case from_slice x val of
           None \<Rightarrow> []
         | Some json \<Rightarrow> (case as_object json of
             None \<Rightarrow> []
           | Some obj \<Rightarrow> List.map_filter (?key obj) (filter fd_is_indexed (td_fields t))))"
      using Some by (auto simp: extract_index_keys_def List.map_filter_def split: option.split)
    then have "i \<in> set (extract_index_keys x reg key val) \<longleftrightarrow>
        (\<exists>obj f. from_slice x val = Some (JObject obj) \<and> f \<in> set (td_fields t) \<and> fd_is_indexed f \<and>
                 ?key obj f = Some i)"
      by (auto simp: in_map_filter as_object_Some split: option.splits)
    then show ?thesis using Some t by (simp add: bind_eq_Some_conv) blast
  qed
qed

end
