(* ===== verification/Lru_Cache.thy ===== *)
theory Lru_Cache
  imports Cache_Spec
begin

text \<open>
  \<open>LruCache\<close> of src/cache.rs: a hash map from keys to indices into a vector of nodes, the
  nodes doubly linked through indices from the most to the least recently used, a free list
  of reusable indices. Every index access may panic, so the operations return an option; the
  invariant shows that no access is ever out of bounds. The mutex around the structure makes
  each operation atomic, so a state is passed through.
\<close>

section \<open>State\<close>

record ('k, 'v) lru_node =
  nd_key :: 'k
  nd_value :: 'v
  nd_prev :: "nat option"
  nd_next :: "nat option"

record ('k, 'v) lru_inner =
  lru_capacity :: nat
  lru_map :: "('k, nat) fmap"
  lru_nodes :: "('k, 'v) lru_node list"
  lru_free :: "nat list"
  lru_head :: "nat option"
  lru_tail :: "nat option"

text \<open>\<open>LruCache::new\<close>: the assertion on the capacity panics at 0.\<close>

definition lru_new :: "nat \<Rightarrow> ('k, 'v) lru_inner option" where
  "lru_new capacity =
     (if 0 < capacity
      then Some \<lparr>lru_capacity = capacity, lru_map = fmempty, lru_nodes = [], lru_free = [],
                 lru_head = None, lru_tail = None\<rparr>
      else None)"

section \<open>Operations\<close>

text \<open>Reading and writing \<open>self.nodes[idx]\<close>; out of bounds it panics.\<close>

definition node_at :: "nat \<Rightarrow> ('k, 'v) lru_inner \<Rightarrow> ('k, 'v) lru_node option" where
  "node_at i c = (if i < length (lru_nodes c) then Some (lru_nodes c ! i) else None)"

definition set_node ::
  "nat \<Rightarrow> (('k, 'v) lru_node \<Rightarrow> ('k, 'v) lru_node) \<Rightarrow> ('k, 'v) lru_inner \<Rightarrow> ('k, 'v) lru_inner option" where
  "set_node i f c =
     (if i < length (lru_nodes c)
      then Some (c\<lparr>lru_nodes := (lru_nodes c)[i := f (lru_nodes c ! i)]\<rparr>) else None)"

definition remove_node :: "nat \<Rightarrow> ('k, 'v) lru_inner \<Rightarrow> ('k, 'v) lru_inner option" where
  "remove_node idx c = do {
     nd \<leftarrow> node_at idx c;
     let prev = nd_prev nd;
     let nxt = nd_next nd;
     c1 \<leftarrow> (case prev of
              Some p \<Rightarrow> set_node p (nd_next_update (\<lambda>_. nxt)) c
            | None \<Rightarrow> Some (c\<lparr>lru_head := nxt\<rparr>));
     c2 \<leftarrow> (case nxt of
              Some n \<Rightarrow> set_node n (nd_prev_update (\<lambda>_. prev)) c1
            | None \<Rightarrow> Some (c1\<lparr>lru_tail := prev\<rparr>));
     set_node idx (\<lambda>nd. nd\<lparr>nd_prev := None, nd_next := None\<rparr>) c2
   }"

text \<open>The link-in at the front that \<open>move_to_front\<close> and \<open>put\<close> share.\<close>

definition link_front :: "nat \<Rightarrow> ('k, 'v) lru_inner \<Rightarrow> ('k, 'v) lru_inner option" where
  "link_front idx c = do {
     let old_head = lru_head c;
     c1 \<leftarrow> set_node idx (\<lambda>nd. nd\<lparr>nd_next := old_head, nd_prev := None\<rparr>) c;
     c2 \<leftarrow> (case old_head of
              Some h \<Rightarrow> set_node h (nd_prev_update (\<lambda>_. Some idx)) c1
            | None \<Rightarrow> Some c1);
     let c3 = c2\<lparr>lru_head := Some idx\<rparr>;
     Some (if lru_tail c3 = None then c3\<lparr>lru_tail := Some idx\<rparr> else c3)
   }"

definition move_to_front :: "nat \<Rightarrow> ('k, 'v) lru_inner \<Rightarrow> ('k, 'v) lru_inner option" where
  "move_to_front idx c =
     (if lru_head c = Some idx then Some c
      else do { c1 \<leftarrow> remove_node idx c; link_front idx c1 })"

definition lru_get :: "'k \<Rightarrow> ('k, 'v) lru_inner \<Rightarrow> ('v option \<times> ('k, 'v) lru_inner) option" where
  "lru_get key c =
     (case fmlookup (lru_map c) key of
        Some idx \<Rightarrow> do {
          c1 \<leftarrow> move_to_front idx c;
          nd \<leftarrow> node_at idx c1;
          Some (Some (nd_value nd), c1)
        }
      | None \<Rightarrow> Some (None, c))"

text \<open>Eviction of the least recently used entry when the cache is full.\<close>

definition lru_evict :: "('k, 'v) lru_inner \<Rightarrow> ('k, 'v) lru_inner option" where
  "lru_evict c =
     (if lru_capacity c \<le> fcard (fmdom (lru_map c))
      then (case lru_tail c of
              Some tail_idx \<Rightarrow> do {
                c1 \<leftarrow> remove_node tail_idx c;
                nd \<leftarrow> node_at tail_idx c1;
                Some (c1\<lparr>lru_map := fmdrop (nd_key nd) (lru_map c1),
                         lru_free := lru_free c1 @ [tail_idx]\<rparr>)
              }
            | None \<Rightarrow> Some c)
      else Some c)"

text \<open>A slot for the new node: the last free index, or a new one at the end of the vector.\<close>

definition lru_alloc :: "'k \<Rightarrow> 'v \<Rightarrow> ('k, 'v) lru_inner \<Rightarrow> (nat \<times> ('k, 'v) lru_inner) option" where
  "lru_alloc key val c =
     (let nd = \<lparr>nd_key = key, nd_value = val, nd_prev = None, nd_next = None\<rparr> in
      if lru_free c \<noteq> []
      then do {
        let idx = last (lru_free c);
        c1 \<leftarrow> set_node idx (\<lambda>_. nd) (c\<lparr>lru_free := butlast (lru_free c)\<rparr>);
        Some (idx, c1)
      }
      else Some (length (lru_nodes c), c\<lparr>lru_nodes := lru_nodes c @ [nd]\<rparr>))"

definition lru_put :: "'k \<Rightarrow> 'v \<Rightarrow> ('k, 'v) lru_inner \<Rightarrow> ('k, 'v) lru_inner option" where
  "lru_put key val c =
     (case fmlookup (lru_map c) key of
        Some idx \<Rightarrow> do {
          c1 \<leftarrow> set_node idx (nd_value_update (\<lambda>_. val)) c;
          move_to_front idx c1
        }
      | None \<Rightarrow> do {
          c1 \<leftarrow> lru_evict c;
          (new_idx, c2) \<leftarrow> lru_alloc key val c1;
          link_front new_idx (c2\<lparr>lru_map := fmupd key new_idx (lru_map c2)\<rparr>)
        })"

definition lru_invalidate :: "'k \<Rightarrow> ('k, 'v) lru_inner \<Rightarrow> ('k, 'v) lru_inner option" where
  "lru_invalidate key c =
     (case fmlookup (lru_map c) key of
        Some idx \<Rightarrow> do {
          c1 \<leftarrow> remove_node idx (c\<lparr>lru_map := fmdrop key (lru_map c)\<rparr>);
          Some (c1\<lparr>lru_free := lru_free c1 @ [idx]\<rparr>)
        }
      | None \<Rightarrow> Some c)"

section \<open>Linked segments\<close>

text \<open>
  \<open>chain ns p xs q\<close>: the indices \<open>xs\<close> are linked in this order, the first one's \<open>prev\<close> is
  \<open>p\<close> and the last one's \<open>next\<close> is \<open>q\<close>.
\<close>

fun chain :: "('k, 'v) lru_node list \<Rightarrow> nat option \<Rightarrow> nat list \<Rightarrow> nat option \<Rightarrow> bool" where
  "chain ns p [] q \<longleftrightarrow> True"
| "chain ns p (i # xs) q \<longleftrightarrow>
     i < length ns \<and> nd_prev (ns ! i) = p \<and> nd_next (ns ! i) = hd_or xs q \<and> chain ns (Some i) xs q"

lemma chain_append:
  "chain ns p (xs @ ys) q \<longleftrightarrow> chain ns p xs (hd_or ys q) \<and> chain ns (last_or p xs) ys q"
  by (induction xs arbitrary: p) auto

lemma chain_bound: "chain ns p xs q \<Longrightarrow> i \<in> set xs \<Longrightarrow> i < length ns"
  by (induction xs arbitrary: p) auto

lemma chain_frame: "i \<notin> set xs \<Longrightarrow> chain (ns[i := nd]) p xs q \<longleftrightarrow> chain ns p xs q"
  by (induction xs arbitrary: p) auto

lemma chain_grow: "chain ns p xs q \<Longrightarrow> chain (ns @ ms) p xs q"
  by (induction xs arbitrary: p) (auto simp: nth_append)

lemma chain_set_value:
  "chain (ns[i := (ns ! i)\<lparr>nd_value := v\<rparr>]) p xs q \<longleftrightarrow> chain ns p xs q"
proof (induction xs arbitrary: p)
  case (Cons a xs)
  then show ?case by (cases "i < length ns"; cases "a = i") auto
qed simp

lemma chain_set_prev:
  "chain ns p (i # xs) q \<Longrightarrow> i \<notin> set xs \<Longrightarrow> chain (ns[i := (ns ! i)\<lparr>nd_prev := p'\<rparr>]) p' (i # xs) q"
  by (simp add: chain_frame)

lemma chain_set_next:
  "chain ns p (xs @ [i]) q \<Longrightarrow> i \<notin> set xs \<Longrightarrow> chain (ns[i := (ns ! i)\<lparr>nd_next := q'\<rparr>]) p (xs @ [i]) q'"
  by (simp add: chain_append chain_frame)

text \<open>The order of use, read off the structure by following \<open>next\<close> from the head.\<close>

fun follow :: "nat \<Rightarrow> ('k, 'v) lru_node list \<Rightarrow> nat option \<Rightarrow> nat list" where
  "follow (Suc n) ns (Some i) = i # follow n ns (nd_next (ns ! i))"
| "follow _ _ _ = []"

definition lru_order :: "('k, 'v) lru_inner \<Rightarrow> nat list" where
  "lru_order c = follow (length (lru_nodes c)) (lru_nodes c) (lru_head c)"

lemma follow_chain: "chain ns p xs None \<Longrightarrow> length xs \<le> n \<Longrightarrow> follow n ns (hd_or xs None) = xs"
proof (induction xs arbitrary: n p)
  case Nil
  then show ?case by (cases n) auto
next
  case (Cons i xs)
  then show ?case by (cases n) auto
qed

section \<open>The links as a list\<close>

definition links :: "('k, 'v) lru_inner \<Rightarrow> nat list \<Rightarrow> bool" where
  "links c xs \<longleftrightarrow> chain (lru_nodes c) None xs None \<and> distinct xs \<and>
     lru_head c = hd_or xs None \<and> lru_tail c = last_or None xs"

text \<open>What relinking leaves alone: the payload of every node and the other fields.\<close>

definition payload :: "('k, 'v) lru_inner \<Rightarrow> ('k \<times> 'v) list" where
  "payload c = map (\<lambda>nd. (nd_key nd, nd_value nd)) (lru_nodes c)"

definition same_entries :: "('k, 'v) lru_inner \<Rightarrow> ('k, 'v) lru_inner \<Rightarrow> bool" where
  "same_entries c c' \<longleftrightarrow> payload c' = payload c \<and> lru_map c' = lru_map c \<and>
     lru_free c' = lru_free c \<and> lru_capacity c' = lru_capacity c"

lemma same_entries_refl [simp]: "same_entries c c"
  by (simp add: same_entries_def)

lemma same_entries_trans: "same_entries a b \<Longrightarrow> same_entries b c \<Longrightarrow> same_entries a c"
  by (simp add: same_entries_def)

lemma payload_upd [simp]:
  "payload (c\<lparr>lru_map := m\<rparr>) = payload c" "payload (c\<lparr>lru_free := f\<rparr>) = payload c"
  by (simp_all add: payload_def)

lemma links_upd [simp]:
  "links (c\<lparr>lru_map := m\<rparr>) xs = links c xs" "links (c\<lparr>lru_free := f\<rparr>) xs = links c xs"
  by (simp_all add: links_def)

lemma length_payload: "length (payload c) = length (lru_nodes c)"
  by (simp add: payload_def)

lemma same_entries_length: "same_entries c c' \<Longrightarrow> length (lru_nodes c') = length (lru_nodes c)"
  by (metis same_entries_def length_payload)

lemma set_node_same:
  assumes "set_node i f c = Some c'"
    and f: "\<And>nd. nd_key (f nd) = nd_key nd \<and> nd_value (f nd) = nd_value nd"
  shows "same_entries c c'"
proof -
  let ?g = "\<lambda>nd. (nd_key nd, nd_value nd)"
  from assms(1) have i: "i < length (lru_nodes c)"
    and c': "c' = c\<lparr>lru_nodes := (lru_nodes c)[i := f (lru_nodes c ! i)]\<rparr>"
    by (auto simp: set_node_def split: if_splits)
  have "?g (f (lru_nodes c ! i)) = map ?g (lru_nodes c) ! i"
    using i f by simp
  then have "map ?g ((lru_nodes c)[i := f (lru_nodes c ! i)]) = map ?g (lru_nodes c)"
    by (metis list_update_id map_update)
  then show ?thesis by (simp add: same_entries_def payload_def c')
qed

lemma remove_node_same:
  assumes "remove_node i c = Some c'"
  shows "same_entries c c'"
proof -
  let ?p = "nd_prev (lru_nodes c ! i)" and ?n = "nd_next (lru_nodes c ! i)"
  from assms obtain c1 c2 where
    c1: "(case ?p of Some p \<Rightarrow> set_node p (nd_next_update (\<lambda>_. ?n)) c
          | None \<Rightarrow> Some (c\<lparr>lru_head := ?n\<rparr>)) = Some c1"
    and c2: "(case ?n of Some n \<Rightarrow> set_node n (nd_prev_update (\<lambda>_. ?p)) c1
          | None \<Rightarrow> Some (c1\<lparr>lru_tail := ?p\<rparr>)) = Some c2"
    and c3: "set_node i (\<lambda>nd. nd\<lparr>nd_prev := None, nd_next := None\<rparr>) c2 = Some c'"
    by (auto simp: remove_node_def node_at_def Let_def bind_eq_Some_conv split: if_splits)
  have "same_entries c c1"
    using c1 set_node_same [of _ "nd_next_update (\<lambda>_. ?n)" c c1]
    by (auto simp: same_entries_def payload_def split: option.splits)
  moreover have "same_entries c1 c2"
    using c2 set_node_same [of _ "nd_prev_update (\<lambda>_. ?p)" c1 c2]
    by (auto simp: same_entries_def payload_def split: option.splits)
  moreover have "same_entries c2 c'"
    using set_node_same [OF c3] by simp
  ultimately show ?thesis by (blast intro: same_entries_trans)
qed

lemma link_front_same:
  assumes "link_front i c = Some c'"
  shows "same_entries c c'"
proof -
  from assms obtain c1 c2 where
    c1: "set_node i (\<lambda>nd. nd\<lparr>nd_next := lru_head c, nd_prev := None\<rparr>) c = Some c1"
    and c2: "(case lru_head c of Some h \<Rightarrow> set_node h (nd_prev_update (\<lambda>_. Some i)) c1
          | None \<Rightarrow> Some c1) = Some c2"
    and c3: "same_entries c2 c'"
    by (auto simp: link_front_def Let_def bind_eq_Some_conv same_entries_def payload_def split: if_splits)
  have "same_entries c c1" using set_node_same [OF c1] by simp
  moreover have "same_entries c1 c2"
    using c2 set_node_same [of _ "nd_prev_update (\<lambda>_. Some i)" c1 c2]
    by (auto split: option.splits)
  ultimately show ?thesis using c3 by (blast intro: same_entries_trans)
qed

lemma remove_node_links:
  assumes "links c (ys @ i # zs)"
  shows "\<exists>c'. remove_node i c = Some c' \<and> links c' (ys @ zs) \<and> same_entries c c'"
proof -
  have "\<exists>c'. remove_node i c = Some c' \<and> links c' (ys @ zs)"
    using assms
    by (cases ys rule: rev_cases; cases zs)
      (auto simp: remove_node_def node_at_def set_node_def Let_def links_def chain_append chain_frame)
  then show ?thesis using remove_node_same by blast
qed

lemma link_front_links:
  assumes "links c xs" "i < length (lru_nodes c)" "i \<notin> set xs"
  shows "\<exists>c'. link_front i c = Some c' \<and> links c' (i # xs) \<and> same_entries c c'"
proof -
  have "\<exists>c'. link_front i c = Some c' \<and> links c' (i # xs)"
    using assms
    by (cases xs) (auto simp: link_front_def set_node_def Let_def links_def chain_frame last_or_def)
  then show ?thesis using link_front_same by blast
qed

lemma move_to_front_links:
  assumes "links c (ys @ i # zs)"
  shows "\<exists>c'. move_to_front i c = Some c' \<and> links c' (i # ys @ zs) \<and> same_entries c c'"
proof (cases "lru_head c = Some i")
  case True
  with assms have "ys = []" by (cases ys) (auto simp: links_def)
  with True assms show ?thesis by (auto simp: move_to_front_def)
next
  case False
  obtain c1 where c1: "remove_node i c = Some c1" "links c1 (ys @ zs)" "same_entries c c1"
    using remove_node_links [OF assms] by blast
  have "i < length (lru_nodes c1)" "i \<notin> set (ys @ zs)"
    using assms same_entries_length [OF c1(3)] by (auto simp: links_def chain_append)
  then obtain c2 where "link_front i c1 = Some c2" "links c2 (i # ys @ zs)" "same_entries c1 c2"
    using link_front_links [OF c1(2)] by auto
  with False c1 show ?thesis by (auto simp: move_to_front_def intro: same_entries_trans)
qed

section \<open>The invariant\<close>

text \<open>
  The map and the list name the same nodes, and every slot of the vector is either linked or
  free; so the vector never grows beyond the capacity.
\<close>

definition slots_ok :: "('k, 'v) lru_inner \<Rightarrow> nat list \<Rightarrow> bool" where
  "slots_ok c xs \<longleftrightarrow>
     (\<forall>k i. fmlookup (lru_map c) k = Some i \<longleftrightarrow> i \<in> set xs \<and> fst (payload c ! i) = k) \<and>
     distinct (lru_free c) \<and> set xs \<inter> set (lru_free c) = {} \<and>
     set xs \<union> set (lru_free c) = {..<length (payload c)} \<and>
     length (payload c) \<le> lru_capacity c \<and> 0 < lru_capacity c"

definition lru_rep :: "('k, 'v) lru_inner \<Rightarrow> nat list \<Rightarrow> bool" where
  "lru_rep c xs \<longleftrightarrow> links c xs \<and> slots_ok c xs"

definition lru_inv :: "('k, 'v) lru_inner \<Rightarrow> bool" where
  "lru_inv c \<longleftrightarrow> lru_rep c (lru_order c)"

definition lru_items :: "('k, 'v) lru_inner \<Rightarrow> ('k \<times> 'v) list" where
  "lru_items c = map (\<lambda>i. payload c ! i) (lru_order c)"

definition lru_abs :: "('k, 'v) lru_inner \<Rightarrow> 'k \<Rightarrow> 'v option" where
  "lru_abs c = map_of (lru_items c)"

lemma slots_ok_cong:
  "same_entries c c' \<Longrightarrow> set xs = set ys \<Longrightarrow> slots_ok c' ys \<longleftrightarrow> slots_ok c xs"
  by (simp add: slots_ok_def same_entries_def)

lemma lru_rep_order: "lru_rep c xs \<Longrightarrow> lru_order c = xs"
proof -
  assume r: "lru_rep c xs"
  then have "set xs \<subseteq> {..<length (lru_nodes c)}" "distinct xs"
    by (auto simp: lru_rep_def links_def dest: chain_bound)
  then have "length xs \<le> length (lru_nodes c)"
    by (metis card_lessThan card_mono distinct_card finite_lessThan)
  with r show ?thesis by (simp add: lru_order_def lru_rep_def links_def follow_chain [of _ None])
qed

lemma lru_rep_inv: "lru_rep c xs \<Longrightarrow> lru_inv c"
  by (simp add: lru_inv_def lru_rep_order)

lemma lru_rep_items: "lru_rep c xs \<Longrightarrow> lru_items c = map (\<lambda>i. payload c ! i) xs"
  by (simp add: lru_items_def lru_rep_order)

lemma lru_rep_inj: "lru_rep c xs \<Longrightarrow> inj_on (\<lambda>i. fst (payload c ! i)) (set xs)"
  unfolding lru_rep_def slots_ok_def by (intro inj_onI) (metis option.inject)

lemma lru_rep_card: "lru_rep c xs \<Longrightarrow> fcard (fmdom (lru_map c)) = length xs"
proof -
  assume r: "lru_rep c xs"
  have "fset (fmdom (lru_map c)) = (\<lambda>i. fst (payload c ! i)) ` set xs"
    using r by (auto simp: lru_rep_def slots_ok_def fmlookup_dom_iff image_iff)
  then show ?thesis
    using card_image [OF lru_rep_inj [OF r]] r
    by (simp add: fcard.rep_eq distinct_card lru_rep_def links_def)
qed

lemma lru_rep_length: "lru_rep c xs \<Longrightarrow> length xs \<le> lru_capacity c"
proof -
  assume r: "lru_rep c xs"
  then have "card (set xs) \<le> card {..<length (payload c)}"
    by (intro card_mono) (auto simp: lru_rep_def slots_ok_def)
  with r show ?thesis
    by (auto simp: distinct_card lru_rep_def links_def slots_ok_def)
qed

lemma lru_items_distinct: "lru_inv c \<Longrightarrow> distinct (map fst (lru_items c))"
  using lru_rep_inj [of c "lru_order c"]
  by (simp add: lru_items_def lru_inv_def comp_def distinct_map lru_rep_def links_def)

lemma lru_rep_lookup:
  "lru_rep c xs \<Longrightarrow> fmlookup (lru_map c) k = Some i \<longleftrightarrow> i \<in> set xs \<and> fst (payload c ! i) = k"
  by (simp add: lru_rep_def slots_ok_def)

lemma lru_abs_lookup:
  assumes "lru_rep c xs"
  shows "lru_abs c k = map_option (\<lambda>i. snd (payload c ! i)) (fmlookup (lru_map c) k)"
proof (cases "fmlookup (lru_map c) k")
  case None
  then have "\<forall>i \<in> set xs. fst (payload c ! i) \<noteq> k"
    using lru_rep_lookup [OF assms, of k] by auto
  then have "k \<notin> fst ` set (lru_items c)"
    unfolding lru_rep_items [OF assms] by auto
  with None show ?thesis by (simp add: lru_abs_def map_of_eq_None_iff)
next
  case (Some i)
  with assms have "(k, snd (payload c ! i)) \<in> set (lru_items c)"
    by (auto simp: lru_rep_items [OF assms] lru_rep_def slots_ok_def image_iff intro!: bexI [of _ i])
  with Some show ?thesis
    using map_of_is_SomeI [OF lru_items_distinct [OF lru_rep_inv [OF assms]]]
    by (simp add: lru_abs_def)
qed

lemma items_without:
  assumes "lru_rep c (ys @ i # zs)" "fst (payload c ! i) = k"
  shows "filter (\<lambda>(k', _). k' \<noteq> k) (map (\<lambda>i. payload c ! i) (ys @ i # zs)) =
         map (\<lambda>i. payload c ! i) (ys @ zs)"
proof -
  have "distinct (ys @ i # zs)" using assms(1) by (simp add: lru_rep_def links_def)
  then have "\<forall>j \<in> set (ys @ zs). fst (payload c ! j) \<noteq> k"
    using assms lru_rep_inj [OF assms(1)] by (auto simp: inj_on_def)
  then show ?thesis using assms(2) by (auto simp: filter_map comp_def split_beta intro!: filter_True)
qed

section \<open>The abstract least-recently-used list\<close>

text \<open>The entries from the most to the least recently used; eviction drops the last one.\<close>

definition alru_touch :: "'k \<Rightarrow> 'v \<Rightarrow> ('k \<times> 'v) list \<Rightarrow> ('k \<times> 'v) list" where
  "alru_touch k v l = (k, v) # filter (\<lambda>(k', _). k' \<noteq> k) l"

definition alru_get :: "'k \<Rightarrow> ('k \<times> 'v) list \<Rightarrow> ('k \<times> 'v) list" where
  "alru_get k l = (case map_of l k of Some v \<Rightarrow> alru_touch k v l | None \<Rightarrow> l)"

definition alru_put :: "nat \<Rightarrow> 'k \<Rightarrow> 'v \<Rightarrow> ('k \<times> 'v) list \<Rightarrow> ('k \<times> 'v) list" where
  "alru_put cap k v l =
     (if map_of l k \<noteq> None then alru_touch k v l
      else if cap \<le> length l then (k, v) # butlast l
      else (k, v) # l)"

definition alru_invalidate :: "'k \<Rightarrow> ('k \<times> 'v) list \<Rightarrow> ('k \<times> 'v) list" where
  "alru_invalidate k l = filter (\<lambda>(k', _). k' \<noteq> k) l"

section \<open>Every operation refines the abstract list\<close>

lemma lru_new_rep: "lru_new n = Some c \<Longrightarrow> lru_rep c [] \<and> lru_capacity c = n"
  by (auto simp: lru_new_def lru_rep_def links_def slots_ok_def payload_def split: if_splits)

lemma lru_items_move:
  assumes "lru_rep c (ys @ i # zs)" "payload c ! i = (k, v)"
    and "lru_rep c' (i # ys @ zs)" "same_entries c c'"
  shows "lru_items c' = alru_touch k v (lru_items c)"
  using assms items_without [OF assms(1), of k]
  by (simp add: lru_rep_items [OF assms(1)] lru_rep_items [OF assms(3)] alru_touch_def same_entries_def)

lemma lru_touch:
  assumes "lru_rep c xs" "i \<in> set xs" "payload c ! i = (k, v)"
  shows "\<exists>c'. move_to_front i c = Some c' \<and> lru_inv c' \<and> same_entries c c' \<and>
              lru_items c' = alru_touch k v (lru_items c)"
proof -
  obtain ys zs where xs: "xs = ys @ i # zs" using assms(2) by (meson split_list)
  obtain c' where c': "move_to_front i c = Some c'" "links c' (i # ys @ zs)" "same_entries c c'"
    using move_to_front_links assms(1) unfolding xs lru_rep_def by blast
  have "lru_rep c' (i # ys @ zs)"
    using c' assms(1) slots_ok_cong [OF c'(3), of xs "i # ys @ zs"] xs by (auto simp: lru_rep_def)
  then show ?thesis
    using c' assms(1,3) lru_items_move [of c ys i zs k v c'] xs by (blast intro: lru_rep_inv)
qed

lemma lru_get_spec:
  assumes "lru_inv c"
  shows "\<exists>c'. lru_get k c = Some (lru_abs c k, c') \<and> lru_inv c' \<and>
              lru_items c' = alru_get k (lru_items c) \<and> same_entries c c'"
proof (cases "fmlookup (lru_map c) k")
  case None
  have "lru_abs c k = None"
    using lru_abs_lookup assms None unfolding lru_inv_def by fastforce
  then show ?thesis using None assms by (simp add: lru_get_def alru_get_def lru_abs_def)
next
  case (Some i)
  have r: "lru_rep c (lru_order c)" using assms by (simp add: lru_inv_def)
  let ?v = "snd (payload c ! i)"
  have i: "i \<in> set (lru_order c)" "payload c ! i = (k, ?v)"
    using lru_rep_lookup [OF r, of k i] Some by (auto simp: prod_eq_iff)
  have a: "lru_abs c k = Some ?v" using lru_abs_lookup [OF r] Some by simp
  obtain c' where c': "move_to_front i c = Some c'" "lru_inv c'" "same_entries c c'"
    "lru_items c' = alru_touch k ?v (lru_items c)"
    using lru_touch [OF r i] by blast
  have len: "i < length (lru_nodes c)"
    using r i(1) by (auto simp: lru_rep_def links_def dest: chain_bound)
  then have n: "node_at i c' = Some (lru_nodes c' ! i)" "i < length (lru_nodes c')"
    using same_entries_length [OF c'(3)] by (auto simp: node_at_def)
  have "payload c' ! i = (nd_key (lru_nodes c' ! i), nd_value (lru_nodes c' ! i))"
    using n(2) by (simp add: payload_def)
  moreover have "payload c' = payload c" using c'(3) by (simp add: same_entries_def)
  ultimately have "nd_value (lru_nodes c' ! i) = ?v" by simp
  then show ?thesis using Some c' a n by (simp add: lru_get_def alru_get_def lru_abs_def)
qed

lemma lru_set_value:
  assumes "lru_rep c xs" "i \<in> set xs" "fst (payload c ! i) = k"
  shows "\<exists>c'. set_node i (nd_value_update (\<lambda>_. v)) c = Some c' \<and> lru_rep c' xs \<and>
              payload c' = (payload c)[i := (k, v)] \<and> lru_capacity c' = lru_capacity c"
proof -
  let ?c = "c\<lparr>lru_nodes := (lru_nodes c)[i := (lru_nodes c ! i)\<lparr>nd_value := v\<rparr>]\<rparr>"
  have i: "i < length (lru_nodes c)"
    using assms(1,2) by (auto simp: lru_rep_def links_def dest: chain_bound)
  have p: "payload ?c = (payload c)[i := (k, v)]"
    using assms(3) i by (auto simp: payload_def map_update)
  have "fst (payload ?c ! j) = fst (payload c ! j)" for j
    using p assms(3) i by (cases "j = i") (auto simp: length_payload)
  then have "lru_rep ?c xs"
    using assms(1) by (simp add: lru_rep_def links_def chain_set_value slots_ok_def length_payload)
  then show ?thesis using i p by (simp add: set_node_def)
qed

lemma alru_touch_set_value:
  assumes "lru_rep c (ys @ i # zs)" "lru_rep c' (ys @ i # zs)" "payload c' = (payload c)[i := (k, v)]"
    "fst (payload c ! i) = k"
  shows "alru_touch k w (lru_items c') = alru_touch k w (lru_items c)"
proof -
  have d: "i \<notin> set (ys @ zs)" using assms(1) by (simp add: lru_rep_def links_def)
  have "i < length (payload c)"
    using assms(1) by (auto simp: lru_rep_def links_def length_payload chain_append)
  then have "fst (payload c' ! i) = k" using assms(3) by simp
  moreover have "map (\<lambda>i. payload c' ! i) (ys @ zs) = map (\<lambda>i. payload c ! i) (ys @ zs)"
    using d assms(3) by (auto intro!: nth_list_update_neq)
  ultimately show ?thesis
    using items_without [OF assms(1,4)] items_without [OF assms(2), of k]
    by (simp only: alru_touch_def lru_rep_items [OF assms(1)] lru_rep_items [OF assms(2)])
qed

lemma lru_put_present:
  assumes "lru_inv c" "fmlookup (lru_map c) k = Some i"
  shows "\<exists>c'. lru_put k v c = Some c' \<and> lru_inv c' \<and> lru_items c' = alru_touch k v (lru_items c) \<and>
              lru_capacity c' = lru_capacity c"
proof -
  have r: "lru_rep c (lru_order c)" using assms by (simp add: lru_inv_def)
  have i: "i \<in> set (lru_order c)" "fst (payload c ! i) = k"
    using lru_rep_lookup [OF r, of k i] assms(2) by auto
  obtain c1 where c1: "set_node i (nd_value_update (\<lambda>_. v)) c = Some c1" "lru_rep c1 (lru_order c)"
    "payload c1 = (payload c)[i := (k, v)]" "lru_capacity c1 = lru_capacity c"
    using lru_set_value [OF r i] by blast
  have "i < length (payload c)"
    using r i(1) by (auto simp: length_payload lru_rep_def links_def dest: chain_bound)
  then have "payload c1 ! i = (k, v)" by (simp add: c1(3))
  then obtain c' where c': "move_to_front i c1 = Some c'" "lru_inv c'" "same_entries c1 c'"
    "lru_items c' = alru_touch k v (lru_items c1)"
    using lru_touch [OF c1(2) i(1)] by blast
  moreover have "alru_touch k v (lru_items c1) = alru_touch k v (lru_items c)"
    using i(1) alru_touch_set_value [OF _ _ c1(3) i(2)] r c1(2) by (metis split_list)
  ultimately show ?thesis using assms(2) c1 by (auto simp: lru_put_def same_entries_def)
qed

text \<open>Taking one node out of the list and the map, into the free list.\<close>

lemma slots_ok_free:
  assumes "slots_ok c (ys @ i # zs)" "distinct (ys @ i # zs)" "fst (payload c ! i) = k"
    and "payload c' = payload c" "lru_map c' = fmdrop k (lru_map c)" "lru_free c' = lru_free c @ [i]"
    and "lru_capacity c' = lru_capacity c"
  shows "slots_ok c' (ys @ zs)"
proof -
  have m: "fmlookup (lru_map c') k' = Some j \<longleftrightarrow> j \<in> set (ys @ zs) \<and> fst (payload c' ! j) = k'" for k' j
  proof -
    have "fmlookup (lru_map c) k' = Some j \<longleftrightarrow> j \<in> set (ys @ i # zs) \<and> fst (payload c ! j) = k'" for k' j
      using assms(1) by (simp add: slots_ok_def)
    from this [of k j] this [of k' j] this [of k i] show ?thesis
      using assms(2-5) by (cases "k' = k"; cases "j = i") auto
  qed
  show ?thesis
    using assms unfolding slots_ok_def m by auto
qed

lemma lru_evict_spec:
  assumes "lru_rep c xs"
  shows "\<exists>c'. lru_evict c = Some c' \<and>
    lru_rep c' (if lru_capacity c \<le> length xs then butlast xs else xs) \<and>
    payload c' = payload c \<and> lru_capacity c' = lru_capacity c \<and>
    (\<forall>k. fmlookup (lru_map c) k = None \<longrightarrow> fmlookup (lru_map c') k = None)"
proof (cases "lru_capacity c \<le> length xs")
  case False
  then show ?thesis using assms by (simp add: lru_evict_def lru_rep_card)
next
  case True
  then have "xs \<noteq> []" using assms by (auto simp: lru_rep_def slots_ok_def)
  then obtain ys i where xs: "xs = ys @ [i]" by (metis rev_exhaust)
  then have t: "lru_tail c = Some i" using assms by (simp add: lru_rep_def links_def)
  obtain c1 where c1: "remove_node i c = Some c1" "links c1 (ys @ [])" "same_entries c c1"
    using remove_node_links [of c ys i "[]"] assms xs by (auto simp: lru_rep_def)
  have i: "i < length (lru_nodes c1)"
    using assms xs same_entries_length [OF c1(3)] by (auto simp: lru_rep_def links_def chain_append)
  let ?k = "nd_key (lru_nodes c1 ! i)"
  let ?c = "c1\<lparr>lru_map := fmdrop ?k (lru_map c1), lru_free := lru_free c1 @ [i]\<rparr>"
  have "fst (payload c1 ! i) = ?k" using i by (simp add: payload_def)
  then have k: "fst (payload c ! i) = ?k" using c1(3) by (simp add: same_entries_def)
  have p: "payload ?c = payload c" "lru_map ?c = fmdrop ?k (lru_map c)"
    "lru_free ?c = lru_free c @ [i]" "lru_capacity ?c = lru_capacity c"
    using c1(3) by (simp_all add: same_entries_def payload_def)
  have "slots_ok ?c (ys @ [])"
    using slots_ok_free [of c ys i "[]" ?k ?c] k p assms xs by (simp add: lru_rep_def links_def)
  moreover have "links ?c (ys @ [])" using c1(2) by simp
  ultimately show ?thesis
    using True c1(1) xs i t p lru_rep_card [OF assms]
    by (auto simp: lru_evict_def node_at_def lru_rep_def)
qed

lemma slots_ok_alloc:
  assumes "slots_ok c xs" "fmlookup (lru_map c) k = None" "i \<notin> set xs"
    and "\<forall>j \<in> set xs. payload c' ! j = payload c ! j" "payload c' ! i = (k, v)"
    and "lru_map c' = fmupd k i (lru_map c)" "lru_capacity c' = lru_capacity c"
    and "distinct (lru_free c')" "(insert i (set xs)) \<inter> set (lru_free c') = {}"
    and "insert i (set xs) \<union> set (lru_free c') = {..<length (payload c')}"
    and "length (payload c') \<le> lru_capacity c"
  shows "slots_ok c' (i # xs)"
proof -
  have look: "fmlookup (lru_map c) k' = Some j \<longleftrightarrow> j \<in> set xs \<and> fst (payload c ! j) = k'" for k' j
    using assms(1) by (simp add: slots_ok_def)
  have "fmlookup (lru_map c') k' = Some j \<longleftrightarrow> j \<in> set (i # xs) \<and> fst (payload c' ! j) = k'" for k' j
    using look [of k j] look [of k' j] assms(2-6) by (cases "j = i") auto
  then show ?thesis using assms unfolding slots_ok_def by auto
qed

lemma lru_alloc_spec:
  assumes "lru_rep c xs" "length xs < lru_capacity c" "fmlookup (lru_map c) k = None"
  shows "\<exists>i c'. lru_alloc k v c = Some (i, c') \<and> i \<notin> set xs \<and> i < length (lru_nodes c') \<and>
    links c' xs \<and> slots_ok (c'\<lparr>lru_map := fmupd k i (lru_map c')\<rparr>) (i # xs) \<and>
    (\<forall>j \<in> set xs. payload c' ! j = payload c ! j) \<and> payload c' ! i = (k, v) \<and>
    lru_capacity c' = lru_capacity c"
proof -
  let ?nd = "\<lparr>nd_key = k, nd_value = v, nd_prev = None, nd_next = None\<rparr>"
  have cover: "set xs \<union> set (lru_free c) = {..<length (lru_nodes c)}" and df: "distinct (lru_free c)"
    and dj: "set xs \<inter> set (lru_free c) = {}"
    using assms(1) by (auto simp: lru_rep_def slots_ok_def length_payload)
  have so: "slots_ok c xs" using assms(1) by (simp add: lru_rep_def)
  show ?thesis
  proof (cases "lru_free c = []")
    case True
    let ?c = "c\<lparr>lru_nodes := lru_nodes c @ [?nd]\<rparr>" and ?i = "length (lru_nodes c)"
    have p: "payload ?c = payload c @ [(k, v)]" by (simp add: payload_def)
    have xs: "set xs = {..<?i}" using cover True by simp
    have "length xs = ?i"
      using xs assms(1) distinct_card [of xs] by (simp add: lru_rep_def links_def)
    then have len: "Suc ?i \<le> lru_capacity c" using assms(2) by simp
    have pj: "\<forall>j \<in> set xs. payload ?c ! j = payload c ! j"
      by (simp add: p xs nth_append length_payload)
    have pi: "payload ?c ! ?i = (k, v)" by (simp add: p nth_append length_payload)
    have "slots_ok (?c\<lparr>lru_map := fmupd k ?i (lru_map ?c)\<rparr>) (?i # xs)"
      by (rule slots_ok_alloc [OF so assms(3)]) (use True len pj pi xs p in \<open>auto simp: length_payload\<close>)
    moreover have "links ?c xs" using assms(1) by (auto simp: lru_rep_def links_def intro: chain_grow)
    ultimately show ?thesis using True pj pi xs by (auto simp: lru_alloc_def)
  next
    case False
    then obtain fs i where fs: "lru_free c = fs @ [i]" by (metis rev_exhaust)
    let ?c = "c\<lparr>lru_free := fs, lru_nodes := (lru_nodes c)[i := ?nd]\<rparr>"
    have i: "i < length (lru_nodes c)" "i \<notin> set xs" "i \<notin> set fs"
      using cover dj df fs by auto
    have p: "payload ?c = (payload c)[i := (k, v)]" by (simp add: payload_def map_update)
    have pj: "\<forall>j \<in> set xs. payload ?c ! j = payload c ! j"
      using i(2) by (auto simp: p intro!: nth_list_update_neq)
    have pi: "payload ?c ! i = (k, v)" using i(1) by (simp add: p length_payload)
    have "slots_ok (?c\<lparr>lru_map := fmupd k i (lru_map ?c)\<rparr>) (i # xs)"
      by (rule slots_ok_alloc [OF so assms(3) i(2)])
        (use pj pi i cover dj df fs so p in \<open>auto simp: length_payload slots_ok_def\<close>)
    moreover have "links ?c xs"
      using assms(1) i(2) by (simp add: lru_rep_def links_def chain_frame)
    ultimately show ?thesis using fs i pj pi by (auto simp: lru_alloc_def set_node_def Let_def)
  qed
qed

lemma lru_put_absent:
  assumes "lru_inv c" "fmlookup (lru_map c) k = None"
  shows "\<exists>c'. lru_put k v c = Some c' \<and> lru_inv c' \<and> lru_capacity c' = lru_capacity c \<and>
    lru_items c' = (k, v) # (if lru_capacity c \<le> length (lru_items c) then butlast (lru_items c)
                             else lru_items c)"
proof -
  let ?xs = "lru_order c"
  let ?ys = "if lru_capacity c \<le> length ?xs then butlast ?xs else ?xs"
  have r: "lru_rep c ?xs" using assms by (simp add: lru_inv_def)
  obtain c1 where c1: "lru_evict c = Some c1" "lru_rep c1 ?ys" "payload c1 = payload c"
    "lru_capacity c1 = lru_capacity c" "fmlookup (lru_map c1) k = None"
    using lru_evict_spec [OF r] assms(2) by blast
  have "0 < lru_capacity c" using r by (simp add: lru_rep_def slots_ok_def)
  then have "length ?ys < lru_capacity c1" using lru_rep_length [OF r] c1(4) by auto
  then obtain i c2 where c2: "lru_alloc k v c1 = Some (i, c2)" "i \<notin> set ?ys" "i < length (lru_nodes c2)"
    "links c2 ?ys" "slots_ok (c2\<lparr>lru_map := fmupd k i (lru_map c2)\<rparr>) (i # ?ys)"
    "\<forall>j \<in> set ?ys. payload c2 ! j = payload c1 ! j" "payload c2 ! i = (k, v)"
    "lru_capacity c2 = lru_capacity c1"
    using lru_alloc_spec [OF c1(2) _ c1(5)] by blast
  let ?c = "c2\<lparr>lru_map := fmupd k i (lru_map c2)\<rparr>"
  have "links ?c ?ys" "i < length (lru_nodes ?c)" using c2(3,4) by simp_all
  then obtain c3 where c3: "link_front i ?c = Some c3" "links c3 (i # ?ys)" "same_entries ?c c3"
    using link_front_links c2(2) by blast
  have "slots_ok c3 (i # ?ys)" using c2(5) slots_ok_cong [OF c3(3) refl] by blast
  with c3(2) have r3: "lru_rep c3 (i # ?ys)" by (simp add: lru_rep_def)
  have "payload c3 = payload c2" using c3(3) by (simp add: same_entries_def)
  then have "lru_items c3 = (k, v) # map (\<lambda>j. payload c ! j) ?ys"
    using c2(6,7) c1(3) by (simp add: lru_rep_items [OF r3])
  then have "lru_items c3 = (k, v) # (if lru_capacity c \<le> length (lru_items c)
      then butlast (lru_items c) else lru_items c)"
    by (simp add: lru_items_def map_butlast)
  moreover have "lru_capacity c3 = lru_capacity c"
    using c3(3) c2(8) c1(4) by (simp add: same_entries_def)
  moreover have "lru_put k v c = Some c3"
    using assms(2) c1(1) c2(1) c3(1) by (simp add: lru_put_def)
  ultimately show ?thesis using lru_rep_inv [OF r3] by blast
qed

lemma lru_put_spec:
  assumes "lru_inv c"
  shows "\<exists>c'. lru_put k v c = Some c' \<and> lru_inv c' \<and> lru_capacity c' = lru_capacity c \<and>
              lru_items c' = alru_put (lru_capacity c) k v (lru_items c)"
proof -
  have r: "lru_rep c (lru_order c)" using assms by (simp add: lru_inv_def)
  have "map_of (lru_items c) k = None \<longleftrightarrow> fmlookup (lru_map c) k = None"
    using lru_abs_lookup [OF r, of k] by (simp add: lru_abs_def)
  then show ?thesis
    using lru_put_present [OF assms, of k _ v] lru_put_absent [OF assms, of k v]
    by (cases "fmlookup (lru_map c) k") (auto simp: alru_put_def)
qed

lemma lru_invalidate_spec:
  assumes "lru_inv c"
  shows "\<exists>c'. lru_invalidate k c = Some c' \<and> lru_inv c' \<and> lru_capacity c' = lru_capacity c \<and>
              lru_items c' = alru_invalidate k (lru_items c)"
proof (cases "fmlookup (lru_map c) k")
  case None
  have r: "lru_rep c (lru_order c)" using assms by (simp add: lru_inv_def)
  have "map_of (lru_items c) k = None" using lru_abs_lookup [OF r, of k] None by (simp add: lru_abs_def)
  then have "alru_invalidate k (lru_items c) = lru_items c"
    by (force simp: alru_invalidate_def map_of_eq_None_iff intro!: filter_True)
  then show ?thesis using None assms by (simp add: lru_invalidate_def)
next
  case (Some i)
  have r: "lru_rep c (lru_order c)" using assms by (simp add: lru_inv_def)
  have i: "i \<in> set (lru_order c)" "fst (payload c ! i) = k" using lru_rep_lookup [OF r] Some by auto
  obtain ys zs where xs: "lru_order c = ys @ i # zs" using i(1) by (meson split_list)
  let ?c = "c\<lparr>lru_map := fmdrop k (lru_map c)\<rparr>"
  have "links ?c (ys @ i # zs)" using r xs by (simp add: lru_rep_def)
  then obtain c1 where c1: "remove_node i ?c = Some c1" "links c1 (ys @ zs)" "same_entries ?c c1"
    using remove_node_links by blast
  let ?d = "c1\<lparr>lru_free := lru_free c1 @ [i]\<rparr>"
  have "slots_ok ?d (ys @ zs)"
    using slots_ok_free [of c ys i zs k ?d] r xs i(2) c1(3)
    by (simp add: lru_rep_def links_def same_entries_def)
  with c1(2) have rd: "lru_rep ?d (ys @ zs)" by (simp add: lru_rep_def)
  have "lru_items ?d = map (\<lambda>i. payload c ! i) (ys @ zs)"
    using c1(3) unfolding lru_rep_items [OF rd] by (simp add: same_entries_def)
  moreover have "alru_invalidate k (lru_items c) = map (\<lambda>i. payload c ! i) (ys @ zs)"
    using items_without [of c ys i zs k] r xs i(2) by (metis alru_invalidate_def lru_items_def)
  moreover have "lru_capacity ?d = lru_capacity c" using c1(3) by (simp add: same_entries_def)
  ultimately show ?thesis
    using Some c1(1) lru_rep_inv [OF rd] by (simp add: lru_invalidate_def)
qed

section \<open>The cache contract\<close>

lemma alru_touch_abs:
  "map_of l k = Some v \<Longrightarrow> map_of (alru_touch k v l) = map_of l"
  "map_of (alru_touch k w l) = (map_of l)(k \<mapsto> w)"
  by (auto simp: alru_touch_def map_of_filter_neq)

lemma alru_put_abs:
  assumes "distinct (map fst l)"
  shows "map_of (alru_put n k v l) k = Some v" "map_of (alru_put n k v l) \<subseteq>\<^sub>m (map_of l)(k \<mapsto> v)"
proof -
  have "map_of (butlast l) \<subseteq>\<^sub>m map_of l"
    using assms by (cases l rule: rev_cases) (auto simp: map_le_def map_add_def split: option.splits)
  then have "(map_of (butlast l))(k \<mapsto> v) \<subseteq>\<^sub>m (map_of l)(k \<mapsto> v)" by (rule map_le_upd)
  then show "map_of (alru_put n k v l) \<subseteq>\<^sub>m (map_of l)(k \<mapsto> v)"
    by (auto simp: alru_put_def alru_touch_abs)
  show "map_of (alru_put n k v l) k = Some v" by (auto simp: alru_put_def alru_touch_abs)
qed

interpretation lru: bounded_cache lru_inv lru_abs lru_get lru_put lru_invalidate lru_capacity
proof
  fix c :: "('a, 'b) lru_inner" and k v
  assume inv: "lru_inv c"
  show "\<exists>c'. lru_get k c = Some (lru_abs c k, c') \<and> lru_inv c' \<and> lru_abs c' = lru_abs c"
    using lru_get_spec [OF inv, of k]
    by (auto simp: lru_abs_def alru_get_def alru_touch_abs(1) split: option.splits)
  show "\<exists>c'. lru_put k v c = Some c' \<and> lru_inv c' \<and> lru_abs c' k = Some v \<and>
             lru_abs c' \<subseteq>\<^sub>m (lru_abs c)(k \<mapsto> v)"
    using lru_put_spec [OF inv, of k v] alru_put_abs [OF lru_items_distinct [OF inv]]
    by (auto simp: lru_abs_def)
  show "\<exists>c'. lru_invalidate k c = Some c' \<and> lru_inv c' \<and> lru_abs c' = (lru_abs c)(k := None)"
    using lru_invalidate_spec [OF inv, of k]
    by (auto simp: lru_abs_def alru_invalidate_def map_of_filter_neq)
  have "length (lru_items c) \<le> lru_capacity c"
    using lru_rep_length inv by (auto simp: lru_items_def lru_inv_def)
  moreover have "card (dom (lru_abs c)) \<le> length (lru_items c)"
    by (simp add: lru_abs_def dom_map_of_conv_image_fst card_length [of "map fst (lru_items c)", simplified])
  ultimately show "finite (dom (lru_abs c)) \<and> card (dom (lru_abs c)) \<le> lru_capacity c"
    by (simp add: lru_abs_def finite_dom_map_of)
  show "lru_get k c = Some (r, c') \<Longrightarrow> lru_capacity c' = lru_capacity c" for r c'
    using lru_get_spec [OF inv, of k] by (auto simp: same_entries_def)
  show "lru_put k v c = Some c' \<Longrightarrow> lru_capacity c' = lru_capacity c" for c'
    using lru_put_spec [OF inv, of k v] by auto
  show "lru_invalidate k c = Some c' \<Longrightarrow> lru_capacity c' = lru_capacity c" for c'
    using lru_invalidate_spec [OF inv, of k] by auto
qed

section \<open>Properties\<close>

text \<open>One call on the abstract list.\<close>

fun alru_op :: "nat \<Rightarrow> ('k, 'v) cache_op \<Rightarrow> ('k \<times> 'v) list \<Rightarrow> ('k \<times> 'v) list" where
  "alru_op cap (CacheGet k) l = alru_get k l"
| "alru_op cap (CachePut k v) l = alru_put cap k v l"
| "alru_op cap (CacheInvalidate k) l = alru_invalidate k l"

lemma lru_inv_bounds: "lru_inv c \<Longrightarrow> length (lru_items c) \<le> lru_capacity c \<and> length (lru_nodes c) \<le> lru_capacity c"
  using lru_rep_length [of c "lru_order c"]
  by (simp add: lru_items_def lru_inv_def lru_rep_def slots_ok_def length_payload)

lemma lru_new_inv: "lru_new n = Some c \<Longrightarrow> lru_inv c \<and> lru_capacity c = n \<and> lru_items c = []"
  using lru_new_rep [of n c] lru_rep_items [of c "[]"] by (auto intro: lru_rep_inv)

lemma lru_run_items:
  "lru_inv c \<Longrightarrow> \<exists>c'. cache_run lru_get lru_put lru_invalidate ops c = Some c' \<and> lru_inv c' \<and>
     lru_capacity c' = lru_capacity c \<and> lru_items c' = fold (alru_op (lru_capacity c)) ops (lru_items c)"
proof (induction ops arbitrary: c)
  case Nil
  then show ?case by simp
next
  case (Cons op ops)
  show ?case
  proof (cases op)
    case (CacheGet k)
    then show ?thesis
      using lru_get_spec [OF Cons.prems, of k] Cons.IH by (fastforce simp: same_entries_def)
  next
    case (CachePut k v)
    then show ?thesis using lru_put_spec [OF Cons.prems, of k v] Cons.IH by fastforce
  next
    case (CacheInvalidate k)
    then show ?thesis using lru_invalidate_spec [OF Cons.prems, of k] Cons.IH by fastforce
  qed
qed

text \<open>
  C15: The LRU cache implements the least-recently-used policy. From a new cache no sequence of
  calls panics (no index is out of bounds, although links and slots are reused); the linked
  entries are those of the abstract recency list; neither they nor the node vector ever exceed
  the capacity; and a lookup answers from that list.
\<close>

theorem lru_history:
  assumes "lru_new cap = Some c"
  shows "\<exists>c' c''. cache_run lru_get lru_put lru_invalidate ops c = Some c' \<and>
    lru_items c' = fold (alru_op cap) ops [] \<and>
    length (lru_items c') \<le> cap \<and> length (lru_nodes c') \<le> cap \<and>
    lru_get k c' = Some (map_of (fold (alru_op cap) ops []) k, c'')"
proof -
  have c: "lru_inv c" "lru_capacity c = cap" "lru_items c = []"
    using lru_new_inv [OF assms] by auto
  then obtain c' where "cache_run lru_get lru_put lru_invalidate ops c = Some c'" "lru_inv c'"
    "lru_capacity c' = cap" "lru_items c' = fold (alru_op cap) ops []"
    using lru_run_items [OF c(1), of ops] by auto
  then show ?thesis using lru_get_spec [of c' k] lru_inv_bounds [of c'] by (auto simp: lru_abs_def)
qed

theorem lru_history_witness:
  "\<exists>c c' c''. lru_new 2 = Some c \<and>
     cache_run lru_get lru_put lru_invalidate
       [CachePut (1::nat) ''a'', CachePut 2 ''b'', CacheGet 1, CachePut 3 ''c''] c = Some c' \<and>
     lru_items c' = [(3, ''c''), (1, ''a'')] \<and> lru_get 2 c' = Some (None, c'')"
proof -
  obtain c :: "(nat, string) lru_inner" where c: "lru_new 2 = Some c" by (simp add: lru_new_def)
  show ?thesis
    using lru_history [OF c, of "[CachePut (1::nat) ''a'', CachePut 2 ''b'', CacheGet 1, CachePut 3 ''c'']" 2] c
    by (fastforce simp: alru_get_def alru_put_def alru_touch_def)
qed

text \<open>
  No LRU history serves a stale or foreign value: a lookup answers nothing, or the value of
  the last put of the key with no invalidation after it.
\<close>

theorem lru_never_stale:
  assumes "lru_new cap = Some c" and "cache_run lru_get lru_put lru_invalidate ops c = Some c'"
  shows "\<exists>r c''. lru_get k c' = Some (r, c'') \<and> (r = None \<or> r = ideal_run ops Map.empty k)"
proof -
  have "lru_inv c" "lru_abs c \<subseteq>\<^sub>m Map.empty"
    using lru_new_inv [OF assms(1)] by (auto simp: lru_abs_def)
  then show ?thesis by (rule lru.get_after_run) (rule assms(2))
qed

theorem lru_never_stale_witness:
  "\<exists>c c' r c''. lru_new 1 = Some c \<and>
     cache_run lru_get lru_put lru_invalidate [CachePut (1::nat) ''a'', CachePut 2 ''b''] c = Some c' \<and>
     lru_get 2 c' = Some (r, c'') \<and> (r = None \<or> r = Some ''b'')"
proof -
  obtain c :: "(nat, string) lru_inner" where c: "lru_new 1 = Some c" by (simp add: lru_new_def)
  obtain c' where r: "cache_run lru_get lru_put lru_invalidate [CachePut (1::nat) ''a'', CachePut 2 ''b''] c = Some c'"
    using lru_run_items lru_new_inv [OF c] by metis
  show ?thesis using lru_never_stale [OF c r, of 2] c r by auto
qed

end
