(* ===== verification/Wal.thy ===== *)
theory Wal
  imports Json
begin

text \<open>
  The write-ahead log of src/wal.rs: commands, the checksummed envelope around them, appending
  a line, truncating, and the two readers. A file is the text it holds. The JSON encoding of
  commands and envelopes (\<open>serde_json\<close>) and the checksum (\<open>crc32fast\<close>) are third-party code and
  so parameters; \<open>wal_codec_ok\<close> and \<open>wal_torn_ok\<close> state what the log relies on.
\<close>

section \<open>Commands and envelopes\<close>

datatype wal_command =
  Put str bytes "u64 option"
| Delete str
| TxCommit "wal_command list"

record wal_envelope =
  env_c :: wal_command
  env_k :: u32
  env_tx_id :: u64

text \<open>\<open>to_string\<close> and \<open>from_str\<close> at the two types, and the CRC of a text.\<close>

record 'n wal_ext = "'n serde" +
  cmd_to_string :: "wal_command \<Rightarrow> str"
  cmd_from_str :: "str \<Rightarrow> wal_command option"
  env_to_string :: "wal_envelope \<Rightarrow> str"
  env_from_str :: "str \<Rightarrow> wal_envelope option"
  crc32 :: "str \<Rightarrow> u32"

section \<open>Files\<close>

text \<open>A path holds nothing, something that cannot be read, or a text.\<close>

datatype file_state = Absent | Unreadable | Content str

datatype io_error = WriteError | SyncError | ReadError

text \<open>
  How a write ends: everything written and synced, an error after the first \<open>n\<close> characters, or
  everything written and the sync failed. The environment chooses.
\<close>

datatype write_outcome = Written | Torn nat | NotSynced

definition newline :: char where
  "newline = CHR 0x0A"

definition carriage_return :: char where
  "carriage_return = CHR 0x0D"

text \<open>
  \<open>BufRead::lines\<close>: split at newlines; a carriage return before the newline goes with it, and
  nothing follows the last newline.
\<close>

definition strip_cr :: "str \<Rightarrow> str" where
  "strip_cr l = (if l \<noteq> [] \<and> last l = carriage_return then butlast l else l)"

function file_lines :: "str \<Rightarrow> str list" where
  "file_lines s =
     (if s = [] then []
      else (case dropWhile (\<lambda>c. c \<noteq> newline) s of
              [] \<Rightarrow> [s]
            | _ # r \<Rightarrow> strip_cr (takeWhile (\<lambda>c. c \<noteq> newline) s) # file_lines r))"
  by pat_completeness auto
termination
proof (relation "measure length", goal_cases)
  case (2 s x r)
  then show ?case using length_dropWhile_le [of "\<lambda>c. c \<noteq> newline" s] by simp
qed simp

declare file_lines.simps [simp del]

definition is_blank :: "str \<Rightarrow> bool" where
  "is_blank line = list_all is_whitespace line"

section \<open>Operations\<close>

text \<open>The line \<open>append\<close> writes for a command: the envelope with the checksum of the command.\<close>

definition envelope_of :: "('n, 'z) wal_ext_scheme \<Rightarrow> u64 \<Rightarrow> wal_command \<Rightarrow> wal_envelope" where
  "envelope_of x tx_id cmd = \<lparr>env_c = cmd, env_k = crc32 x (cmd_to_string x cmd), env_tx_id = tx_id\<rparr>"

definition wal_append ::
  "('n, 'z) wal_ext_scheme \<Rightarrow> write_outcome \<Rightarrow> u64 \<Rightarrow> wal_command \<Rightarrow> str \<Rightarrow> (io_error + unit) \<times> str" where
  "wal_append x out tx_id cmd file =
     (let json = env_to_string x (envelope_of x tx_id cmd) @ [newline]
      in case out of
           Written \<Rightarrow> (Inr (), file @ json)
         | Torn n \<Rightarrow> (Inl WriteError, file @ take n json)
         | NotSynced \<Rightarrow> (Inl SyncError, file @ json))"

definition wal_truncate :: "str \<Rightarrow> (io_error + unit) \<times> str" where
  "wal_truncate file = (Inr (), [])"

text \<open>One line of \<open>read_all_commands\<close>: a checked envelope, an entry of the old format, or nothing.\<close>

definition read_command :: "('n, 'z) wal_ext_scheme \<Rightarrow> str \<Rightarrow> (u64 \<times> wal_command) option" where
  "read_command x line =
     (if is_blank line then None
      else (case env_from_str x line of
              Some envelope \<Rightarrow>
                if crc32 x (cmd_to_string x (env_c envelope)) = env_k envelope
                then Some (env_tx_id envelope, env_c envelope) else None
            | None \<Rightarrow>
                (case cmd_from_str x line of
                   Some cmd \<Rightarrow> Some (0, cmd)
                 | None \<Rightarrow> None)))"

definition read_all_commands ::
  "('n, 'z) wal_ext_scheme \<Rightarrow> file_state \<Rightarrow> io_error + (u64 \<times> wal_command) list" where
  "read_all_commands x file =
     (case file of
        Absent \<Rightarrow> Inr []
      | Unreadable \<Rightarrow> Inl ReadError
      | Content s \<Rightarrow> Inr (List.map_filter (read_command x) (file_lines s)))"

text \<open>One line of \<open>read_from_tx_id\<close>: a checked envelope with a large enough number, as its text.\<close>

definition read_record :: "('n, 'z) wal_ext_scheme \<Rightarrow> u64 \<Rightarrow> str \<Rightarrow> (u64 \<times> str) option" where
  "read_record x start_tx_id line =
     (if is_blank line then None
      else (case env_from_str x line of
              Some envelope \<Rightarrow>
                if start_tx_id \<le> env_tx_id envelope \<and>
                   crc32 x (cmd_to_string x (env_c envelope)) = env_k envelope
                then Some (env_tx_id envelope, line) else None
            | None \<Rightarrow> None))"

definition read_from_tx_id ::
  "('n, 'z) wal_ext_scheme \<Rightarrow> file_state \<Rightarrow> u64 \<Rightarrow> io_error + (u64 \<times> str) list" where
  "read_from_tx_id x file start_tx_id =
     (case file of
        Absent \<Rightarrow> Inr []
      | Unreadable \<Rightarrow> Inl ReadError
      | Content s \<Rightarrow> Inr (List.map_filter (read_record x start_tx_id) (file_lines s)))"

section \<open>What the log relies on\<close>

text \<open>
  \<open>serde_json\<close> reads back what it wrote, and writes compact JSON: one line, with control
  characters escaped, that is not blank.
\<close>

definition wal_codec_ok :: "('n, 'z) wal_ext_scheme \<Rightarrow> bool" where
  "wal_codec_ok x \<longleftrightarrow>
     (\<forall>e. env_from_str x (env_to_string x e) = Some e) \<and>
     (\<forall>e. newline \<notin> set (env_to_string x e) \<and> carriage_return \<notin> set (env_to_string x e) \<and>
          \<not> is_blank (env_to_string x e))"

text \<open>A JSON object cut short is no JSON text.\<close>

definition wal_torn_ok :: "('n, 'z) wal_ext_scheme \<Rightarrow> bool" where
  "wal_torn_ok x \<longleftrightarrow>
     (\<forall>e n. n < length (env_to_string x e) \<longrightarrow>
        env_from_str x (take n (env_to_string x e)) = None \<and>
        cmd_from_str x (take n (env_to_string x e)) = None)"

section \<open>Reading lines\<close>

text \<open>A file is at a line boundary when it is empty or ends in a newline.\<close>

definition at_boundary :: "str \<Rightarrow> bool" where
  "at_boundary s \<longleftrightarrow> s = [] \<or> last s = newline"

lemma file_lines_Nil [simp]: "file_lines [] = []"
  by (simp add: file_lines.simps)

lemma file_lines_line: "newline \<notin> set l \<Longrightarrow> file_lines (l @ newline # r) = strip_cr l # file_lines r"
proof -
  assume l: "newline \<notin> set l"
  then have a: "list_all (\<lambda>c. c \<noteq> newline) l" by (auto simp: list_all_iff)
  have d: "dropWhile (\<lambda>c. c \<noteq> newline) (l @ newline # r) = newline # r"
    and t: "takeWhile (\<lambda>c. c \<noteq> newline) (l @ newline # r) = l"
    using takeWhile_until [OF a] by simp_all
  show ?thesis unfolding file_lines.simps [of "l @ newline # r"] d t by simp
qed

lemma file_lines_last: "newline \<notin> set l \<Longrightarrow> l \<noteq> [] \<Longrightarrow> file_lines l = [l]"
proof -
  assume l: "newline \<notin> set l" "l \<noteq> []"
  from l(1) have d: "dropWhile (\<lambda>c. c \<noteq> newline) l = []"
    by (auto simp: dropWhile_eq_Nil_conv)
  show ?thesis unfolding file_lines.simps [of l] d using l(2) by simp
qed

lemma file_lines_append: "at_boundary s \<Longrightarrow> file_lines (s @ t) = file_lines s @ file_lines t"
proof (induction s rule: file_lines.induct)
  case (1 s)
  show ?case
  proof (cases "s = []")
    case False
    let ?l = "takeWhile (\<lambda>c. c \<noteq> newline) s"
    have "newline \<in> set s" using "1.prems" False by (metis at_boundary_def last_in_set)
    then obtain r where d: "dropWhile (\<lambda>c. c \<noteq> newline) s = newline # r"
      by (metis (mono_tags, lifting) dropWhile_eq_Nil_conv hd_dropWhile list.collapse)
    have s: "s = ?l @ newline # r" using takeWhile_dropWhile_id [of "\<lambda>c. c \<noteq> newline" s] unfolding d by simp
    have l: "newline \<notin> set ?l" by (auto dest: set_takeWhileD)
    have "at_boundary r" using "1.prems" False s unfolding at_boundary_def
      by (metis last.simps last_append list.distinct(1))
    with "1.IH" [OF False d] have "file_lines (r @ t) = file_lines r @ file_lines t" by simp
    then show ?thesis
      using file_lines_line [OF l, of r] file_lines_line [OF l, of "r @ t"] s
      by (metis append.assoc append_Cons)
  qed simp
qed

lemma strip_cr_id: "carriage_return \<notin> set l \<Longrightarrow> strip_cr l = l"
  unfolding strip_cr_def by (metis last_in_set)

lemma map_filter_append: "List.map_filter f (xs @ ys) = List.map_filter f xs @ List.map_filter f ys"
  by (simp add: List.map_filter_def)

lemma map_filter_simps: "List.map_filter f [] = []"
  "List.map_filter f (x # xs) = (case f x of None \<Rightarrow> List.map_filter f xs | Some y \<Rightarrow> y # List.map_filter f xs)"
  by (auto simp: List.map_filter_def split: option.splits)

section \<open>The log as a list of commands\<close>

lemma wal_codec_ok_line:
  assumes "wal_codec_ok x"
  shows "newline \<notin> set (env_to_string x e)" "strip_cr (env_to_string x e) = env_to_string x e"
    "\<not> is_blank (env_to_string x e)" "env_to_string x e \<noteq> []" "env_from_str x (env_to_string x e) = Some e"
proof -
  have "\<not> is_blank (env_to_string x e)" using assms by (simp add: wal_codec_ok_def)
  then show "env_to_string x e \<noteq> []" by (auto simp: is_blank_def)
qed (use assms in \<open>auto simp: wal_codec_ok_def intro: strip_cr_id\<close>)

lemma read_command_own:
  "wal_codec_ok x \<Longrightarrow> read_command x (env_to_string x (envelope_of x tx c)) = Some (tx, c)"
  by (simp add: read_command_def wal_codec_ok_line envelope_of_def)

lemma read_record_own:
  "wal_codec_ok x \<Longrightarrow>
   read_record x from_tx (env_to_string x (envelope_of x tx c)) =
     (if from_tx \<le> tx then Some (tx, env_to_string x (envelope_of x tx c)) else None)"
  using wal_codec_ok_line [of x "envelope_of x tx c"] by (simp add: read_record_def envelope_of_def)

text \<open>The text of a log: the lines of its entries, as a list of appends writes them.\<close>

definition entry_line :: "('n, 'z) wal_ext_scheme \<Rightarrow> u64 \<times> wal_command \<Rightarrow> str" where
  "entry_line x e = env_to_string x (envelope_of x (fst e) (snd e)) @ [newline]"

definition log_text :: "('n, 'z) wal_ext_scheme \<Rightarrow> (u64 \<times> wal_command) list \<Rightarrow> str" where
  "log_text x es = concat (map (entry_line x) es)"

lemma at_boundary_line: "at_boundary (s @ l @ [newline])"
  by (simp add: at_boundary_def)

lemma at_boundary_log_text: "at_boundary (log_text x es)"
  by (cases es rule: rev_cases) (simp_all add: log_text_def entry_line_def at_boundary_def)

lemma log_text_snoc: "log_text x (es @ [e]) = log_text x es @ entry_line x e"
  by (simp add: log_text_def)

lemma wal_append_written: "wal_append x Written tx c file = (Inr (), file @ entry_line x (tx, c))"
  by (simp add: wal_append_def entry_line_def)

lemma file_lines_entry:
  "wal_codec_ok x \<Longrightarrow> at_boundary s \<Longrightarrow>
   file_lines (s @ entry_line x e) = file_lines s @ [env_to_string x (envelope_of x (fst e) (snd e))]"
  using file_lines_line [OF wal_codec_ok_line(1), of x "envelope_of x (fst e) (snd e)" "[]"]
  by (simp add: file_lines_append entry_line_def wal_codec_ok_line)

lemma read_all_entry:
  assumes "wal_codec_ok x" "at_boundary s" "read_all_commands x (Content s) = Inr cs"
  shows "read_all_commands x (Content (s @ entry_line x (tx, c))) = Inr (cs @ [(tx, c)])"
  using assms
  by (simp add: read_all_commands_def file_lines_entry map_filter_append map_filter_simps read_command_own)

lemma read_all_log_text: "wal_codec_ok x \<Longrightarrow> read_all_commands x (Content (log_text x es)) = Inr es"
proof (induction es rule: rev_induct)
  case Nil
  then show ?case by (simp add: read_all_commands_def log_text_def map_filter_simps)
next
  case (snoc e es)
  then show ?case
    using read_all_entry [OF snoc.prems at_boundary_log_text snoc.IH [OF snoc.prems], of "fst e" "snd e"]
    by (simp add: log_text_snoc)
qed

lemma read_from_log_text:
  "wal_codec_ok x \<Longrightarrow> read_from_tx_id x (Content (log_text x es)) n =
     Inr (map (\<lambda>(tx, c). (tx, env_to_string x (envelope_of x tx c))) (filter (\<lambda>(tx, c). n \<le> tx) es))"
proof (induction es rule: rev_induct)
  case Nil
  then show ?case by (simp add: read_from_tx_id_def log_text_def map_filter_simps)
next
  case (snoc e es)
  then show ?case
    by (cases e) (auto simp: read_from_tx_id_def log_text_snoc file_lines_entry at_boundary_log_text
        map_filter_append map_filter_simps read_record_own)
qed

section \<open>Torn writes\<close>

text \<open>A torn write loses its own entry only: the readers skip the incomplete last line.\<close>

lemma read_all_torn:
  assumes "wal_codec_ok x" "wal_torn_ok x" "at_boundary s"
    and "n < length (env_to_string x (envelope_of x tx c))"
  shows "read_all_commands x (Content (snd (wal_append x (Torn n) tx c s))) =
         read_all_commands x (Content s)"
proof -
  let ?l = "env_to_string x (envelope_of x tx c)"
  have cut: "take n (?l @ [newline]) = take n ?l" using assms(4) by simp
  have nl: "newline \<notin> set (take n ?l)"
    using wal_codec_ok_line(1) [OF assms(1)] in_set_takeD by metis
  have "List.map_filter (read_command x) (file_lines (take n ?l)) = []"
  proof (cases "take n ?l = []")
    case True
    show ?thesis unfolding True by (simp add: map_filter_simps)
  next
    case False
    have "read_command x (take n ?l) = None"
      using assms(2,4) by (simp add: read_command_def wal_torn_ok_def)
    with file_lines_last [OF nl False] show ?thesis by (simp add: map_filter_simps)
  qed
  then show ?thesis
    using assms(3) cut
    by (simp add: wal_append_def read_all_commands_def file_lines_append map_filter_append)
qed

text \<open>
  The next entry is appended to the incomplete line, though. It shares that line, and if the
  glued text is not itself an entry, the reader loses the new entry, which was acknowledged.
\<close>

lemma read_all_after_torn:
  assumes "wal_codec_ok x" "at_boundary s"
    and "n < length (env_to_string x (envelope_of x tx c))"
    and glued: "read_command x (take n (env_to_string x (envelope_of x tx c)) @
                  env_to_string x (envelope_of x tx' c')) = None"
  shows "read_all_commands x (Content (snd (wal_append x Written tx' c' (snd (wal_append x (Torn n) tx c s))))) =
         read_all_commands x (Content s)"
proof -
  let ?l = "take n (env_to_string x (envelope_of x tx c)) @ env_to_string x (envelope_of x tx' c')"
  have "newline \<notin> set ?l" "carriage_return \<notin> set ?l"
    using assms(1) by (auto simp: wal_codec_ok_def dest: in_set_takeD)
  then have "file_lines (?l @ [newline]) = [?l]"
    using file_lines_line [of ?l "[]"] by (simp add: strip_cr_id)
  moreover have "snd (wal_append x Written tx' c' (snd (wal_append x (Torn n) tx c s))) = s @ ?l @ [newline]"
    using assms(3) by (simp add: wal_append_def)
  ultimately show ?thesis
    using assms(2) glued
    by (simp add: read_all_commands_def file_lines_append map_filter_append map_filter_simps)
qed

end
