(* ===== verification/Server_State.thy ===== *)
theory Server_State
  imports Secondary_Index Lru_Cache Wal
begin

text \<open>
  The state of the server (\<open>KindServerImpl\<close> of src/server.rs) and the helpers its handlers
  share: expiry, filters, indexing a record, appending to the log. \<open>Arc\<close>, \<open>RwLock\<close> and the
  skip lists' lock-freedom are sharing, not data: a handler is one step on one state. The log,
  the schema and the snapshot are files of \<open>sv_disk\<close>. The clock, the outcome of a log write
  and the JSON codecs are parameters of a step.
\<close>

section \<open>Records and the environment\<close>

record db_record =
  rec_value :: bytes
  rec_expires :: "u64 option"
  rec_version :: u64

record snapshot_record =
  snap_key :: str
  snap_record :: db_record

text \<open>The codecs of the log and, in addition, of snapshot lines.\<close>

record 'n ext = "'n wal_ext" +
  snap_to_string :: "snapshot_record \<Rightarrow> str"
  snap_from_str :: "str \<Rightarrow> snapshot_record option"

text \<open>
  What a step finds: the clock in milliseconds since the epoch (\<open>None\<close> if it is set before it),
  read once per step, and how the step's write to the log ends.
\<close>

record env =
  en_now :: "nat option"
  en_wal :: write_outcome

text \<open>\<open>as u64\<close> keeps the low 64 bits of the 128-bit number of milliseconds.\<close>

definition is_expired :: "nat option \<Rightarrow> u64 option \<Rightarrow> bool" where
  "is_expired now expires_at =
     (case expires_at of
        Some exp \<Rightarrow> (case now of Some ms \<Rightarrow> exp < word_of_nat ms | None \<Rightarrow> False)
      | None \<Rightarrow> False)"

text \<open>
  The expiry time of a time to live. The outer \<open>None\<close> is the panic of \<open>unwrap\<close> on a clock before
  the epoch; the sum wraps, as it does in a release build.
\<close>

definition ttl_expiry :: "nat option \<Rightarrow> u64 option \<Rightarrow> u64 option option" where
  "ttl_expiry now ttl_ms =
     (case ttl_ms of
        None \<Rightarrow> Some None
      | Some ms \<Rightarrow> (case now of Some t \<Rightarrow> Some (Some (word_of_nat t + ms)) | None \<Rightarrow> None))"

lemma is_expired_None [simp]: "\<not> is_expired now None"
  by (simp add: is_expired_def)

lemma ttl_expiry_None [simp]: "ttl_expiry now None = Some None"
  by (simp add: ttl_expiry_def)

section \<open>Filters\<close>

record scan_filter =
  sf_field :: str
  sf_value :: str

definition matches_filter :: "('n, 'z) serde_scheme \<Rightarrow> (str \<times> 'n json) list \<Rightarrow> scan_filter \<Rightarrow> bool" where
  "matches_filter x obj flt =
     (case map_of obj (sf_field flt) of
        None \<Rightarrow> False
      | Some v \<Rightarrow>
          (case v of
             JString s \<Rightarrow> s = sf_value flt
           | JNumber n \<Rightarrow>
               if num_to_string x n = sf_value flt then True
               else (case (num_as_f64 x n, parse_f64 x (sf_value flt)) of
                       (Some f1, Some f2) \<Rightarrow> f64_near x f1 f2
                     | _ \<Rightarrow> False)
           | JBool b \<Rightarrow> (if b then ''true'' else ''false'') = sf_value flt
           | _ \<Rightarrow> False))"

definition matches_filters :: "('n, 'z) serde_scheme \<Rightarrow> bytes \<Rightarrow> scan_filter list \<Rightarrow> bool" where
  "matches_filters x val filters =
     (if filters = [] then True
      else (case from_slice x val of
              Some json \<Rightarrow>
                (case as_object json of
                   Some obj \<Rightarrow> list_all (matches_filter x obj) filters
                 | None \<Rightarrow> False)
            | None \<Rightarrow> False))"

section \<open>State\<close>

record watch_event =
  we_key :: str
  we_new_value :: "bytes option"
  we_operation_type :: str

text \<open>
  The broadcast channels are the lists of everything sent on them, oldest first. \<open>sv_wal\<close> is the
  path of the open log; \<open>sv_wal_poisoned\<close> says that a thread panicked while holding its lock.
\<close>

record server =
  sv_tree :: "(str, db_record) fmap"
  sv_indexes :: index_map
  sv_cache :: "(str, bytes) lru_inner"
  sv_snapshot_path :: "str option"
  sv_schema_registry :: registry
  sv_wal :: "str option"
  sv_wal_poisoned :: bool
  sv_global_version :: u64
  sv_watch :: "watch_event list"
  sv_wal_path :: "str option"
  sv_is_replica :: bool
  sv_sync :: "(u64 \<times> wal_command) list"
  sv_disk :: "str \<Rightarrow> file_state"

text \<open>\<open>Status\<close>: what a handler answers instead of a response.\<close>

datatype status = PermissionDenied str | NotFound str | Internal str

text \<open>A handler: \<open>None\<close> if it panics, otherwise its answer and the state after it.\<close>

type_synonym 'r handled = "((status + 'r) \<times> server) option"

section \<open>Helpers\<close>

definition index_record :: "('n, 'z) serde_scheme \<Rightarrow> str \<Rightarrow> bytes \<Rightarrow> server \<Rightarrow> server" where
  "index_record x key val sv =
     sv\<lparr>sv_indexes := index_add x (sv_schema_registry sv) key val (sv_indexes sv)\<rparr>"

definition remove_record_from_index :: "('n, 'z) serde_scheme \<Rightarrow> str \<Rightarrow> bytes \<Rightarrow> server \<Rightarrow> server" where
  "remove_record_from_index x key val sv =
     sv\<lparr>sv_indexes := index_del x (sv_schema_registry sv) key val (sv_indexes sv)\<rparr>"

text \<open>\<open>if let Some(old) = tree.get(&key)\<close>: the old record leaves the index.\<close>

definition unindex_old :: "('n, 'z) serde_scheme \<Rightarrow> str \<Rightarrow> server \<Rightarrow> server" where
  "unindex_old x key sv =
     (case fmlookup (sv_tree sv) key of
        Some old \<Rightarrow> remove_record_from_index x key (rec_value old) sv
      | None \<Rightarrow> sv)"

definition tree_insert :: "str \<Rightarrow> db_record \<Rightarrow> server \<Rightarrow> server" where
  "tree_insert key r sv = sv\<lparr>sv_tree := fmupd key r (sv_tree sv)\<rparr>"

definition tree_remove :: "str \<Rightarrow> server \<Rightarrow> server" where
  "tree_remove key sv = sv\<lparr>sv_tree := fmdrop key (sv_tree sv)\<rparr>"

text \<open>\<open>global_version.fetch_add(1, SeqCst) + 1\<close>.\<close>

definition next_version :: "server \<Rightarrow> u64 \<times> server" where
  "next_version sv = (let v = sv_global_version sv + 1 in (v, sv\<lparr>sv_global_version := v\<rparr>))"

text \<open>
  \<open>if let Some(wal) = lock.as_mut() { let _ = wal.append(...) }\<close>: the outcome of the write is
  ignored. Only a file with readable content changes in the model.
\<close>

definition log_command ::
  "('n, 'z) wal_ext_scheme \<Rightarrow> write_outcome \<Rightarrow> u64 \<Rightarrow> wal_command \<Rightarrow> server \<Rightarrow> server" where
  "log_command x out tx_id cmd sv =
     (case sv_wal sv of
        None \<Rightarrow> sv
      | Some path \<Rightarrow>
          (case sv_disk sv path of
             Content s \<Rightarrow> sv\<lparr>sv_disk := (sv_disk sv)(path := Content (snd (wal_append x out tx_id cmd s)))\<rparr>
           | _ \<Rightarrow> sv))"

definition send_sync :: "u64 \<Rightarrow> wal_command \<Rightarrow> server \<Rightarrow> server" where
  "send_sync tx_id cmd sv = sv\<lparr>sv_sync := sv_sync sv @ [(tx_id, cmd)]\<rparr>"

definition send_watch :: "str \<Rightarrow> bytes option \<Rightarrow> str \<Rightarrow> server \<Rightarrow> server" where
  "send_watch key val operation sv =
     sv\<lparr>sv_watch := sv_watch sv @ [\<lparr>we_key = key, we_new_value = val, we_operation_type = operation\<rparr>]\<rparr>"

definition cache_invalidate :: "str \<Rightarrow> server \<Rightarrow> server option" where
  "cache_invalidate key sv = do {
     c \<leftarrow> lru_invalidate key (sv_cache sv);
     Some (sv\<lparr>sv_cache := c\<rparr>)
   }"

definition cache_put :: "str \<Rightarrow> bytes \<Rightarrow> server \<Rightarrow> server option" where
  "cache_put key val sv = do {
     c \<leftarrow> lru_put key val (sv_cache sv);
     Some (sv\<lparr>sv_cache := c\<rparr>)
   }"

declare index_record_def [step_defs] remove_record_from_index_def [step_defs] unindex_old_def [step_defs]
  tree_insert_def [step_defs] tree_remove_def [step_defs] next_version_def [step_defs]
  send_sync_def [step_defs] send_watch_def [step_defs]

section \<open>Scans of the tree\<close>

text \<open>\<open>tree.range(lo..=hi)\<close> and \<open>tree.range(lo..)\<close>: the entries in key order.\<close>

definition tree_range :: "str \<Rightarrow> str \<Rightarrow> (str, 'v) fmap \<Rightarrow> (str \<times> 'v) list" where
  "tree_range lo hi t = filter (\<lambda>(k, _). lo \<le> k \<and> k \<le> hi) (sorted_entries t)"

definition tree_range_from :: "str \<Rightarrow> (str, 'v) fmap \<Rightarrow> (str \<times> 'v) list" where
  "tree_range_from lo t = filter (\<lambda>(k, _). lo \<le> k) (sorted_entries t)"

definition db_range_scan :: "nat option \<Rightarrow> str \<Rightarrow> str \<Rightarrow> server \<Rightarrow> db_record list" where
  "db_range_scan now lo hi sv =
     filter (\<lambda>r. \<not> is_expired now (rec_expires r)) (map snd (tree_range lo hi (sv_tree sv)))"

text \<open>The loop of both prefix scans: it stops at the first key without the prefix.\<close>

fun scan_prefix :: "str \<Rightarrow> (db_record \<Rightarrow> bool) \<Rightarrow> (str \<times> db_record) list \<Rightarrow> (str \<times> db_record) list" where
  "scan_prefix p keep [] = []"
| "scan_prefix p keep ((k, r) # es) =
     (if starts_with k p
      then (if keep r then (k, r) # scan_prefix p keep es else scan_prefix p keep es)
      else [])"

definition db_prefix_scan :: "nat option \<Rightarrow> str \<Rightarrow> server \<Rightarrow> db_record list" where
  "db_prefix_scan now pre sv =
     map snd (scan_prefix pre (\<lambda>r. \<not> is_expired now (rec_expires r)) (tree_range_from pre (sv_tree sv)))"

text \<open>The keys with a prefix are consecutive in key order and start at the prefix.\<close>

lemma prefix_le: "prefix p k \<Longrightarrow> p \<le> (k :: str)"
proof (induction p arbitrary: k)
  case Nil
  then show ?case by simp
next
  case (Cons c p)
  then show ?case by (cases k) auto
qed

lemma prefix_interval:
  assumes "p \<le> k" "k \<le> k'" "prefix p k'"
  shows "prefix p (k :: str)"
  using assms
proof (induction p arbitrary: k k')
  case Nil
  then show ?case by simp
next
  case (Cons c p)
  from Cons.prems obtain k1' where k': "k' = c # k1'" "prefix p k1'" by (auto simp: prefix_def)
  obtain d k1 where k: "k = d # k1" using Cons.prems(1) by (cases k) auto
  have "c = d" "p \<le> k1" "k1 \<le> k1'" using Cons.prems(1,2) unfolding k k' by auto
  then show ?case using Cons.IH [of k1 k1'] k k'(2) by simp
qed

lemma scan_prefix_sorted:
  "sorted (map fst es) \<Longrightarrow> \<forall>(k, r) \<in> set es. p \<le> k \<Longrightarrow>
   scan_prefix p keep es = filter (\<lambda>(k, r). prefix p k \<and> keep r) es"
proof (induction p keep es rule: scan_prefix.induct)
  case (1 p keep)
  then show ?case by simp
next
  case (2 p keep k r es)
  show ?case
  proof (cases "prefix p k")
    case True
    then show ?thesis using 2 by (auto simp: starts_with_def)
  next
    case False
    have "\<not> prefix p k'" if "(k', r') \<in> set es" for k' r'
      using that False prefix_interval [of p k k'] "2.prems" by fastforce
    then have "filter (\<lambda>(k, r). prefix p k \<and> keep r) es = []" by (auto simp: filter_empty_conv)
    then show ?thesis using False by (simp add: starts_with_def)
  qed
qed

lemma sorted_filter_entries: "sorted (map fst (filter P (sorted_entries t)))"
  by (rule sorted_filter [of fst]) (rule sorted_entries_sorted)

lemma scan_prefix_range:
  "scan_prefix p keep (tree_range_from p t) = filter (\<lambda>(k, r). prefix p k \<and> keep r) (sorted_entries t)"
proof -
  have "scan_prefix p keep (tree_range_from p t) = filter (\<lambda>(k, r). prefix p k \<and> keep r) (tree_range_from p t)"
    by (rule scan_prefix_sorted) (auto simp: tree_range_from_def sorted_filter_entries)
  also have "\<dots> = filter (\<lambda>(k, r). prefix p k \<and> keep r) (sorted_entries t)"
    unfolding tree_range_from_def filter_filter by (rule filter_cong) (auto dest: prefix_le)
  finally show ?thesis .
qed

end
