(* ===== verification/Server_Ops.thy ===== *)
theory Server_Ops
  imports Server_State
begin

text \<open>
  The request handlers of src/server.rs (get, put, delete, the scans, query, cas, watch) and the
  background sweep of expired records, each as one step on the server's state.
\<close>

section \<open>Answers\<close>

record kv_record =
  kv_key :: str
  kv_value :: bytes
  kv_expires :: "u64 option"

definition read_only :: status where
  "read_only = PermissionDenied ''Node is a read-only replica''"

definition live :: "nat option \<Rightarrow> db_record \<Rightarrow> bool" where
  "live now r \<longleftrightarrow> \<not> is_expired now (rec_expires r)"

definition answer :: "str \<times> db_record \<Rightarrow> kv_record" where
  "answer e = \<lparr>kv_key = fst e, kv_value = rec_value (snd e), kv_expires = rec_expires (snd e)\<rparr>"

section \<open>Single keys\<close>

definition get :: "('n, 'z) serde_scheme \<Rightarrow> env \<Rightarrow> str \<Rightarrow> server \<Rightarrow> kv_record handled" where
  "get x e key sv = do {
     (hit, c) \<leftarrow> lru_get key (sv_cache sv);
     let sv1 = sv\<lparr>sv_cache := c\<rparr>;
     case hit of
       Some val \<Rightarrow> Some (Inr \<lparr>kv_key = key, kv_value = val, kv_expires = None\<rparr>, sv1)
     | None \<Rightarrow>
         (case fmlookup (sv_tree sv1) key of
            Some r \<Rightarrow>
              if is_expired (en_now e) (rec_expires r)
              then (let sv2 = remove_record_from_index x key (rec_value r) sv1
                    in Some (Inl (NotFound ''Key not found or expired''), tree_remove key sv2))
              else Some (Inr (answer (key, r)), sv1)
          | None \<Rightarrow> Some (Inl (NotFound ''Key not found''), sv1))
   }"

text \<open>
  The common end of a write: a new version, the log (unless its lock is poisoned), the
  replication channel, the tree, the watchers.
\<close>

definition store_write ::
  "('n, 'z) wal_ext_scheme \<Rightarrow> write_outcome \<Rightarrow> bool \<Rightarrow> str \<Rightarrow> bytes \<Rightarrow> u64 option \<Rightarrow> server \<Rightarrow> server" where
  "store_write x out locked key val expires_at sv =
     (let (new_version, sv1) = next_version sv;
          cmd = Put key val expires_at;
          sv2 = (if locked then log_command x out new_version cmd sv1 else sv1);
          sv3 = send_sync new_version cmd sv2;
          sv4 = tree_insert key \<lparr>rec_value = val, rec_expires = expires_at, rec_version = new_version\<rparr> sv3
      in send_watch key (Some val) ''PUT'' sv4)"

definition put ::
  "('n, 'z) wal_ext_scheme \<Rightarrow> env \<Rightarrow> str \<Rightarrow> bytes \<Rightarrow> u64 option \<Rightarrow> server \<Rightarrow> bool handled" where
  "put x e key val ttl_ms sv =
     (if sv_is_replica sv then Some (Inl read_only, sv)
      else do {
        expires_at \<leftarrow> ttl_expiry (en_now e) ttl_ms;
        let sv1 = index_record x key val (unindex_old x key sv);
        sv2 \<leftarrow> (if expires_at = None then cache_put key val sv1 else Some sv1);
        Some (Inr True, store_write x (en_wal e) (\<not> sv_wal_poisoned sv) key val expires_at sv2)
      })"

definition delete :: "('n, 'z) wal_ext_scheme \<Rightarrow> env \<Rightarrow> str \<Rightarrow> server \<Rightarrow> bool handled" where
  "delete x e key sv =
     (if sv_is_replica sv then Some (Inl read_only, sv)
      else (case fmlookup (sv_tree sv) key of
              Some old \<Rightarrow> do {
                let sv1 = tree_remove key (remove_record_from_index x key (rec_value old) sv);
                sv2 \<leftarrow> cache_invalidate key sv1;
                let (new_version, sv3) = next_version sv2;
                let cmd = Delete key;
                let sv4 = (if sv_wal_poisoned sv then sv3 else log_command x (en_wal e) new_version cmd sv3);
                let sv5 = send_sync new_version cmd sv4;
                Some (Inr True, send_watch key None ''DELETE'' sv5)
              }
            | None \<Rightarrow> Some (Inr False, sv)))"

text \<open>Both successful branches of \<open>cas\<close> end alike; the lock of the log is held throughout.\<close>

definition cas_write ::
  "('n, 'z) wal_ext_scheme \<Rightarrow> env \<Rightarrow> str \<Rightarrow> bytes \<Rightarrow> u64 option \<Rightarrow> server \<Rightarrow> bool handled" where
  "cas_write x e key new_val expires_at sv = do {
     let sv1 = index_record x key new_val sv;
     sv2 \<leftarrow> cache_invalidate key sv1;
     Some (Inr True, store_write x (en_wal e) True key new_val expires_at sv2)
   }"

definition cas ::
  "('n, 'z) wal_ext_scheme \<Rightarrow> env \<Rightarrow> str \<Rightarrow> bytes \<Rightarrow> bytes \<Rightarrow> u64 option \<Rightarrow> server \<Rightarrow> bool handled" where
  "cas x e key expected new_val ttl_ms sv =
     (if sv_is_replica sv then Some (Inl read_only, sv)
      else do {
        expires_at \<leftarrow> ttl_expiry (en_now e) ttl_ms;
        let absent = (if expected = [] then cas_write x e key new_val expires_at sv
                      else Some (Inr False, sv));
        if sv_wal_poisoned sv then Some (Inl (Internal ''Lock failed''), sv)
        else (case fmlookup (sv_tree sv) key of
                Some r \<Rightarrow>
                  if is_expired (en_now e) (rec_expires r)
                  then (if expected \<noteq> [] then Some (Inr False, sv) else absent)
                  else if rec_value r = expected
                  then cas_write x e key new_val expires_at (remove_record_from_index x key (rec_value r) sv)
                  else Some (Inr False, sv)
              | None \<Rightarrow> absent)
      })"

section \<open>Scans and queries\<close>

definition range_scan ::
  "('n, 'z) serde_scheme \<Rightarrow> env \<Rightarrow> str \<Rightarrow> str \<Rightarrow> scan_filter list \<Rightarrow> server \<Rightarrow> kv_record list handled" where
  "range_scan x e lo hi filters sv =
     Some (Inr (map answer (filter (\<lambda>(k, r). live (en_now e) r \<and> matches_filters x (rec_value r) filters)
                              (tree_range lo hi (sv_tree sv)))), sv)"

definition prefix_scan ::
  "('n, 'z) serde_scheme \<Rightarrow> env \<Rightarrow> str \<Rightarrow> scan_filter list \<Rightarrow> server \<Rightarrow> kv_record list handled" where
  "prefix_scan x e pre filters sv =
     Some (Inr (map answer (scan_prefix pre (\<lambda>r. live (en_now e) r \<and> matches_filters x (rec_value r) filters)
                              (tree_range_from pre (sv_tree sv)))), sv)"

text \<open>The keys of an index set in order, a window of them, and those of them that still live.\<close>

definition query ::
  "env \<Rightarrow> str \<Rightarrow> str \<Rightarrow> str \<Rightarrow> u32 option \<Rightarrow> u32 option \<Rightarrow> server \<Rightarrow> kv_record list handled" where
  "query e schema_type field val limit offset sv =
     (let idx_key = index_key schema_type field val in
      case fmlookup (sv_indexes sv) idx_key of
        None \<Rightarrow> Some (Inr [], sv)
      | Some skip_set \<Rightarrow>
          (let off = (case offset of Some n \<Rightarrow> unat n | None \<Rightarrow> 0);
               lim = (case limit of Some n \<Rightarrow> unat n | None \<Rightarrow> 100);
               keys = take lim (drop off (sorted_list_of_fset skip_set));
               found = List.map_filter (\<lambda>k. map_option (\<lambda>r. (k, r)) (fmlookup (sv_tree sv) k)) keys
           in Some (Inr (map answer (filter (\<lambda>(k, r). live (en_now e) r) found)), sv)))"

section \<open>Watching\<close>

text \<open>What a subscriber receives from the broadcast channel: an event, or that it fell behind.\<close>

datatype received = Event watch_event | Lagged nat

definition watch_stream :: "str option \<Rightarrow> received list \<Rightarrow> watch_event list" where
  "watch_stream key_prefix rs =
     (let pre = (case key_prefix of Some p \<Rightarrow> p | None \<Rightarrow> [])
      in List.map_filter (\<lambda>res. case res of
            Event ev \<Rightarrow> if starts_with (we_key ev) pre then Some ev else None
          | Lagged _ \<Rightarrow> None) rs)"

section \<open>The sweep of expired records\<close>

definition expired_entries :: "nat option \<Rightarrow> server \<Rightarrow> (str \<times> bytes) list" where
  "expired_entries now sv =
     map (\<lambda>(k, r). (k, rec_value r))
       (filter (\<lambda>(k, r). is_expired now (rec_expires r)) (sorted_entries (sv_tree sv)))"

definition evict_expired :: "('n, 'z) serde_scheme \<Rightarrow> nat option \<Rightarrow> server \<Rightarrow> server" where
  "evict_expired x now sv =
     fold (\<lambda>(key, val) s. tree_remove key (remove_record_from_index x key val s))
       (expired_entries now sv) sv"

end
