(* ===== verification/Store_Invariant.thy ===== *)
theory Store_Invariant
  imports Server_Ops
begin

text \<open>
  The invariants that tie the parts of the server's state together, what each helper does to
  each part, and what each handler does to the state as a whole.
\<close>

section \<open>Invariants\<close>

text \<open>The values of the tree, without expiry and version.\<close>

definition tree_values :: "(str, db_record) fmap \<Rightarrow> str \<rightharpoonup> bytes" where
  "tree_values t k = map_option rec_value (fmlookup t k)"

text \<open>The index is exact: it files each record of the tree under the keys of its current value.\<close>

definition index_ok :: "('n, 'z) serde_scheme \<Rightarrow> server \<Rightarrow> bool" where
  "index_ok x sv \<longleftrightarrow>
     index_agrees (extract_index_keys x (sv_schema_registry sv)) index_has (tree_values (sv_tree sv)) (sv_indexes sv)"

text \<open>The cache is sound: it is well-formed and whatever it holds is a record that never expires.\<close>

definition cache_ok :: "server \<Rightarrow> bool" where
  "cache_ok sv \<longleftrightarrow> lru_inv (sv_cache sv) \<and>
     (\<forall>k v. lru_abs (sv_cache sv) k = Some v \<longrightarrow>
        (\<exists>r. fmlookup (sv_tree sv) k = Some r \<and> rec_value r = v \<and> rec_expires r = None))"

lemma tree_values_simps [simp]:
  "tree_values (fmupd k r t) = (tree_values t)(k \<mapsto> rec_value r)"
  "tree_values (fmdrop k t) = (tree_values t)(k := None)"
  "tree_values fmempty = Map.empty"
  by (auto simp: tree_values_def fun_eq_iff)

section \<open>The helpers, field by field\<close>

text \<open>Writing to the log changes the disk and nothing else.\<close>

lemma log_command_simps [simp]:
  "sv_tree (log_command x out tx cmd sv) = sv_tree sv"
  "sv_indexes (log_command x out tx cmd sv) = sv_indexes sv"
  "sv_cache (log_command x out tx cmd sv) = sv_cache sv"
  "sv_snapshot_path (log_command x out tx cmd sv) = sv_snapshot_path sv"
  "sv_schema_registry (log_command x out tx cmd sv) = sv_schema_registry sv"
  "sv_wal (log_command x out tx cmd sv) = sv_wal sv"
  "sv_wal_poisoned (log_command x out tx cmd sv) = sv_wal_poisoned sv"
  "sv_global_version (log_command x out tx cmd sv) = sv_global_version sv"
  "sv_watch (log_command x out tx cmd sv) = sv_watch sv"
  "sv_wal_path (log_command x out tx cmd sv) = sv_wal_path sv"
  "sv_is_replica (log_command x out tx cmd sv) = sv_is_replica sv"
  "sv_sync (log_command x out tx cmd sv) = sv_sync sv"
  by (auto simp: log_command_def split: option.splits file_state.splits)

text \<open>What \<open>log_command\<close> does to a disk, as a function of the disk alone.\<close>

definition disk_append ::
  "('n, 'z) wal_ext_scheme \<Rightarrow> write_outcome \<Rightarrow> u64 \<Rightarrow> wal_command \<Rightarrow> str option \<Rightarrow> (str \<Rightarrow> file_state) \<Rightarrow> (str \<Rightarrow> file_state)" where
  "disk_append x out tx cmd w d =
     (case w of None \<Rightarrow> d
      | Some path \<Rightarrow> (case d path of Content s \<Rightarrow> d(path := Content (snd (wal_append x out tx cmd s))) | _ \<Rightarrow> d))"

lemma log_command_disk [simp]:
  "sv_disk (log_command x out tx cmd sv) = disk_append x out tx cmd (sv_wal sv) (sv_disk sv)"
  by (auto simp: log_command_def disk_append_def split: option.splits file_state.splits)

text \<open>The fields no data operation touches.\<close>

definition same_config :: "server \<Rightarrow> server \<Rightarrow> bool" where
  "same_config sv sv' \<longleftrightarrow>
     sv_snapshot_path sv' = sv_snapshot_path sv \<and> sv_schema_registry sv' = sv_schema_registry sv \<and>
     sv_wal sv' = sv_wal sv \<and> sv_wal_poisoned sv' = sv_wal_poisoned sv \<and>
     sv_wal_path sv' = sv_wal_path sv \<and> sv_is_replica sv' = sv_is_replica sv"

lemma same_config_refl [simp]: "same_config sv sv"
  by (simp add: same_config_def)

lemma same_config_trans: "same_config a b \<Longrightarrow> same_config b c \<Longrightarrow> same_config a c"
  by (simp add: same_config_def)

lemma store_write_simps [simp]:
  "sv_tree (store_write x out l k v ex sv) =
     fmupd k \<lparr>rec_value = v, rec_expires = ex, rec_version = sv_global_version sv + 1\<rparr> (sv_tree sv)"
  "sv_indexes (store_write x out l k v ex sv) = sv_indexes sv"
  "sv_cache (store_write x out l k v ex sv) = sv_cache sv"
  "sv_schema_registry (store_write x out l k v ex sv) = sv_schema_registry sv"
  "sv_global_version (store_write x out l k v ex sv) = sv_global_version sv + 1"
  "sv_watch (store_write x out l k v ex sv) =
     sv_watch sv @ [\<lparr>we_key = k, we_new_value = Some v, we_operation_type = ''PUT''\<rparr>]"
  "sv_sync (store_write x out l k v ex sv) = sv_sync sv @ [(sv_global_version sv + 1, Put k v ex)]"
  "sv_disk (store_write x out l k v ex sv) =
     (if l then disk_append x out (sv_global_version sv + 1) (Put k v ex) (sv_wal sv) (sv_disk sv) else sv_disk sv)"
  "same_config sv (store_write x out l k v ex sv)"
  by (simp_all add: store_write_def step_defs Let_def same_config_def)

lemma index_record_simps [simp]:
  "sv_tree (index_record x k v sv) = sv_tree sv"
  "sv_indexes (index_record x k v sv) = index_add x (sv_schema_registry sv) k v (sv_indexes sv)"
  "sv_cache (index_record x k v sv) = sv_cache sv"
  "sv_schema_registry (index_record x k v sv) = sv_schema_registry sv"
  "sv_global_version (index_record x k v sv) = sv_global_version sv"
  "sv_watch (index_record x k v sv) = sv_watch sv"
  "sv_sync (index_record x k v sv) = sv_sync sv"
  "sv_disk (index_record x k v sv) = sv_disk sv"
  "sv_wal (index_record x k v sv) = sv_wal sv"
  "sv_wal_poisoned (index_record x k v sv) = sv_wal_poisoned sv"
  "same_config sv (index_record x k v sv)"
  by (simp_all add: index_record_def same_config_def)

text \<open>The index after the old value of a key was taken out.\<close>

definition without_old :: "('n, 'z) serde_scheme \<Rightarrow> str \<Rightarrow> server \<Rightarrow> index_map" where
  "without_old x k sv =
     (case tree_values (sv_tree sv) k of
        Some old \<Rightarrow> index_del x (sv_schema_registry sv) k old (sv_indexes sv)
      | None \<Rightarrow> sv_indexes sv)"

lemma unindex_old_simps [simp]:
  "sv_tree (unindex_old x k sv) = sv_tree sv"
  "sv_indexes (unindex_old x k sv) = without_old x k sv"
  "sv_cache (unindex_old x k sv) = sv_cache sv"
  "sv_schema_registry (unindex_old x k sv) = sv_schema_registry sv"
  "sv_global_version (unindex_old x k sv) = sv_global_version sv"
  "sv_watch (unindex_old x k sv) = sv_watch sv"
  "sv_sync (unindex_old x k sv) = sv_sync sv"
  "sv_disk (unindex_old x k sv) = sv_disk sv"
  "sv_wal (unindex_old x k sv) = sv_wal sv"
  "sv_wal_poisoned (unindex_old x k sv) = sv_wal_poisoned sv"
  "same_config sv (unindex_old x k sv)"
  by (simp_all add: unindex_old_def remove_record_from_index_def same_config_def without_old_def
      tree_values_def split: option.splits)

lemma index_ok_write:
  assumes "index_ok x sv"
    and "sv_schema_registry sv' = sv_schema_registry sv" "sv_tree sv' = fmupd k r (sv_tree sv)"
    and "sv_indexes sv' = index_add x (sv_schema_registry sv) k (rec_value r) (without_old x k sv)"
  shows "index_ok x sv'"
  using ix.agrees_write [OF assms(1) [unfolded index_ok_def], of k "rec_value r"] assms(2-4)
  by (simp add: index_ok_def without_old_def)

lemma index_ok_erase:
  assumes "index_ok x sv"
    and "sv_schema_registry sv' = sv_schema_registry sv" "sv_tree sv' = fmdrop k (sv_tree sv)"
    and "sv_indexes sv' = without_old x k sv"
  shows "index_ok x sv'"
  using ix.agrees_erase [OF assms(1) [unfolded index_ok_def], of k] assms(2-4)
  by (simp add: index_ok_def without_old_def)

lemma index_ok_cong:
  "sv_schema_registry sv' = sv_schema_registry sv \<Longrightarrow> sv_tree sv' = sv_tree sv \<Longrightarrow>
   sv_indexes sv' = sv_indexes sv \<Longrightarrow> index_ok x sv' = index_ok x sv"
  by (simp add: index_ok_def)

section \<open>The cache\<close>

lemma cache_invalidate_spec:
  assumes "lru_inv (sv_cache sv)"
  shows "\<exists>c. cache_invalidate k sv = Some (sv\<lparr>sv_cache := c\<rparr>) \<and> lru_inv c \<and>
             lru_abs c = (lru_abs (sv_cache sv))(k := None)"
  using lru.invalidate_law [OF assms, of k] by (auto simp: cache_invalidate_def)

lemma cache_put_spec:
  assumes "lru_inv (sv_cache sv)"
  shows "\<exists>c. cache_put k v sv = Some (sv\<lparr>sv_cache := c\<rparr>) \<and> lru_inv c \<and> lru_abs c k = Some v \<and>
             lru_abs c \<subseteq>\<^sub>m (lru_abs (sv_cache sv))(k \<mapsto> v)"
  using lru.put_law [OF assms, of k v] by (auto simp: cache_put_def)

lemma cache_hit:
  assumes "lru_inv (sv_cache sv)"
  shows "\<exists>c. lru_get k (sv_cache sv) = Some (lru_abs (sv_cache sv) k, c) \<and> lru_inv c \<and>
             lru_abs c = lru_abs (sv_cache sv)"
  by (rule lru.get_law [OF assms])

section \<open>The handlers\<close>

text \<open>
  Each handler in one equation: the tree, index, cache contents, version, log, replication and
  watch channel after it. The cache part is all that is used of the cache.
\<close>

lemma get_spec:
  assumes "cache_ok sv"
  shows "\<exists>sv'. get x e k sv = Some
      (case fmlookup (sv_tree sv) k of
         None \<Rightarrow> Inl (NotFound ''Key not found'')
       | Some r \<Rightarrow> if live (en_now e) r then Inr (answer (k, r))
                  else Inl (NotFound ''Key not found or expired''), sv') \<and>
    cache_ok sv' \<and> same_config sv sv' \<and> sv_global_version sv' = sv_global_version sv \<and>
    sv_disk sv' = sv_disk sv \<and> sv_sync sv' = sv_sync sv \<and> sv_watch sv' = sv_watch sv \<and>
    lru_abs (sv_cache sv') = lru_abs (sv_cache sv) \<and>
    (case fmlookup (sv_tree sv) k of
       Some r \<Rightarrow> if live (en_now e) r then sv_tree sv' = sv_tree sv \<and> sv_indexes sv' = sv_indexes sv
                else sv_tree sv' = fmdrop k (sv_tree sv) \<and> sv_indexes sv' = without_old x k sv
     | None \<Rightarrow> sv_tree sv' = sv_tree sv \<and> sv_indexes sv' = sv_indexes sv)"
proof -
  have inv: "lru_inv (sv_cache sv)" using assms by (simp add: cache_ok_def)
  obtain c where c: "lru_get k (sv_cache sv) = Some (lru_abs (sv_cache sv) k, c)" "lru_inv c"
    "lru_abs c = lru_abs (sv_cache sv)"
    using cache_hit [OF inv] by blast
  show ?thesis
  proof (cases "lru_abs (sv_cache sv) k")
    case (Some v)
    then obtain r where r: "fmlookup (sv_tree sv) k = Some r" "rec_value r = v" "rec_expires r = None"
      using assms by (auto simp: cache_ok_def)
    have "get x e k sv = Some (Inr (answer (k, r)), sv\<lparr>sv_cache := c\<rparr>)"
      using c r Some by (simp add: get_def answer_def Let_def)
    then show ?thesis using r c assms by (simp add: live_def cache_ok_def same_config_def)
  next
    case None
    then show ?thesis
      using c assms
      by (auto simp: get_def Let_def cache_ok_def same_config_def live_def without_old_def tree_values_def
          step_defs split: option.splits)
  qed
qed

lemma put_spec:
  assumes "lru_inv (sv_cache sv)" "\<not> sv_is_replica sv" "ttl_expiry (en_now e) ttl = Some ex"
  shows "\<exists>sv'. put x e k v ttl sv = Some (Inr True, sv') \<and> same_config sv sv' \<and> lru_inv (sv_cache sv') \<and>
    (if ex = None then lru_abs (sv_cache sv') k = Some v \<and> lru_abs (sv_cache sv') \<subseteq>\<^sub>m (lru_abs (sv_cache sv))(k \<mapsto> v)
     else lru_abs (sv_cache sv') = lru_abs (sv_cache sv)) \<and>
    sv_tree sv' = fmupd k \<lparr>rec_value = v, rec_expires = ex, rec_version = sv_global_version sv + 1\<rparr> (sv_tree sv) \<and>
    sv_indexes sv' = index_add x (sv_schema_registry sv) k v (without_old x k sv) \<and>
    sv_global_version sv' = sv_global_version sv + 1 \<and>
    sv_disk sv' = (if sv_wal_poisoned sv then sv_disk sv
      else disk_append x (en_wal e) (sv_global_version sv + 1) (Put k v ex) (sv_wal sv) (sv_disk sv)) \<and>
    sv_sync sv' = sv_sync sv @ [(sv_global_version sv + 1, Put k v ex)] \<and>
    sv_watch sv' = sv_watch sv @ [\<lparr>we_key = k, we_new_value = Some v, we_operation_type = ''PUT''\<rparr>]"
proof -
  let ?sv1 = "index_record x k v (unindex_old x k sv)"
  have c1: "same_config sv ?sv1" by (rule same_config_trans [of _ "unindex_old x k sv"]) simp_all
  obtain c where c: "cache_put k v ?sv1 = Some (?sv1\<lparr>sv_cache := c\<rparr>)" "lru_inv c" "lru_abs c k = Some v"
    "lru_abs c \<subseteq>\<^sub>m (lru_abs (sv_cache sv))(k \<mapsto> v)"
    using cache_put_spec [of ?sv1 k v] assms(1) by auto
  let ?sv2 = "if ex = None then ?sv1\<lparr>sv_cache := c\<rparr> else ?sv1"
  have c2: "same_config sv ?sv2" using c1 by (simp add: same_config_def)
  have "put x e k v ttl sv = Some (Inr True, store_write x (en_wal e) (\<not> sv_wal_poisoned sv) k v ex ?sv2)"
    using assms(2,3) c(1) by (simp add: put_def Let_def)
  moreover have "same_config sv (store_write x (en_wal e) (\<not> sv_wal_poisoned sv) k v ex ?sv2)"
    using c2 by (rule same_config_trans) simp
  ultimately show ?thesis
    using c(2-4) assms(1) by (cases ex) simp_all
qed

lemma delete_spec:
  assumes "cache_ok sv" "\<not> sv_is_replica sv"
  shows "\<exists>sv'. delete x e k sv = Some (Inr (fmlookup (sv_tree sv) k \<noteq> None), sv') \<and> same_config sv sv' \<and>
    lru_inv (sv_cache sv') \<and> lru_abs (sv_cache sv') = (lru_abs (sv_cache sv))(k := None) \<and>
    sv_tree sv' = fmdrop k (sv_tree sv) \<and> sv_indexes sv' = without_old x k sv \<and>
    (if fmlookup (sv_tree sv) k = None then sv' = sv
     else sv_global_version sv' = sv_global_version sv + 1 \<and>
       sv_disk sv' = (if sv_wal_poisoned sv then sv_disk sv
         else disk_append x (en_wal e) (sv_global_version sv + 1) (Delete k) (sv_wal sv) (sv_disk sv)) \<and>
       sv_sync sv' = sv_sync sv @ [(sv_global_version sv + 1, Delete k)] \<and>
       sv_watch sv' = sv_watch sv @ [\<lparr>we_key = k, we_new_value = None, we_operation_type = ''DELETE''\<rparr>])"
proof (cases "fmlookup (sv_tree sv) k")
  case None
  then have "fmdrop k (sv_tree sv) = sv_tree sv" by (intro fmdrop_idle) (simp add: fmlookup_dom_iff)
  moreover have "lru_abs (sv_cache sv) k = None"
    using assms(1) None by (cases "lru_abs (sv_cache sv) k") (fastforce simp: cache_ok_def)+
  ultimately show ?thesis
    using None assms by (simp add: delete_def without_old_def tree_values_def fun_upd_idem cache_ok_def)
next
  case (Some old)
  let ?sv1 = "tree_remove k (remove_record_from_index x k (rec_value old) sv)"
  have inv: "lru_inv (sv_cache ?sv1)" using assms(1) by (simp add: cache_ok_def step_defs)
  then obtain c where c: "cache_invalidate k ?sv1 = Some (?sv1\<lparr>sv_cache := c\<rparr>)" "lru_inv c"
    "lru_abs c = (lru_abs (sv_cache ?sv1))(k := None)"
    using cache_invalidate_spec by blast
  show ?thesis
    using Some c assms(2)
    by (simp add: delete_def Let_def step_defs same_config_def without_old_def tree_values_def)
qed

lemma cas_write_spec:
  assumes "lru_inv (sv_cache sv)"
  shows "\<exists>sv'. cas_write x e k v ex sv = Some (Inr True, sv') \<and> same_config sv sv' \<and> lru_inv (sv_cache sv') \<and>
    lru_abs (sv_cache sv') = (lru_abs (sv_cache sv))(k := None) \<and>
    sv_tree sv' = fmupd k \<lparr>rec_value = v, rec_expires = ex, rec_version = sv_global_version sv + 1\<rparr> (sv_tree sv) \<and>
    sv_indexes sv' = index_add x (sv_schema_registry sv) k v (sv_indexes sv) \<and>
    sv_global_version sv' = sv_global_version sv + 1 \<and>
    sv_disk sv' = disk_append x (en_wal e) (sv_global_version sv + 1) (Put k v ex) (sv_wal sv) (sv_disk sv) \<and>
    sv_sync sv' = sv_sync sv @ [(sv_global_version sv + 1, Put k v ex)] \<and>
    sv_watch sv' = sv_watch sv @ [\<lparr>we_key = k, we_new_value = Some v, we_operation_type = ''PUT''\<rparr>]"
proof -
  let ?sv1 = "index_record x k v sv"
  obtain c where c: "cache_invalidate k ?sv1 = Some (?sv1\<lparr>sv_cache := c\<rparr>)" "lru_inv c"
    "lru_abs c = (lru_abs (sv_cache sv))(k := None)"
    using cache_invalidate_spec [of ?sv1 k] assms by auto
  have "same_config sv (?sv1\<lparr>sv_cache := c\<rparr>)" by (simp add: same_config_def index_record_def)
  then have "same_config sv (store_write x (en_wal e) True k v ex (?sv1\<lparr>sv_cache := c\<rparr>))"
    by (rule same_config_trans) simp
  then show ?thesis using c by (simp add: cas_write_def Let_def)
qed

section \<open>A new leader\<close>

text \<open>A leader without files, as the theorems' instances start from it.\<close>

definition fresh_cache :: "(str, bytes) lru_inner" where
  "fresh_cache = \<lparr>lru_capacity = 1000, lru_map = fmempty, lru_nodes = [], lru_free = [],
     lru_head = None, lru_tail = None\<rparr>"

definition blank_server :: server where
  "blank_server = \<lparr>sv_tree = fmempty, sv_indexes = fmempty, sv_cache = fresh_cache, sv_snapshot_path = None,
     sv_schema_registry = registry_new, sv_wal = None, sv_wal_poisoned = False, sv_global_version = 0,
     sv_watch = [], sv_wal_path = None, sv_is_replica = False, sv_sync = [], sv_disk = (\<lambda>_. Absent)\<rparr>"

lemma lru_new_fresh: "lru_new 1000 = Some fresh_cache"
  by (simp add: lru_new_def fresh_cache_def)

lemma fresh_cache_empty [simp]: "lru_inv fresh_cache" "lru_abs fresh_cache = Map.empty"
  using lru_new_inv [OF lru_new_fresh] by (auto simp: lru_abs_def)

lemma blank_server_ok: "cache_ok blank_server" "index_ok x blank_server"
  by (simp_all add: cache_ok_def index_ok_def blank_server_def ix.agrees_empty)

lemma blank_server_simps [simp]:
  "sv_tree blank_server = fmempty" "sv_indexes blank_server = fmempty" "sv_cache blank_server = fresh_cache"
  "sv_schema_registry blank_server = registry_new" "\<not> sv_is_replica blank_server"
  "\<not> sv_wal_poisoned blank_server" "sv_global_version blank_server = 0" "sv_wal blank_server = None"
  by (simp_all add: blank_server_def)

end
