(* ===== verification/Store_Spec.thy ===== *)
theory Store_Spec
  imports Store_Invariant
begin

text \<open>
  What the server promises its clients: a map from keys to values with expiry times, without
  cache, index, versions and log. The handlers of the server refine it over whole histories of
  requests, and the conditions under which they do are stated with them.
\<close>

section \<open>Requests and replies\<close>

datatype request =
  ReqGet str
| ReqPut str bytes "u64 option"
| ReqDelete str
| ReqCas str bytes bytes "u64 option"

datatype reply = Found kv_record | Done bool | Failed status

definition reply_with :: "('r \<Rightarrow> reply) \<Rightarrow> 'r handled \<Rightarrow> (reply \<times> server) option" where
  "reply_with f h = map_option (\<lambda>(r, s). (case r of Inl st \<Rightarrow> Failed st | Inr v \<Rightarrow> f v, s)) h"

fun serve :: "('n, 'z) wal_ext_scheme \<Rightarrow> env \<Rightarrow> request \<Rightarrow> server \<Rightarrow> (reply \<times> server) option" where
  "serve x e (ReqGet k) sv = reply_with Found (get x e k sv)"
| "serve x e (ReqPut k v ttl) sv = reply_with Done (put x e k v ttl sv)"
| "serve x e (ReqDelete k) sv = reply_with Done (delete x e k sv)"
| "serve x e (ReqCas k old new ttl) sv = reply_with Done (cas x e k old new ttl sv)"

text \<open>A history: requests one after the other, each with its own clock and log outcome.\<close>

fun serve_all ::
  "('n, 'z) wal_ext_scheme \<Rightarrow> (env \<times> request) list \<Rightarrow> server \<Rightarrow> (reply list \<times> server) option" where
  "serve_all x [] sv = Some ([], sv)"
| "serve_all x ((e, req) # reqs) sv = do {
     (r, sv1) \<leftarrow> serve x e req sv;
     (rs, sv2) \<leftarrow> serve_all x reqs sv1;
     Some (r # rs, sv2)
   }"

section \<open>The abstract store\<close>

type_synonym store = "str \<rightharpoonup> bytes \<times> u64 option"

definition abs_store :: "server \<Rightarrow> store" where
  "abs_store sv k = map_option (\<lambda>r. (rec_value r, rec_expires r)) (fmlookup (sv_tree sv) k)"

fun spec_step :: "env \<Rightarrow> request \<Rightarrow> store \<Rightarrow> (reply \<times> store) option" where
  "spec_step e (ReqGet k) m = Some
     (case m k of
        None \<Rightarrow> (Failed (NotFound ''Key not found''), m)
      | Some (v, ex) \<Rightarrow>
          if is_expired (en_now e) ex then (Failed (NotFound ''Key not found or expired''), m(k := None))
          else (Found \<lparr>kv_key = k, kv_value = v, kv_expires = ex\<rparr>, m))"
| "spec_step e (ReqPut k v ttl) m =
     map_option (\<lambda>ex. (Done True, m(k \<mapsto> (v, ex)))) (ttl_expiry (en_now e) ttl)"
| "spec_step e (ReqDelete k) m = Some (Done (m k \<noteq> None), m(k := None))"
| "spec_step e (ReqCas k old new ttl) m =
     map_option
       (\<lambda>ex. if (case m k of
                   None \<Rightarrow> old = []
                 | Some (v, ex0) \<Rightarrow> if is_expired (en_now e) ex0 then old = [] else v = old)
             then (Done True, m(k \<mapsto> (new, ex))) else (Done False, m))
       (ttl_expiry (en_now e) ttl)"

fun spec_all :: "(env \<times> request) list \<Rightarrow> store \<Rightarrow> (reply list \<times> store) option" where
  "spec_all [] m = Some ([], m)"
| "spec_all ((e, req) # reqs) m = do {
     (r, m1) \<leftarrow> spec_step e req m;
     (rs, m2) \<leftarrow> spec_all reqs m1;
     Some (r # rs, m2)
   }"

section \<open>Refinement, step by step\<close>

text \<open>
  A leader that serves: its cache is sound and holds keys of \<open>P\<close> only. \<open>P\<close> are the keys that
  requests put without a time to live; \<open>separate P\<close> says that no request puts such a key with one.
\<close>

definition serving :: "str set \<Rightarrow> server \<Rightarrow> bool" where
  "serving P sv \<longleftrightarrow> cache_ok sv \<and> \<not> sv_is_replica sv \<and> \<not> sv_wal_poisoned sv \<and>
     dom (lru_abs (sv_cache sv)) \<subseteq> P"

fun separate :: "str set \<Rightarrow> request \<Rightarrow> bool" where
  "separate P (ReqPut k v ttl) \<longleftrightarrow> (if ttl = None then k \<in> P else k \<notin> P)"
| "separate P _ \<longleftrightarrow> True"

lemma abs_store_upd:
  "sv_tree sv' = fmupd k r (sv_tree sv) \<Longrightarrow> abs_store sv' = (abs_store sv)(k \<mapsto> (rec_value r, rec_expires r))"
  "sv_tree sv' = fmdrop k (sv_tree sv) \<Longrightarrow> abs_store sv' = (abs_store sv)(k := None)"
  "sv_tree sv' = sv_tree sv \<Longrightarrow> abs_store sv' = abs_store sv"
  by (auto simp: abs_store_def fun_eq_iff)

lemma ttl_expiry_Some: "ttl_expiry now ttl = Some ex \<Longrightarrow> ex = None \<longleftrightarrow> ttl = None"
  by (auto simp: ttl_expiry_def split: option.splits)

text \<open>The parts of \<open>serving\<close> that do not depend on the tree.\<close>

lemma serving_write:
  assumes "serving P sv" "same_config sv sv'" "lru_inv (sv_cache sv')" "sv_tree sv' = fmupd k r (sv_tree sv)"
    and "lru_abs (sv_cache sv') \<subseteq>\<^sub>m (lru_abs (sv_cache sv))(k := None) \<or>
         rec_expires r = None \<and> k \<in> P \<and> lru_abs (sv_cache sv') \<subseteq>\<^sub>m (lru_abs (sv_cache sv))(k \<mapsto> rec_value r)"
  shows "serving P sv'"
proof -
  have old: "lru_abs (sv_cache sv) j = Some v \<Longrightarrow>
      j \<in> P \<and> (\<exists>r. fmlookup (sv_tree sv) j = Some r \<and> rec_value r = v \<and> rec_expires r = None)" for j v
    using assms(1) by (auto simp: serving_def cache_ok_def)
  have "j \<in> P \<and> (\<exists>r. fmlookup (sv_tree sv') j = Some r \<and> rec_value r = v \<and> rec_expires r = None)"
    if j: "lru_abs (sv_cache sv') j = Some v" for j v
  proof (cases "j = k")
    case True
    have "\<not> lru_abs (sv_cache sv') \<subseteq>\<^sub>m (lru_abs (sv_cache sv))(k := None)"
    proof
      assume "lru_abs (sv_cache sv') \<subseteq>\<^sub>m (lru_abs (sv_cache sv))(k := None)"
      from map_le_SomeD [OF this j] True show False by simp
    qed
    then have a: "rec_expires r = None" "k \<in> P" "lru_abs (sv_cache sv') \<subseteq>\<^sub>m (lru_abs (sv_cache sv))(k \<mapsto> rec_value r)"
      using assms(5) by auto
    have "v = rec_value r" using map_le_SomeD [OF a(3), of k v] j True by simp
    then show ?thesis using a(1,2) True by (simp add: assms(4))
  next
    case False
    then have "lru_abs (sv_cache sv) j = Some v"
      using assms(5)
    proof (elim disjE conjE)
      assume "lru_abs (sv_cache sv') \<subseteq>\<^sub>m (lru_abs (sv_cache sv))(k := None)"
      from map_le_SomeD [OF this j] False show ?thesis by simp
    next
      assume "lru_abs (sv_cache sv') \<subseteq>\<^sub>m (lru_abs (sv_cache sv))(k \<mapsto> rec_value r)"
      from map_le_SomeD [OF this j] False show ?thesis by simp
    qed
    then show ?thesis using old [of j v] False by (simp add: assms(4))
  qed
  then show ?thesis using assms(1-3) by (auto simp: serving_def cache_ok_def same_config_def)
qed

lemma serving_erase:
  assumes "serving P sv" "same_config sv sv'" "lru_inv (sv_cache sv')" "sv_tree sv' = fmdrop k (sv_tree sv)"
    and "lru_abs (sv_cache sv') = (lru_abs (sv_cache sv))(k := None)"
  shows "serving P sv'"
  using assms by (auto simp: serving_def cache_ok_def same_config_def dom_def)

lemma serve_get:
  assumes "serving P sv"
  shows "\<exists>r m' sv'. spec_step e (ReqGet k) (abs_store sv) = Some (r, m') \<and>
    serve x e (ReqGet k) sv = Some (r, sv') \<and> serving P sv' \<and> abs_store sv' = m'"
proof -
  obtain sv' where g: "get x e k sv = Some
      (case fmlookup (sv_tree sv) k of
         None \<Rightarrow> Inl (NotFound ''Key not found'')
       | Some r \<Rightarrow> if live (en_now e) r then Inr (answer (k, r))
                  else Inl (NotFound ''Key not found or expired''), sv')"
    and s: "cache_ok sv'" "same_config sv sv'" "lru_abs (sv_cache sv') = lru_abs (sv_cache sv)"
    and t: "case fmlookup (sv_tree sv) k of
       Some r \<Rightarrow> if live (en_now e) r then sv_tree sv' = sv_tree sv \<and> sv_indexes sv' = sv_indexes sv
                else sv_tree sv' = fmdrop k (sv_tree sv) \<and> sv_indexes sv' = without_old x k sv
     | None \<Rightarrow> sv_tree sv' = sv_tree sv \<and> sv_indexes sv' = sv_indexes sv"
    using get_spec [of sv x e k] assms unfolding serving_def by blast
  have "serving P sv'" using s assms by (simp add: serving_def same_config_def)
  moreover have "abs_store sv' =
      (case fmlookup (sv_tree sv) k of
         Some r \<Rightarrow> if live (en_now e) r then abs_store sv else (abs_store sv)(k := None)
       | None \<Rightarrow> abs_store sv)"
    using t abs_store_upd(2) [of sv' k sv] abs_store_upd(3) [of sv' sv] by (auto split: option.splits if_splits)
  ultimately show ?thesis
    using g by (auto simp: reply_with_def live_def answer_def abs_store_def [of sv] split: option.splits if_splits)
qed

lemma serve_put:
  assumes "serving P sv" "separate P (ReqPut k v ttl)"
  shows "case spec_step e (ReqPut k v ttl) (abs_store sv) of
      None \<Rightarrow> serve x e (ReqPut k v ttl) sv = None
    | Some (r, m') \<Rightarrow> \<exists>sv'. serve x e (ReqPut k v ttl) sv = Some (r, sv') \<and> serving P sv' \<and> abs_store sv' = m'"
proof (cases "ttl_expiry (en_now e) ttl")
  case None
  then show ?thesis using assms(1) by (simp add: reply_with_def put_def serving_def)
next
  case (Some ex)
  have sv: "lru_inv (sv_cache sv)" "\<not> sv_is_replica sv" using assms(1) by (simp_all add: serving_def cache_ok_def)
  let ?r = "\<lparr>rec_value = v, rec_expires = ex, rec_version = sv_global_version sv + 1\<rparr>"
  obtain sv' where p: "put x e k v ttl sv = Some (Inr True, sv')" "same_config sv sv'" "lru_inv (sv_cache sv')"
    "if ex = None then lru_abs (sv_cache sv') k = Some v \<and> lru_abs (sv_cache sv') \<subseteq>\<^sub>m (lru_abs (sv_cache sv))(k \<mapsto> v)
     else lru_abs (sv_cache sv') = lru_abs (sv_cache sv)"
    "sv_tree sv' = fmupd k ?r (sv_tree sv)"
    using put_spec [OF sv Some, of x k v] by blast
  have "serving P sv'"
  proof (rule serving_write [OF assms(1) p(2,3,5)], cases "ex = None")
    case True
    then have "k \<in> P" using assms(2) ttl_expiry_Some [OF Some] by simp
    then show "lru_abs (sv_cache sv') \<subseteq>\<^sub>m (lru_abs (sv_cache sv))(k := None) \<or>
         rec_expires ?r = None \<and> k \<in> P \<and> lru_abs (sv_cache sv') \<subseteq>\<^sub>m (lru_abs (sv_cache sv))(k \<mapsto> rec_value ?r)"
      using p(4) True by simp
  next
    case False
    then have "k \<notin> P" using assms(2) ttl_expiry_Some [OF Some] by simp
    then have "lru_abs (sv_cache sv) k = None" using assms(1) by (auto simp: serving_def dom_def)
    then show "lru_abs (sv_cache sv') \<subseteq>\<^sub>m (lru_abs (sv_cache sv))(k := None) \<or>
         rec_expires ?r = None \<and> k \<in> P \<and> lru_abs (sv_cache sv') \<subseteq>\<^sub>m (lru_abs (sv_cache sv))(k \<mapsto> rec_value ?r)"
      using p(4) False by (simp add: fun_upd_idem)
  qed
  then show ?thesis using p(1) abs_store_upd(1) [OF p(5)] Some by (simp add: reply_with_def)
qed

lemma serve_delete:
  assumes "serving P sv"
  shows "\<exists>r m' sv'. spec_step e (ReqDelete k) (abs_store sv) = Some (r, m') \<and>
    serve x e (ReqDelete k) sv = Some (r, sv') \<and> serving P sv' \<and> abs_store sv' = m'"
proof -
  have sv: "cache_ok sv" "\<not> sv_is_replica sv" using assms by (simp_all add: serving_def)
  obtain sv' where d: "delete x e k sv = Some (Inr (fmlookup (sv_tree sv) k \<noteq> None), sv')" "same_config sv sv'"
    "lru_inv (sv_cache sv')" "lru_abs (sv_cache sv') = (lru_abs (sv_cache sv))(k := None)"
    "sv_tree sv' = fmdrop k (sv_tree sv)"
    using delete_spec [OF sv, of x e k] by blast
  have "serving P sv'" using serving_erase [OF assms d(2,3,5,4)] .
  then show ?thesis using d(1) abs_store_upd(2) [OF d(5)] by (simp add: reply_with_def abs_store_def [of sv])
qed

text \<open>Which branch \<open>cas\<close> takes, and the state a successful one writes to.\<close>

lemma cas_branches:
  assumes "\<not> sv_is_replica sv" "\<not> sv_wal_poisoned sv" "ttl_expiry (en_now e) ttl = Some ex"
  shows "cas x e k old new ttl sv =
    (case fmlookup (sv_tree sv) k of
       None \<Rightarrow> if old = [] then cas_write x e k new ex sv else Some (Inr False, sv)
     | Some r \<Rightarrow>
         if live (en_now e) r
         then (if rec_value r = old then cas_write x e k new ex (remove_record_from_index x k old sv)
               else Some (Inr False, sv))
         else (if old = [] then cas_write x e k new ex sv else Some (Inr False, sv)))"
  using assms by (auto simp: cas_def Let_def live_def split: option.splits)

lemma serve_cas:
  assumes "serving P sv"
  shows "case spec_step e (ReqCas k old new ttl) (abs_store sv) of
      None \<Rightarrow> serve x e (ReqCas k old new ttl) sv = None
    | Some (r, m') \<Rightarrow> \<exists>sv'. serve x e (ReqCas k old new ttl) sv = Some (r, sv') \<and> serving P sv' \<and> abs_store sv' = m'"
proof (cases "ttl_expiry (en_now e) ttl")
  case None
  then show ?thesis using assms by (simp add: reply_with_def cas_def serving_def)
next
  case (Some ex)
  have sv: "\<not> sv_is_replica sv" "\<not> sv_wal_poisoned sv" "lru_inv (sv_cache sv)"
    using assms by (simp_all add: serving_def cache_ok_def)
  have w: "\<exists>sv'. cas_write x e k new ex s = Some (Inr True, sv') \<and> serving P sv' \<and>
      abs_store sv' = (abs_store sv)(k \<mapsto> (new, ex))"
    if s: "s = sv \<or> s = remove_record_from_index x k old sv" for s
  proof -
    have s': "same_config sv s" "sv_cache s = sv_cache sv" "sv_tree s = sv_tree sv"
      using s by (auto simp: remove_record_from_index_def same_config_def)
    have inv: "lru_inv (sv_cache s)" using sv(3) s'(2) by simp
    let ?r = "\<lparr>rec_value = new, rec_expires = ex, rec_version = sv_global_version s + 1\<rparr>"
    obtain sv' where c: "cas_write x e k new ex s = Some (Inr True, sv')" "same_config s sv'"
      "lru_inv (sv_cache sv')" "lru_abs (sv_cache sv') = (lru_abs (sv_cache s))(k := None)"
      "sv_tree sv' = fmupd k ?r (sv_tree s)"
      using cas_write_spec [OF inv, of x e k new ex] by blast
    have "serving P sv'"
      using serving_write [OF assms same_config_trans [OF s'(1) c(2)] c(3), of k ?r] c(4,5) s'
      by simp
    then show ?thesis using c(1) abs_store_upd(1) [of sv' k ?r sv] c(5) s'(3) by simp
  qed
  show ?thesis
    using w [of sv] w [of "remove_record_from_index x k old sv"] Some assms
    by (auto simp: cas_branches [OF sv(1,2) Some] reply_with_def abs_store_def [of sv] live_def
        split: option.splits if_splits)
qed

lemma serve_refines:
  assumes "serving P sv" "separate P req"
  shows "case spec_step e req (abs_store sv) of
      None \<Rightarrow> serve x e req sv = None
    | Some (r, m') \<Rightarrow> \<exists>sv'. serve x e req sv = Some (r, sv') \<and> serving P sv' \<and> abs_store sv' = m'"
proof (cases req)
  case (ReqGet k)
  then show ?thesis using serve_get [OF assms(1), where e = e and k = k and x = x] by auto
next
  case (ReqPut k v ttl)
  show ?thesis using assms unfolding ReqPut by (rule serve_put)
next
  case (ReqDelete k)
  then show ?thesis using serve_delete [OF assms(1), where e = e and k = k and x = x] by auto
next
  case (ReqCas k old new ttl)
  show ?thesis using assms(1) unfolding ReqCas by (rule serve_cas)
qed

lemma serve_all_refines:
  "serving P sv \<Longrightarrow> \<forall>(e, req) \<in> set reqs. separate P req \<Longrightarrow>
   case spec_all reqs (abs_store sv) of
     None \<Rightarrow> serve_all x reqs sv = None
   | Some (rs, m') \<Rightarrow> \<exists>sv'. serve_all x reqs sv = Some (rs, sv') \<and> serving P sv' \<and> abs_store sv' = m'"
proof (induction reqs arbitrary: sv)
  case Nil
  then show ?case by simp
next
  case (Cons er reqs)
  obtain e req where er: "er = (e, req)" by (cases er)
  have sep: "separate P req" "\<forall>(e, req) \<in> set reqs. separate P req" using Cons.prems(2) er by auto
  show ?case
  proof (cases "spec_step e req (abs_store sv)")
    case None
    then show ?thesis using serve_refines [OF Cons.prems(1) sep(1), where e = e and x = x] er by simp
  next
    case (Some a)
    obtain r m1 where a: "a = (r, m1)" by (cases a)
    obtain sv1 where s: "serve x e req sv = Some (r, sv1)" "serving P sv1" "abs_store sv1 = m1"
      using serve_refines [OF Cons.prems(1) sep(1), where e = e and x = x] Some a by auto
    show ?thesis
      using Cons.IH [OF s(2) sep(2)] s(1,3) Some a er by (cases "spec_all reqs m1") auto
  qed
qed

end
