(* ===== verification/Plain_Codec.thy ===== *)
theory Plain_Codec
  imports Wal
begin

text \<open>
  A concrete encoding of log entries that satisfies what the log relies on, so that the
  theorems with these hypotheses have instances. It is not the program's JSON: numbers are
  written in unary and lists with their length in front, which makes the code self-delimiting.
\<close>

section \<open>Numbers, lists, options\<close>

definition enc_nat :: "nat \<Rightarrow> str" where
  "enc_nat n = replicate n (CHR ''i'') @ ''.''"

fun dec_nat :: "str \<Rightarrow> (nat \<times> str) option" where
  "dec_nat [] = None"
| "dec_nat (c # s) =
     (if c = CHR ''.'' then Some (0, s)
      else if c = CHR ''i'' then map_option (\<lambda>(n, r). (Suc n, r)) (dec_nat s)
      else None)"

definition enc_list :: "('a \<Rightarrow> str) \<Rightarrow> 'a list \<Rightarrow> str" where
  "enc_list enc xs = enc_nat (length xs) @ concat (map enc xs)"

fun dec_many :: "(str \<Rightarrow> ('a \<times> str) option) \<Rightarrow> nat \<Rightarrow> str \<Rightarrow> ('a list \<times> str) option" where
  "dec_many dec 0 s = Some ([], s)"
| "dec_many dec (Suc n) s = do {
     (x, s1) \<leftarrow> dec s;
     (xs, s2) \<leftarrow> dec_many dec n s1;
     Some (x # xs, s2)
   }"

definition dec_list :: "(str \<Rightarrow> ('a \<times> str) option) \<Rightarrow> str \<Rightarrow> ('a list \<times> str) option" where
  "dec_list dec s = do { (n, s1) \<leftarrow> dec_nat s; dec_many dec n s1 }"

definition enc_word :: "'a::len word \<Rightarrow> str" where
  "enc_word w = enc_nat (unat w)"

definition dec_word :: "str \<Rightarrow> ('a::len word \<times> str) option" where
  "dec_word s = map_option (\<lambda>(n, r). (word_of_nat n, r)) (dec_nat s)"

definition enc_char :: "char \<Rightarrow> str" where
  "enc_char c = enc_nat (of_char c)"

definition dec_char :: "str \<Rightarrow> (char \<times> str) option" where
  "dec_char s = map_option (\<lambda>(n, r). (char_of n, r)) (dec_nat s)"

definition enc_opt :: "('a \<Rightarrow> str) \<Rightarrow> 'a option \<Rightarrow> str" where
  "enc_opt enc v = enc_list enc (case v of None \<Rightarrow> [] | Some x \<Rightarrow> [x])"

definition dec_opt :: "(str \<Rightarrow> ('a \<times> str) option) \<Rightarrow> str \<Rightarrow> ('a option \<times> str) option" where
  "dec_opt dec s = map_option (\<lambda>(xs, r). (case xs of [] \<Rightarrow> None | x # _ \<Rightarrow> Some x, r)) (dec_list dec s)"

lemma dec_nat_enc: "dec_nat (enc_nat n @ r) = Some (n, r)"
  unfolding enc_nat_def by (induction n) auto

lemma dec_many_enc:
  "(\<And>x r. x \<in> set xs \<Longrightarrow> dec (enc x @ r) = Some (x, r)) \<Longrightarrow>
   dec_many dec (length xs) (concat (map enc xs) @ r) = Some (xs, r)"
  by (induction xs) auto

lemma dec_list_enc:
  "(\<And>x r. x \<in> set xs \<Longrightarrow> dec (enc x @ r) = Some (x, r)) \<Longrightarrow> dec_list dec (enc_list enc xs @ r) = Some (xs, r)"
  by (simp add: dec_list_def enc_list_def dec_nat_enc dec_many_enc)

lemma dec_word_enc: "dec_word (enc_word w @ r) = Some (w, r)"
  by (simp add: dec_word_def enc_word_def dec_nat_enc)

lemma dec_char_enc: "dec_char (enc_char c @ r) = Some (c, r)"
  by (simp add: dec_char_def enc_char_def dec_nat_enc)

lemma dec_opt_enc:
  "(\<And>x r. dec (enc x @ r) = Some (x, r)) \<Longrightarrow> dec_opt dec (enc_opt enc v @ r) = Some (v, r)"
  using dec_list_enc [of "case v of None \<Rightarrow> [] | Some x \<Rightarrow> [x]" dec enc r]
  by (cases v) (simp_all add: dec_opt_def enc_opt_def)

lemmas dec_enc = dec_nat_enc dec_word_enc dec_char_enc dec_list_enc [of _ dec_char enc_char]
  dec_list_enc [of _ dec_word enc_word] dec_opt_enc [of dec_word enc_word]

section \<open>Commands and envelopes\<close>

fun enc_cmd :: "wal_command \<Rightarrow> str" where
  "enc_cmd (Put k v e) = enc_nat 0 @ enc_list enc_char k @ enc_list enc_word v @ enc_opt enc_word e"
| "enc_cmd (Delete k) = enc_nat 1 @ enc_list enc_char k"
| "enc_cmd (TxCommit cs) = enc_nat 2 @ enc_nat (length cs) @ concat (map enc_cmd cs)"

fun dec_cmd :: "nat \<Rightarrow> str \<Rightarrow> (wal_command \<times> str) option" where
  "dec_cmd 0 s = None"
| "dec_cmd (Suc fuel) s = do {
     (tag, s1) \<leftarrow> dec_nat s;
     if tag = 0 then do {
       (k, s2) \<leftarrow> dec_list dec_char s1;
       (v, s3) \<leftarrow> dec_list dec_word s2;
       (e, s4) \<leftarrow> dec_opt dec_word s3;
       Some (Put k v e, s4)
     }
     else if tag = 1 then do { (k, s2) \<leftarrow> dec_list dec_char s1; Some (Delete k, s2) }
     else do {
       (n, s2) \<leftarrow> dec_nat s1;
       (cs, s3) \<leftarrow> dec_many (dec_cmd fuel) n s2;
       Some (TxCommit cs, s3)
     }
   }"

lemma length_enc_nat: "length (enc_nat n) = Suc n"
  by (simp add: enc_nat_def)

lemma length_concat_member: "x \<in> set xs \<Longrightarrow> length (f x) \<le> length (concat (map f xs))"
  by (induction xs) auto

lemma dec_cmd_enc: "length (enc_cmd c) \<le> fuel \<Longrightarrow> dec_cmd fuel (enc_cmd c @ r) = Some (c, r)"
proof (induction c arbitrary: fuel r rule: enc_cmd.induct)
  case (1 k v e)
  then show ?case by (cases fuel) (simp_all add: length_enc_nat dec_enc)
next
  case (2 k)
  then show ?case by (cases fuel) (simp_all add: length_enc_nat dec_enc)
next
  case (3 cs)
  then obtain f where f: "fuel = Suc f" by (cases fuel) (auto simp: length_enc_nat)
  have "dec_many (dec_cmd f) (length cs) (concat (map enc_cmd cs) @ r) = Some (cs, r)"
  proof (rule dec_many_enc)
    fix c r'
    assume c: "c \<in> set cs"
    have "length (enc_cmd c) \<le> f"
      using "3.prems" length_concat_member [OF c, of enc_cmd] f by (simp add: length_enc_nat)
    then show "dec_cmd f (enc_cmd c @ r') = Some (c, r')" using "3.IH" c by blast
  qed
  then show ?case using f by (simp add: dec_enc)
qed

definition plain_cmd :: "wal_command \<Rightarrow> str" where
  "plain_cmd c = CHR ''c'' # enc_cmd c"

definition plain_env :: "wal_envelope \<Rightarrow> str" where
  "plain_env e = CHR ''e'' # enc_cmd (env_c e) @ enc_word (env_k e) @ enc_word (env_tx_id e)"

text \<open>The readers also compare the text, so that they accept nothing but what is written.\<close>

definition dec_env :: "str \<Rightarrow> (wal_envelope \<times> str) option" where
  "dec_env s = do {
     (c, s1) \<leftarrow> dec_cmd (length s) (tl s);
     (k, s2) \<leftarrow> dec_word s1;
     (t, s3) \<leftarrow> dec_word s2;
     Some (\<lparr>env_c = c, env_k = k, env_tx_id = t\<rparr>, s3)
   }"

definition read_env :: "str \<Rightarrow> wal_envelope option" where
  "read_env s = (case dec_env s of
     Some (e, []) \<Rightarrow> if plain_env e = s then Some e else None | _ \<Rightarrow> None)"

definition read_cmd :: "str \<Rightarrow> wal_command option" where
  "read_cmd s = (case dec_cmd (length s) (tl s) of
     Some (c, []) \<Rightarrow> if plain_cmd c = s then Some c else None | _ \<Rightarrow> None)"

lemma dec_env_plain: "dec_env (plain_env e @ r) = Some (e, r)"
  by (simp add: dec_env_def plain_env_def dec_cmd_enc dec_enc del: dec_cmd.simps)

lemma plain_env_prefix_free: "plain_env e @ r = plain_env e' \<Longrightarrow> r = []"
  using dec_env_plain [of e r] dec_env_plain [of e' "[]"] by simp

text \<open>A checksum: the sum of the code points.\<close>

definition plain_sum :: "str \<Rightarrow> u32" where
  "plain_sum s = sum_list (map (\<lambda>c. word_of_nat (of_char c)) s)"

text \<open>A JSON reader for the instances: one byte is an object with a name of one character.\<close>

fun plain_json :: "bytes \<Rightarrow> nat json option" where
  "plain_json [b] = Some (JObject [(''name'', JString [char_of (unat b)])])"
| "plain_json _ = None"

definition plain_wal :: "nat wal_ext" where
  "plain_wal = \<lparr>from_slice = plain_json, num_to_string = show_nat, num_is_i64 = (\<lambda>_. True),
     num_is_u64 = (\<lambda>_. True), num_is_f64 = (\<lambda>_. False), num_as_f64 = (\<lambda>_. None),
     parse_f64 = (\<lambda>_. None), f64_near = (=),
     cmd_to_string = plain_cmd, cmd_from_str = read_cmd, env_to_string = plain_env,
     env_from_str = read_env, crc32 = plain_sum\<rparr>"

text \<open>Only letters, dots and the two tags are written.\<close>

lemma set_enc_nat: "set (enc_nat n) \<subseteq> {CHR ''i'', CHR ''.''}"
  by (auto simp: enc_nat_def)

lemma set_enc_list: "(\<And>x. set (enc x) \<subseteq> A) \<Longrightarrow> {CHR ''i'', CHR ''.''} \<subseteq> A \<Longrightarrow> set (enc_list enc xs) \<subseteq> A"
  using set_enc_nat by (fastforce simp: enc_list_def)

lemma set_enc_cmd: "set (enc_cmd c) \<subseteq> {CHR ''i'', CHR ''.''}"
proof (induction c rule: enc_cmd.induct)
  case (1 k v e)
  show ?case
    using set_enc_list [of enc_char "{CHR ''i'', CHR ''.''}" k] set_enc_nat
      set_enc_list [of enc_word "{CHR ''i'', CHR ''.''}" v]
      set_enc_list [of enc_word "{CHR ''i'', CHR ''.''}" "case e of None \<Rightarrow> [] | Some x \<Rightarrow> [x]"]
    by (fastforce simp: enc_char_def enc_word_def enc_opt_def)
next
  case (2 k)
  show ?case
    using set_enc_list [of enc_char "{CHR ''i'', CHR ''.''}" k] set_enc_nat by (fastforce simp: enc_char_def)
next
  case (3 cs)
  then show ?case using set_enc_nat by fastforce
qed

lemma set_plain_env: "set (plain_env e) \<subseteq> {CHR ''i'', CHR ''.'', CHR ''e''}"
  using set_enc_cmd [of "env_c e"] set_enc_nat by (fastforce simp: plain_env_def enc_word_def)

lemma read_env_plain: "read_env (plain_env e) = Some e"
  using dec_env_plain [of e "[]"] by (simp add: read_env_def)

lemma read_env_sound: "read_env s = Some e \<Longrightarrow> s = plain_env e"
  by (auto simp: read_env_def split: option.splits list.splits if_splits)

lemma read_cmd_sound: "read_cmd s = Some c \<Longrightarrow> s = plain_cmd c"
  by (auto simp: read_cmd_def split: option.splits list.splits if_splits)

lemma plain_wal_codec_ok: "wal_codec_ok plain_wal"
proof -
  have "newline \<notin> set (plain_env e) \<and> carriage_return \<notin> set (plain_env e)" for e
    using set_plain_env [of e] by (auto simp: newline_def carriage_return_def)
  moreover have "\<not> is_blank (plain_env e)" for e
    by (simp add: is_blank_def plain_env_def char_class_defs)
  ultimately show ?thesis by (simp add: wal_codec_ok_def plain_wal_def read_env_plain)
qed

lemma plain_wal_torn_ok: "wal_torn_ok plain_wal"
proof -
  have "read_env (take n (plain_env e)) = None \<and> read_cmd (take n (plain_env e)) = None"
    if n: "n < length (plain_env e)" for e n
  proof
    show "read_env (take n (plain_env e)) = None"
    proof (rule ccontr)
      assume "read_env (take n (plain_env e)) \<noteq> None"
      then obtain e' where "take n (plain_env e) = plain_env e'" using read_env_sound by blast
      then have "plain_env e' @ drop n (plain_env e) = plain_env e" by (metis append_take_drop_id)
      then have "drop n (plain_env e) = []" by (rule plain_env_prefix_free)
      with n show False by simp
    qed
    show "read_cmd (take n (plain_env e)) = None"
    proof (rule ccontr)
      assume "read_cmd (take n (plain_env e)) \<noteq> None"
      then obtain c where c: "take n (plain_env e) = plain_cmd c" using read_cmd_sound by blast
      then have "hd (take n (plain_env e)) = CHR ''c''" by (simp add: plain_cmd_def)
      moreover have "0 < n" using c by (cases n) (auto simp: plain_cmd_def)
      ultimately show False by (simp add: plain_env_def hd_take)
    qed
  qed
  then show ?thesis by (simp add: wal_torn_ok_def plain_wal_def)
qed

section \<open>Properties of the log\<close>

text \<open>
  C26: Write-ahead log round trip. Whatever entries were appended to an empty log,
  \<open>read_all_commands\<close> returns exactly these entries with their transaction numbers, in order:
  no checksum fails, no line is lost or split.
\<close>

theorem wal_read_all:
  assumes "wal_codec_ok x"
  shows "read_all_commands x (Content (fold (\<lambda>(tx, c) s. snd (wal_append x Written tx c s)) es [])) = Inr es"
proof -
  have "fold (\<lambda>(tx, c) s. snd (wal_append x Written tx c s)) es s = s @ log_text x es" for s
    by (induction es arbitrary: s) (auto simp: wal_append_written log_text_def)
  then show ?thesis using read_all_log_text [OF assms] by simp
qed

theorem wal_read_all_witness:
  "read_all_commands plain_wal (Content
     (fold (\<lambda>(tx, c) s. snd (wal_append plain_wal Written tx c s)) [(1, Put ''a'' [7] None), (2, Delete ''a'')] []))
   = Inr [(1, Put ''a'' [7] None), (2, Delete ''a'')]"
  by (rule wal_read_all [OF plain_wal_codec_ok])

text \<open>
  Catch-up reads. \<open>read_from_tx_id\<close> on a log of appended entries returns exactly the
  entries whose transaction number is at least the one asked for, in log order, each with the
  text of its line.
\<close>

theorem wal_read_from:
  assumes "wal_codec_ok x"
  shows "read_from_tx_id x (Content (log_text x es)) start_tx_id =
    Inr (map (\<lambda>(tx, c). (tx, env_to_string x (envelope_of x tx c))) (filter (\<lambda>(tx, c). start_tx_id \<le> tx) es))"
  by (rule read_from_log_text [OF assms])

theorem wal_read_from_witness:
  "read_from_tx_id plain_wal (Content (log_text plain_wal [(4, Delete ''a''), (5, Delete ''b'')])) 5
     = Inr [(5, plain_env (envelope_of plain_wal 5 (Delete ''b'')))]"
proof -
  have "env_to_string plain_wal = plain_env" by (simp add: plain_wal_def)
  then show ?thesis using wal_read_from [OF plain_wal_codec_ok, of "[(4, Delete ''a''), (5, Delete ''b'')]" 5] by simp
qed

text \<open>
  A crash in the middle of an append loses that entry only: recovery reads every earlier
  entry of the log and skips the incomplete last line.
\<close>

theorem wal_crash_safe:
  assumes "wal_codec_ok x" "wal_torn_ok x"
    and "n < length (env_to_string x (envelope_of x tx c))"
  shows "read_all_commands x (Content (snd (wal_append x (Torn n) tx c (log_text x es)))) = Inr es"
  using read_all_torn [OF assms(1,2) at_boundary_log_text [of x es] assms(3)] read_all_log_text [OF assms(1)] by simp

theorem wal_crash_safe_witness:
  "read_all_commands plain_wal
     (Content (snd (wal_append plain_wal (Torn 1) 2 (Delete ''b'') (log_text plain_wal [(1, Delete ''a'')]))))
   = Inr [(1, Delete ''a'')]"
  by (rule wal_crash_safe [OF plain_wal_codec_ok plain_wal_torn_ok]) (simp add: plain_wal_def plain_env_def enc_word_def enc_nat_def)

text \<open>
  After a torn append the log is not repaired: the next entry, though completely written and
  acknowledged, shares the incomplete line, and when the glued text is no entry the reader
  returns neither of the two.
\<close>

theorem wal_torn_swallows_next:
  assumes "wal_codec_ok x"
    and "n < length (env_to_string x (envelope_of x tx c))"
    and "read_command x (take n (env_to_string x (envelope_of x tx c)) @
           env_to_string x (envelope_of x tx' c')) = None"
  shows "fst (wal_append x Written tx' c' (snd (wal_append x (Torn n) tx c (log_text x es)))) = Inr () \<and>
    read_all_commands x
      (Content (snd (wal_append x Written tx' c' (snd (wal_append x (Torn n) tx c (log_text x es)))))) = Inr es"
  using read_all_after_torn [OF assms(1) at_boundary_log_text [of x es] assms(2,3)] read_all_log_text [OF assms(1), of es]
  by (simp add: wal_append_written)

theorem wal_torn_swallows_next_witness:
  "read_all_commands plain_wal (Content (snd (wal_append plain_wal Written 2 (Delete ''b'')
     (snd (wal_append plain_wal (Torn 1) 1 (Delete ''a'') (log_text plain_wal [])))))) = Inr []"
proof -
  have "read_env (CHR ''e'' # plain_env e) = None" for e
  proof (rule ccontr)
    assume "read_env (CHR ''e'' # plain_env e) \<noteq> None"
    then obtain e' where "CHR ''e'' # plain_env e = plain_env e'" using read_env_sound by blast
    then have "plain_env e = enc_cmd (env_c e') @ enc_word (env_k e') @ enc_word (env_tx_id e')"
      by (simp add: plain_env_def)
    moreover have "CHR ''e'' \<in> set (plain_env e)" by (simp add: plain_env_def)
    ultimately have "CHR ''e'' \<in> set (enc_cmd (env_c e') @ enc_word (env_k e') @ enc_word (env_tx_id e'))"
      by metis
    moreover have "set (enc_cmd (env_c e') @ enc_word (env_k e') @ enc_word (env_tx_id e')) \<subseteq> {CHR ''i'', CHR ''.''}"
      using set_enc_cmd [of "env_c e'"] set_enc_nat by (simp add: enc_word_def)
    ultimately show False by blast
  qed
  moreover have "read_cmd (CHR ''e'' # s) = None" for s
    using read_cmd_sound [of "CHR ''e'' # s"] by (cases "read_cmd (CHR ''e'' # s)") (auto simp: plain_cmd_def)
  moreover have "take 1 (plain_env e) = ''e''" for e by (simp add: plain_env_def)
  ultimately have "read_command plain_wal (take 1 (env_to_string plain_wal (envelope_of plain_wal 1 (Delete ''a''))) @
      env_to_string plain_wal (envelope_of plain_wal 2 (Delete ''b''))) = None"
    by (simp add: read_command_def plain_wal_def is_blank_def)
  moreover have "1 < length (env_to_string plain_wal (envelope_of plain_wal 1 (Delete ''a'')))"
    by (simp add: plain_wal_def plain_env_def enc_word_def enc_nat_def)
  ultimately show ?thesis
    using wal_torn_swallows_next [OF plain_wal_codec_ok, of 1 1 "Delete ''a''" 2 "Delete ''b''" "[]"] by simp
qed

end
