(* ===== verification/Store_Properties.thy ===== *)
theory Store_Properties
  imports Store_Spec Plain_Codec
begin

text \<open>
  The properties of the request handlers: they refine a map, keep the index exact, scans and
  indexed queries agree with a scan of the whole tree, replicas are read-only; and the two ways
  in which the code loses coherence, each as a theorem.
\<close>

section \<open>Clients see a map\<close>

text \<open>
  C1: The server refines a map. On a leader with a sound cache, any history of get, put, delete
  and compare-and-swap requests is answered, reply by reply, as by a plain map from keys to
  values with expiry times; it panics exactly when the map's specification does (a time to live
  under a clock before the epoch), and the final tree is the final map. The one condition is that
  no key is put both with and without a time to live.
\<close>

theorem server_refines_map:
  assumes "serving P sv" and "\<forall>(e, req) \<in> set reqs. separate P req"
  shows "case spec_all reqs (abs_store sv) of
      None \<Rightarrow> serve_all x reqs sv = None
    | Some (rs, m') \<Rightarrow> \<exists>sv'. serve_all x reqs sv = Some (rs, sv') \<and> serving P sv' \<and> abs_store sv' = m'"
  using assms by (rule serve_all_refines)

definition at :: "nat \<Rightarrow> env" where
  "at ms = \<lparr>en_now = Some ms, en_wal = Written\<rparr>"

lemma at_simps [simp]: "en_now (at ms) = Some ms" "en_wal (at ms) = Written"
  by (simp_all add: at_def)

lemma blank_serving: "serving P blank_server" "abs_store blank_server = Map.empty"
  using blank_server_ok by (simp_all add: serving_def abs_store_def fun_eq_iff)

theorem server_refines_map_witness:
  "\<exists>sv'. serve_all plain_wal
     [(at 5, ReqPut ''a'' [1] None), (at 6, ReqCas ''a'' [1] [2] None), (at 7, ReqGet ''a''),
      (at 8, ReqPut ''b'' [3] (Some 10)), (at 30, ReqGet ''b''), (at 31, ReqDelete ''a''), (at 32, ReqGet ''a'')]
     blank_server =
   Some ([Done True, Done True, Found \<lparr>kv_key = ''a'', kv_value = [2], kv_expires = None\<rparr>, Done True,
          Failed (NotFound ''Key not found or expired''), Done True, Failed (NotFound ''Key not found'')], sv')"
  using server_refines_map [of "{''a''}" blank_server
      "[(at 5, ReqPut ''a'' [1] None), (at 6, ReqCas ''a'' [1] [2] None), (at 7, ReqGet ''a''),
        (at 8, ReqPut ''b'' [3] (Some 10)), (at 30, ReqGet ''b''), (at 31, ReqDelete ''a''), (at 32, ReqGet ''a'')]"
      plain_wal]
  by (auto simp: blank_serving ttl_expiry_def is_expired_def)

text \<open>
  Why the condition is there. A put with a time to live leaves the cache as it is, so when
  the key is cached the next get still answers the old value, with no expiry time, although the
  tree, the log and the watchers have the new one.
\<close>

theorem put_ttl_serves_stale:
  assumes "cache_ok sv" "\<not> sv_is_replica sv" and "lru_abs (sv_cache sv) k = Some v0"
    and "en_now e = Some t"
  shows "\<exists>sv1 sv2. put x e k v (Some ttl) sv = Some (Inr True, sv1) \<and>
    abs_store sv1 k = Some (v, Some (word_of_nat t + ttl)) \<and>
    get x e' k sv1 = Some (Inr \<lparr>kv_key = k, kv_value = v0, kv_expires = None\<rparr>, sv2)"
proof -
  let ?ex = "Some (word_of_nat t + ttl)"
  have ex: "ttl_expiry (en_now e) (Some ttl) = Some ?ex" using assms(4) by (simp add: ttl_expiry_def)
  have inv: "lru_inv (sv_cache sv)" using assms(1) by (simp add: cache_ok_def)
  obtain sv1 where p: "put x e k v (Some ttl) sv = Some (Inr True, sv1)" "lru_inv (sv_cache sv1)"
    "lru_abs (sv_cache sv1) = lru_abs (sv_cache sv)"
    "sv_tree sv1 = fmupd k \<lparr>rec_value = v, rec_expires = ?ex, rec_version = sv_global_version sv + 1\<rparr> (sv_tree sv)"
    using put_spec [OF inv assms(2) ex, of x k v] by auto
  obtain c where "lru_get k (sv_cache sv1) = Some (Some v0, c)"
    using cache_hit [OF p(2), of k] assms(3) p(3) by auto
  then show ?thesis using p(1) abs_store_upd(1) [OF p(4)] by (simp add: get_def Let_def)
qed

lemma blank_put:
  "\<exists>sv. put plain_wal (at t) k v None blank_server = Some (Inr True, sv) \<and> cache_ok sv \<and> \<not> sv_is_replica sv \<and>
     \<not> sv_wal_poisoned sv \<and> lru_abs (sv_cache sv) k = Some v"
proof -
  obtain sv where p: "put plain_wal (at t) k v None blank_server = Some (Inr True, sv)"
    "lru_abs (sv_cache sv) k = Some v" "same_config blank_server sv"
    using put_spec [of blank_server "at t" None None plain_wal k v] by auto
  moreover have "serving {k} sv"
    using serve_put [OF blank_serving(1), where P = "{k}" and k = k and v = v and ttl = None and e = "at t" and x = plain_wal] p(1) by (simp add: reply_with_def)
  ultimately show ?thesis by (auto simp: serving_def)
qed

theorem put_ttl_serves_stale_witness:
  "\<exists>sv0 sv1 sv2. put plain_wal (at 1) ''k'' [1] None blank_server = Some (Inr True, sv0) \<and>
     put plain_wal (at 2) ''k'' [2] (Some 50) sv0 = Some (Inr True, sv1) \<and>
     get plain_wal (at 3) ''k'' sv1 = Some (Inr \<lparr>kv_key = ''k'', kv_value = [1], kv_expires = None\<rparr>, sv2)"
  using blank_put [of 1 "''k''" "[1]"] put_ttl_serves_stale [where e = "at 2" and e' = "at 3"] by fastforce

section \<open>Times to live\<close>

text \<open>
  C37: How long a record lives. On a leader, a record put at \<open>t\<close> with a time to live under a key that is
  not cached, is answered at \<open>t'\<close> if \<open>t'\<close> is not after the sum of \<open>t\<close> and the time to live, taken modulo
  2 to the 64. So up to that bound it lives exactly as long as asked, its last millisecond included,
  and beyond it the sum wraps: a time to live of 2^64 - 1 has expired when it is set.
\<close>

theorem ttl_exact:
  assumes "lru_inv (sv_cache sv)" "\<not> sv_is_replica sv" "lru_abs (sv_cache sv) k = None" "t < 2 ^ 64" "t' < 2 ^ 64"
  shows "\<exists>sv1 sv2. put x (at t) k v (Some ttl) sv = Some (Inr True, sv1) \<and>
    get x (at t') k sv1 = Some
      (if t' \<le> (t + unat ttl) mod 2 ^ 64
       then Inr \<lparr>kv_key = k, kv_value = v, kv_expires = Some (word_of_nat t + ttl)\<rparr>
       else Inl (NotFound ''Key not found or expired''), sv2)"
proof -
  let ?ex = "Some (word_of_nat t + ttl)"
  have ex: "ttl_expiry (en_now (at t)) (Some ttl) = Some ?ex" by (simp add: ttl_expiry_def)
  obtain sv1 where p: "put x (at t) k v (Some ttl) sv = Some (Inr True, sv1)" "lru_inv (sv_cache sv1)"
    "lru_abs (sv_cache sv1) = lru_abs (sv_cache sv)"
    "sv_tree sv1 = fmupd k \<lparr>rec_value = v, rec_expires = ?ex, rec_version = sv_global_version sv + 1\<rparr> (sv_tree sv)"
    using put_spec [OF assms(1,2) ex, of x k v] by auto
  obtain c where c: "lru_get k (sv_cache sv1) = Some (None, c)"
    using cache_hit [OF p(2), of k] assms(3) p(3) by auto
  have "unat (word_of_nat t + ttl) = (t + unat ttl) mod 2 ^ 64" "unat (word_of_nat t' :: u64) = t'"
    using assms(4,5) by (simp_all add: unat_word_ariths unat_of_nat)
  then have "is_expired (Some t') ?ex \<longleftrightarrow> \<not> t' \<le> (t + unat ttl) mod 2 ^ 64"
    by (simp add: is_expired_def word_less_nat_alt not_le)
  then show ?thesis using p(1,4) c by (auto simp: get_def Let_def answer_def)
qed

theorem ttl_exact_witness:
  "\<exists>sv1 sv2. put plain_wal (at 7) ''k'' [1] (Some (2 ^ 64 - 1)) blank_server = Some (Inr True, sv1) \<and>
     get plain_wal (at 7) ''k'' sv1 = Some (Inl (NotFound ''Key not found or expired''), sv2)"
proof -
  have "lru_inv (sv_cache blank_server)" "\<not> sv_is_replica blank_server" "lru_abs (sv_cache blank_server) ''k'' = None"
    using blank_serving(1) [of "{}"] by (auto simp: serving_def cache_ok_def)
  from ttl_exact [OF this, of 7 7 plain_wal "[1]" "2 ^ 64 - 1"] show ?thesis by simp
qed

section \<open>The index\<close>

lemma cas_write_index:
  assumes "lru_inv (sv_cache s)" "cas_write x e k new ex s = Some (r, sv')"
  shows "sv_schema_registry sv' = sv_schema_registry s \<and>
    sv_tree sv' = fmupd k \<lparr>rec_value = new, rec_expires = ex, rec_version = sv_global_version s + 1\<rparr> (sv_tree s) \<and>
    sv_indexes sv' = index_add x (sv_schema_registry s) k new (sv_indexes s) \<and> lru_inv (sv_cache sv')"
  using cas_write_spec [OF assms(1), of x e k new ex] assms(2) by (auto simp: same_config_def)

text \<open>The one request that may break the index: a compare-and-swap that expects nothing and meets an expired record.\<close>

fun revives_expired :: "env \<Rightarrow> request \<Rightarrow> server \<Rightarrow> bool" where
  "revives_expired e (ReqCas k old new ttl) sv \<longleftrightarrow>
     old = [] \<and> (\<exists>r. fmlookup (sv_tree sv) k = Some r \<and> is_expired (en_now e) (rec_expires r))"
| "revives_expired e _ sv \<longleftrightarrow> False"

text \<open>
  What keeps the index exact is that the links of the cache are sound; that the cache agrees with
  the tree is not needed.
\<close>

abbreviation index_sound :: "('n, 'z) serde_scheme \<Rightarrow> server \<Rightarrow> bool" where
  "index_sound x sv \<equiv> index_ok x sv \<and> lru_inv (sv_cache sv)"

lemma index_cas:
  assumes "index_sound x sv" "cas x e k old new ttl sv = Some (r, sv')"
    and "\<not> revives_expired e (ReqCas k old new ttl) sv"
  shows "index_sound x sv'"
proof (cases "sv' = sv")
  case True
  then show ?thesis using assms(1) by simp
next
  case False
  have ok: "\<not> sv_is_replica sv" "\<not> sv_wal_poisoned sv"
    using assms(2) False by (auto simp: cas_def split: if_splits Option.bind_splits)
  then obtain ex where ex: "ttl_expiry (en_now e) ttl = Some ex"
    using assms(2) by (cases "ttl_expiry (en_now e) ttl") (auto simp: cas_def)
  note c = assms(2) [unfolded cas_branches [OF ok ex]]
  show ?thesis
  proof (cases "fmlookup (sv_tree sv) k")
    case None
    with c False have w: "cas_write x e k new ex sv = Some (r, sv')" by (simp split: if_splits)
    have "without_old x k sv = sv_indexes sv" using None by (simp add: without_old_def tree_values_def)
    then show ?thesis
      using cas_write_index [OF _ w] assms(1) by (auto intro!: index_ok_write [of x sv sv' k])
  next
    case (Some r0)
    with c False assms(3)
    have r0: "rec_value r0 = old" "cas_write x e k new ex (remove_record_from_index x k old sv) = Some (r, sv')"
      by (auto simp: live_def split: if_splits)
    let ?s = "remove_record_from_index x k old sv"
    have s: "sv_indexes ?s = without_old x k sv" "sv_tree ?s = sv_tree sv" "sv_cache ?s = sv_cache sv"
      "sv_schema_registry ?s = sv_schema_registry sv"
      using Some r0(1) by (simp_all add: remove_record_from_index_def without_old_def tree_values_def)
    show ?thesis
      using cas_write_index [OF _ r0(2)] assms(1) s by (auto intro!: index_ok_write [of x sv sv' k])
  qed
qed

lemma index_get:
  assumes "index_sound x sv" "get x e k sv = Some (r, sv')"
  shows "index_sound x sv'"
proof -
  obtain c where c: "lru_get k (sv_cache sv) = Some (lru_abs (sv_cache sv) k, c)" "lru_inv c"
    using cache_hit [of sv k] assms(1) by blast
  show ?thesis
  proof (cases "sv' = sv\<lparr>sv_cache := c\<rparr>")
    case True
    then show ?thesis using assms(1) c(2) by (simp add: index_ok_def)
  next
    case False
    then obtain r0 where "fmlookup (sv_tree sv) k = Some r0"
        "sv' = tree_remove k (remove_record_from_index x k (rec_value r0) (sv\<lparr>sv_cache := c\<rparr>))"
      using assms(2) c(1) by (auto simp: get_def Let_def split: option.splits if_splits)
    then show ?thesis
      using assms(1) c(2) index_ok_erase [of x sv sv' k]
      by (simp add: remove_record_from_index_def without_old_def tree_values_def step_defs)
  qed
qed

lemma index_put:
  assumes "index_sound x sv" "put x e k v ttl sv = Some (r, sv')"
  shows "index_sound x sv'"
proof (cases "sv_is_replica sv")
  case True
  then show ?thesis using assms by (auto simp: put_def)
next
  case False
  then obtain ex where ex: "ttl_expiry (en_now e) ttl = Some ex"
    using assms(2) by (cases "ttl_expiry (en_now e) ttl") (auto simp: put_def)
  have inv: "lru_inv (sv_cache sv)" using assms(1) by simp
  obtain sv1 where p: "put x e k v ttl sv = Some (Inr True, sv1)" "same_config sv sv1" "lru_inv (sv_cache sv1)"
    "sv_tree sv1 = fmupd k \<lparr>rec_value = v, rec_expires = ex, rec_version = sv_global_version sv + 1\<rparr> (sv_tree sv)"
    "sv_indexes sv1 = index_add x (sv_schema_registry sv) k v (without_old x k sv)"
    using put_spec [OF inv False ex, of x k v] by blast
  have "sv' = sv1" using assms(2) p(1) by simp
  then show ?thesis using index_ok_write [of x sv sv1 k, OF _ _ p(4)] assms(1) p(2,3,5) by (simp add: same_config_def)
qed

lemma index_delete:
  assumes "index_sound x sv" "delete x e k sv = Some (r, sv')"
  shows "index_sound x sv'"
proof (cases "sv' = sv")
  case True
  then show ?thesis using assms(1) by simp
next
  case False
  then obtain r0 where r0: "\<not> sv_is_replica sv" "fmlookup (sv_tree sv) k = Some r0"
    using assms(2) by (auto simp: delete_def split: if_splits option.splits)
  let ?sv1 = "tree_remove k (remove_record_from_index x k (rec_value r0) sv)"
  obtain c where c: "cache_invalidate k ?sv1 = Some (?sv1\<lparr>sv_cache := c\<rparr>)" "lru_inv c"
    using cache_invalidate_spec [of ?sv1 k] assms(1) by (auto simp: step_defs)
  have "sv_tree sv' = fmdrop k (sv_tree sv)" "sv_indexes sv' = without_old x k sv" "lru_inv (sv_cache sv')"
    "sv_schema_registry sv' = sv_schema_registry sv"
    using assms(2) r0 c
    by (auto simp: delete_def Let_def step_defs same_config_def without_old_def tree_values_def split: if_splits)
  then show ?thesis using assms(1) index_ok_erase [of x sv sv' k] by simp
qed

lemma index_serve:
  assumes "index_sound x sv" "serve x e req sv = Some (r, sv')" "\<not> revives_expired e req sv"
  shows "index_sound x sv'"
proof (cases req)
  case (ReqGet k)
  then show ?thesis using assms(2) index_get [OF assms(1)] by (auto simp: reply_with_def)
next
  case (ReqPut k v ttl)
  then show ?thesis using assms(2) index_put [OF assms(1)] by (auto simp: reply_with_def)
next
  case (ReqDelete k)
  then show ?thesis using assms(2) index_delete [OF assms(1)] by (auto simp: reply_with_def)
next
  case (ReqCas k old new ttl)
  then have "\<exists>r. cas x e k old new ttl sv = Some (r, sv')" using assms(2) by (auto simp: reply_with_def)
  then show ?thesis using index_cas [OF assms(1)] assms(3) ReqCas by blast
qed

text \<open>A request returns when the clock is not before the epoch.\<close>

lemma serve_returns:
  assumes "lru_inv (sv_cache sv)" "en_now e \<noteq> None"
  shows "\<exists>r sv'. serve x e req sv = Some (r, sv')"
proof -
  have now: "\<exists>ex. ttl_expiry (en_now e) ttl = Some ex" for ttl
    using assms(2) by (cases ttl) (auto simp: ttl_expiry_def)
  show ?thesis
  proof (cases req)
    case (ReqGet k)
    then show ?thesis using cache_hit [OF assms(1), of k]
      by (auto simp: reply_with_def get_def Let_def split: option.splits)
  next
    case (ReqPut k v ttl)
    then show ?thesis using now [of ttl] put_spec [OF assms(1), of e ttl _ x k v]
      by (cases "sv_is_replica sv") (fastforce simp: reply_with_def put_def)+
  next
    case (ReqDelete k)
    have "\<exists>s. cache_invalidate k (tree_remove k (remove_record_from_index x k v sv)) = Some s" for v
      using cache_invalidate_spec [of "tree_remove k (remove_record_from_index x k v sv)" k] assms(1)
      by (auto simp: step_defs)
    then have "\<exists>r sv'. delete x e k sv = Some (r, sv')"
      by (auto simp: delete_def Let_def prod.case_eq_if split: option.split) (metis bind.bind_lunit option.simps(3) surj_pair)
    then show ?thesis using ReqDelete by (auto simp: reply_with_def)
  next
    case (ReqCas k old new ttl)
    have w: "\<exists>sv'. cas_write x e k new ex s = Some (Inr True, sv')" if "sv_cache s = sv_cache sv" for ex s
      using cas_write_spec [of s x e k new ex] assms(1) that by auto
    obtain ex where ex: "ttl_expiry (en_now e) ttl = Some ex" using now by blast
    show ?thesis
    proof (cases "sv_is_replica sv \<or> sv_wal_poisoned sv")
      case True
      then show ?thesis using ReqCas ex by (auto simp: reply_with_def cas_def)
    next
      case False
      then have "\<exists>r sv'. cas x e k old new ttl sv = Some (r, sv')"
        using w [of sv ex] w [of "remove_record_from_index x k old sv" ex]
        by (auto simp: cas_branches [OF _ _ ex] remove_record_from_index_def split: option.splits)
      then show ?thesis using ReqCas by (auto simp: reply_with_def)
    qed
  qed
qed

text \<open>Whether some request of a history revives an expired record in this way.\<close>

fun revival :: "('n, 'z) wal_ext_scheme \<Rightarrow> (env \<times> request) list \<Rightarrow> server \<Rightarrow> bool" where
  "revival x [] sv \<longleftrightarrow> False"
| "revival x ((e, req) # reqs) sv \<longleftrightarrow>
     revives_expired e req sv \<or> (case serve x e req sv of Some (_, sv1) \<Rightarrow> revival x reqs sv1 | None \<Rightarrow> False)"

text \<open>
  C12: Every history of requests keeps the index exact (each record filed under precisely the index
  keys of its current value, nothing else filed), on leaders and replicas, with and without times to
  live, with a cache that agrees with the tree or is stale, as long as none of them is a
  compare-and-swap with an empty expectation on an expired record. The history returns, unless the
  clock is before the epoch at some request.
\<close>

theorem index_preserved:
  assumes "index_ok x sv" "lru_inv (sv_cache sv)" "\<not> revival x reqs sv"
  shows "case serve_all x reqs sv of
      None \<Rightarrow> \<exists>(e, req) \<in> set reqs. en_now e = None
    | Some (rs, sv') \<Rightarrow> index_ok x sv' \<and> lru_inv (sv_cache sv')"
  using assms
proof (induction reqs arbitrary: sv)
  case Nil
  then show ?case by simp
next
  case (Cons er reqs)
  obtain e req where er: "er = (e, req)" by (cases er)
  show ?case
  proof (cases "serve x e req sv")
    case None
    then have "en_now e = None" using serve_returns [OF Cons.prems(2), of e x req] by (cases "en_now e") auto
    then show ?thesis using None er by simp
  next
    case (Some a)
    then obtain r sv1 where s: "serve x e req sv = Some (r, sv1)" by (cases a) simp
    then have "index_sound x sv1" "\<not> revival x reqs sv1"
      using index_serve [OF _ s] Cons.prems er by auto
    then show ?thesis
      using Cons.IH [of sv1] s er by (auto split: option.splits)
  qed
qed

definition schema_server :: server where
  "schema_server = blank_server\<lparr>sv_schema_registry := load_nodes sample_schema registry_new\<rparr>"

lemma schema_server_ok: "cache_ok schema_server" "index_ok x schema_server" "\<not> sv_is_replica schema_server"
    "\<not> sv_wal_poisoned schema_server" "sv_tree schema_server = fmempty" "sv_cache schema_server = fresh_cache"
  by (simp_all add: schema_server_def cache_ok_def index_ok_def ix.agrees_empty)

lemma user_index_keys:
  "extract_index_keys plain_wal (load_nodes sample_schema registry_new) ''user:1'' [b] =
     [''User:name:'' @ [char_of (unat b)]]"
  by (simp add: extract_index_keys_def indexed_fields_for_prefix_def load_nodes_def sample_schema_def registry_new_def
      split_first_def plain_wal_def List.map_filter_def index_key_def)

lemma char_65 [simp]: "char_of (65 :: nat) = CHR ''A''"
  using char_of_char [of "CHR ''A''"] by (simp add: of_char_def)

lemma char_66 [simp]: "char_of (66 :: nat) = CHR ''B''"
  using char_of_char [of "CHR ''B''"] by (simp add: of_char_def)

text \<open>The instance has a cache that no longer agrees with the tree when the last put arrives.\<close>

theorem index_preserved_witness:
  "\<exists>rs sv. serve_all plain_wal
       [(at 1, ReqPut ''user:1'' [65] None), (at 2, ReqPut ''user:1'' [66] (Some 9)), (at 3, ReqDelete ''user:2'')]
       schema_server = Some (rs, sv) \<and> index_ok plain_wal sv"
proof -
  let ?reqs = "[(at 1, ReqPut ''user:1'' [65] None), (at 2, ReqPut ''user:1'' [66] (Some 9)), (at 3, ReqDelete ''user:2'')]"
  have "lru_inv (sv_cache schema_server)" using schema_server_ok(1) by (simp add: cache_ok_def)
  moreover have "\<not> revival plain_wal ?reqs schema_server" by (simp split: option.splits)
  ultimately show ?thesis
    using index_preserved [OF schema_server_ok(2), where x = plain_wal and reqs = ?reqs]
    by (cases "serve_all plain_wal ?reqs schema_server") (auto simp del: serve_all.simps)
qed

text \<open>
  The exception is real. Such a compare-and-swap files the new value without taking out the
  expired one: afterwards the index is exact only if every index key of the expired value is
  also one of the new value.
\<close>

theorem cas_expired_breaks_index:
  assumes "index_ok x sv" "cache_ok sv" "\<not> sv_is_replica sv" "\<not> sv_wal_poisoned sv"
    and "fmlookup (sv_tree sv) k = Some r" "is_expired (en_now e) (rec_expires r)"
  shows "\<exists>sv'. cas x e k [] new None sv = Some (Inr True, sv') \<and>
    (index_ok x sv' \<longleftrightarrow>
       set (extract_index_keys x (sv_schema_registry sv) k (rec_value r))
         \<subseteq> set (extract_index_keys x (sv_schema_registry sv) k new))"
proof -
  have inv: "lru_inv (sv_cache sv)" using assms(2) by (simp add: cache_ok_def)
  obtain sv' where w: "cas_write x e k new None sv = Some (Inr True, sv')"
    using cas_write_spec [OF inv, of x e k new None] by blast
  have "cas x e k [] new None sv = Some (Inr True, sv')"
    using assms(5,6) w by (simp add: cas_branches [OF assms(3,4) ttl_expiry_None] live_def)
  moreover have "index_ok x sv' \<longleftrightarrow> (\<forall>old. tree_values (sv_tree sv) k = Some old \<longrightarrow>
      set (extract_index_keys x (sv_schema_registry sv) k old)
        \<subseteq> set (extract_index_keys x (sv_schema_registry sv) k new))"
    using ix.agrees_overwrite [OF assms(1) [unfolded index_ok_def], of k new] cas_write_index [OF inv w]
    by (simp add: index_ok_def)
  ultimately show ?thesis using assms(5) by (auto simp: tree_values_def)
qed

text \<open>A record with a time to live under an indexed field, as the instances use it.\<close>

lemma user_put:
  "\<exists>sv. put plain_wal (at 1) ''user:1'' [65] (Some 9) schema_server = Some (Inr True, sv) \<and>
     index_ok plain_wal sv \<and> cache_ok sv \<and> \<not> sv_is_replica sv \<and> \<not> sv_wal_poisoned sv \<and>
     sv_schema_registry sv = load_nodes sample_schema registry_new \<and>
     sv_tree sv = fmupd ''user:1'' \<lparr>rec_value = [65], rec_expires = Some 10, rec_version = 1\<rparr> fmempty"
proof -
  obtain sv where p: "put plain_wal (at 1) ''user:1'' [65] (Some 9) schema_server = Some (Inr True, sv)"
    "same_config schema_server sv"
    "sv_tree sv = fmupd ''user:1'' \<lparr>rec_value = [65], rec_expires = Some 10, rec_version = 1\<rparr> fmempty"
    using put_spec [of schema_server "at 1" "Some 9" "Some 10" plain_wal "''user:1''" "[65]"] schema_server_ok
    by (auto simp: ttl_expiry_def schema_server_def)
  have s: "serve plain_wal (at 1) (ReqPut ''user:1'' [65] (Some 9)) schema_server = Some (Done True, sv)"
    using p(1) by (simp add: reply_with_def)
  have i: "index_ok plain_wal sv" using index_serve [OF _ s] schema_server_ok(1) schema_server_ok(2) [where x = plain_wal] by (auto simp: cache_ok_def)
  have c: "cache_ok sv"
    using serve_put [where P = "{}" and sv = schema_server and k = "''user:1''" and v = "[65]" and ttl = "Some 9"
        and e = "at 1" and x = plain_wal] s schema_server_ok
    by (simp add: serving_def ttl_expiry_def)
  show ?thesis using p i c schema_server_ok(3,4) by (auto simp: same_config_def) (simp add: schema_server_def)
qed

theorem cas_expired_breaks_index_witness:
  "\<exists>sv sv'. put plain_wal (at 1) ''user:1'' [65] (Some 9) schema_server = Some (Inr True, sv) \<and> index_ok plain_wal sv \<and>
     cas plain_wal (at 20) ''user:1'' [] [66] None sv = Some (Inr True, sv') \<and> \<not> index_ok plain_wal sv'"
proof -
  obtain sv where p: "put plain_wal (at 1) ''user:1'' [65] (Some 9) schema_server = Some (Inr True, sv)"
    "index_ok plain_wal sv" "cache_ok sv" "\<not> sv_is_replica sv" "\<not> sv_wal_poisoned sv"
    "sv_schema_registry sv = load_nodes sample_schema registry_new"
    "fmlookup (sv_tree sv) ''user:1'' = Some \<lparr>rec_value = [65], rec_expires = Some 10, rec_version = 1\<rparr>"
    using user_put by auto
  have "is_expired (en_now (at 20)) (Some 10)" by (simp add: is_expired_def)
  then show ?thesis
    using cas_expired_breaks_index [OF p(2-5,7), of "at 20" "[66]"] p(1,2) by (auto simp: p(6) user_index_keys)
qed

end
