(* ===== verification/Scan_Properties.thy ===== *)
theory Scan_Properties
  imports Store_Properties
begin

text \<open>
  Scans, indexed queries and the sweep: each is compared with the list of all entries of the
  tree in key order.
\<close>

section \<open>Scans\<close>

text \<open>What any scan of the tree in key order answers.\<close>

lemma answers_exact:
  "map kv_key (map answer es) = map fst es"
  "kv \<in> set (map answer (filter P (sorted_entries t))) \<longleftrightarrow>
     (\<exists>r. fmlookup t (kv_key kv) = Some r \<and> P (kv_key kv, r) \<and> kv = answer (kv_key kv, r))"
proof -
  show "map kv_key (map answer es) = map fst es" by (simp add: answer_def)
  show "kv \<in> set (map answer (filter P (sorted_entries t))) \<longleftrightarrow>
     (\<exists>r. fmlookup t (kv_key kv) = Some r \<and> P (kv_key kv, r) \<and> kv = answer (kv_key kv, r))"
    by (auto simp: image_iff in_sorted_entries answer_def Bex_def)
qed

lemma strictly_sorted_answers: "sorted_wrt (<) (map kv_key (map answer (filter P (sorted_entries t))))"
proof -
  have "distinct (map fst (filter P (sorted_entries t)))"
    by (rule distinct_map_filter) (rule sorted_entries_distinct)
  then show ?thesis
    using sorted_filter_entries [of P t] by (simp only: answers_exact(1) strict_sorted_iff)
qed

lemma range_scan_exact:
  "\<exists>rs. range_scan x e lo hi filters sv = Some (Inr rs, sv) \<and> sorted_wrt (<) (map kv_key rs) \<and>
     (\<forall>kv. kv \<in> set rs \<longleftrightarrow>
        (\<exists>r. fmlookup (sv_tree sv) (kv_key kv) = Some r \<and> lo \<le> kv_key kv \<and> kv_key kv \<le> hi \<and>
             live (en_now e) r \<and> matches_filters x (rec_value r) filters \<and> kv = answer (kv_key kv, r)))"
proof -
  let ?P = "\<lambda>(k, r). lo \<le> k \<and> k \<le> hi \<and> live (en_now e) r \<and> matches_filters x (rec_value r) filters"
  have "range_scan x e lo hi filters sv = Some (Inr (map answer (filter ?P (sorted_entries (sv_tree sv)))), sv)"
    by (simp add: range_scan_def tree_range_def) (rule arg_cong [of _ _ "map answer"], rule filter_cong, auto)
  then show ?thesis
    using strictly_sorted_answers [of ?P "sv_tree sv"] answers_exact(2) [of _ ?P "sv_tree sv"] by auto
qed

lemma prefix_scan_exact:
  "\<exists>rs. prefix_scan x e pre filters sv = Some (Inr rs, sv) \<and> sorted_wrt (<) (map kv_key rs) \<and>
     (\<forall>kv. kv \<in> set rs \<longleftrightarrow>
        (\<exists>r. fmlookup (sv_tree sv) (kv_key kv) = Some r \<and> prefix pre (kv_key kv) \<and>
             live (en_now e) r \<and> matches_filters x (rec_value r) filters \<and> kv = answer (kv_key kv, r)))"
proof -
  let ?P = "\<lambda>(k, r). prefix pre k \<and> live (en_now e) r \<and> matches_filters x (rec_value r) filters"
  have "prefix_scan x e pre filters sv = Some (Inr (map answer (filter ?P (sorted_entries (sv_tree sv)))), sv)"
    by (simp add: prefix_scan_def scan_prefix_range)
  then show ?thesis
    using strictly_sorted_answers [of ?P "sv_tree sv"] answers_exact(2) [of _ ?P "sv_tree sv"] by auto
qed

text \<open>
  C36: Scans are exact. A range scan answers, in strictly increasing key order, exactly the live
  records with a key in the closed range whose value passes the filters, and changes nothing. A
  prefix scan does the same for the keys with the prefix: it stops at the first key without it, and
  yet misses nothing of the whole tree.
\<close>

theorem scans_exact:
  "(\<exists>rs. range_scan x e lo hi filters sv = Some (Inr rs, sv) \<and> sorted_wrt (<) (map kv_key rs) \<and>
     (\<forall>kv. kv \<in> set rs \<longleftrightarrow>
        (\<exists>r. fmlookup (sv_tree sv) (kv_key kv) = Some r \<and> lo \<le> kv_key kv \<and> kv_key kv \<le> hi \<and>
             live (en_now e) r \<and> matches_filters x (rec_value r) filters \<and> kv = answer (kv_key kv, r)))) \<and>
   (\<exists>rs. prefix_scan x e pre filters sv = Some (Inr rs, sv) \<and> sorted_wrt (<) (map kv_key rs) \<and>
     (\<forall>kv. kv \<in> set rs \<longleftrightarrow>
        (\<exists>r. fmlookup (sv_tree sv) (kv_key kv) = Some r \<and> prefix pre (kv_key kv) \<and>
             live (en_now e) r \<and> matches_filters x (rec_value r) filters \<and> kv = answer (kv_key kv, r))))"
  by (rule conjI [OF range_scan_exact prefix_scan_exact])

section \<open>Indexed queries\<close>

text \<open>The entries that an index key selects, found by looking at every record.\<close>

definition selected :: "('n, 'z) serde_scheme \<Rightarrow> str \<Rightarrow> server \<Rightarrow> (str \<times> db_record) list" where
  "selected x i sv =
     filter (\<lambda>(k, r). i \<in> set (extract_index_keys x (sv_schema_registry sv) k (rec_value r)))
       (sorted_entries (sv_tree sv))"

lemma index_set_selected:
  assumes "index_ok x sv"
  shows "(case fmlookup (sv_indexes sv) i of Some S \<Rightarrow> sorted_list_of_fset S | None \<Rightarrow> []) = map fst (selected x i sv)"
proof -
  let ?ks = "case fmlookup (sv_indexes sv) i of Some S \<Rightarrow> sorted_list_of_fset S | None \<Rightarrow> []"
  have mem: "k \<in> set ?ks \<longleftrightarrow> index_has (sv_indexes sv) i k" for k
    by (auto simp: index_has_def sorted_list_of_fset.rep_eq split: option.splits)
  have "index_has (sv_indexes sv) i k \<longleftrightarrow> k \<in> set (map fst (selected x i sv))" for k
    using assms by (force simp: index_ok_def index_agrees_def selected_def tree_values_def in_sorted_entries image_iff)
  then have "set ?ks = set (map fst (selected x i sv))" using mem by blast
  moreover have "sorted ?ks \<and> distinct ?ks" by (simp add: sorted_list_of_fset.rep_eq split: option.splits)
  moreover have "sorted (map fst (selected x i sv)) \<and> distinct (map fst (selected x i sv))"
    unfolding selected_def by (simp add: sorted_filter_entries distinct_map_filter sorted_entries_distinct
        del: map_fst_sorted_entries)
  ultimately show ?thesis using sorted_distinct_set_unique by blast
qed

lemma map_filter_lookup:
  "\<forall>(k, r) \<in> set es. fmlookup t k = Some r \<Longrightarrow>
   List.map_filter (\<lambda>k. map_option (\<lambda>r. (k, r)) (fmlookup t k)) (map fst es) = es"
  by (induction es) (auto simp: map_filter_simps)

lemma query_scans:
  assumes "index_ok x sv"
  shows "query e schema_type field val limit offset sv = Some (Inr (map answer (filter (\<lambda>(k, r). live (en_now e) r)
    (take (case limit of Some n \<Rightarrow> unat n | None \<Rightarrow> 100) (drop (case offset of Some n \<Rightarrow> unat n | None \<Rightarrow> 0)
      (selected x (index_key schema_type field val) sv))))), sv)"
proof -
  let ?i = "index_key schema_type field val"
  let ?lim = "case limit of Some n \<Rightarrow> unat n | None \<Rightarrow> 100" and ?off = "case offset of Some n \<Rightarrow> unat n | None \<Rightarrow> 0"
  have sel: "\<forall>(k, r) \<in> set (take ?lim (drop ?off (selected x ?i sv))). fmlookup (sv_tree sv) k = Some r"
    by (auto simp: selected_def in_sorted_entries dest!: in_set_takeD in_set_dropD)
  have w: "take ?lim (drop ?off (map fst (selected x ?i sv))) = map fst (take ?lim (drop ?off (selected x ?i sv)))"
    by (simp add: take_map drop_map)
  show ?thesis
  proof (cases "fmlookup (sv_indexes sv) ?i")
    case None
    then have "selected x ?i sv = []" using index_set_selected [OF assms, of ?i] by simp
    then show ?thesis using None by (simp add: query_def)
  next
    case (Some S)
    then have "sorted_list_of_fset S = map fst (selected x ?i sv)" using index_set_selected [OF assms, of ?i] by simp
    then show ?thesis using Some by (simp add: query_def Let_def w map_filter_lookup [OF sel])
  qed
qed

text \<open>
  C13: An indexed query needs no look at the records, yet answers what a scan of all of them would:
  with an exact index it returns, of the records whose value has the queried field value, in key
  order, the window from \<open>offset\<close> (default 0) of length \<open>limit\<close> (default 100), less those of
  the window that have expired.
\<close>

theorem query_is_scan:
  assumes "index_ok x sv"
  shows "query e schema_type field val limit offset sv = Some (Inr (map answer (filter (\<lambda>(k, r). live (en_now e) r)
    (take (case limit of Some n \<Rightarrow> unat n | None \<Rightarrow> 100) (drop (case offset of Some n \<Rightarrow> unat n | None \<Rightarrow> 0)
      (selected x (index_key schema_type field val) sv))))), sv)"
  by (rule query_scans [OF assms])

theorem query_is_scan_witness:
  "\<exists>sv. put plain_wal (at 1) ''user:1'' [65] (Some 9) schema_server = Some (Inr True, sv) \<and>
     query (at 2) ''User'' ''name'' ''A'' None None sv =
       Some (Inr [\<lparr>kv_key = ''user:1'', kv_value = [65], kv_expires = Some 10\<rparr>], sv)"
proof -
  let ?r = "\<lparr>rec_value = [65], rec_expires = Some 10, rec_version = 1\<rparr>"
  obtain sv where p: "put plain_wal (at 1) ''user:1'' [65] (Some 9) schema_server = Some (Inr True, sv)"
    "index_ok plain_wal sv" "sv_schema_registry sv = load_nodes sample_schema registry_new"
    "sv_tree sv = fmupd ''user:1'' ?r fmempty"
    using user_put by blast
  have "sorted_entries (sv_tree sv) = [(''user:1'', ?r)]"
    by (simp add: p(4) sorted_entries_def sorted_list_of_fset_finsert)
  then have "selected plain_wal ''User:name:A'' sv = [(''user:1'', ?r)]"
    by (simp add: selected_def p(3) user_index_keys)
  then show ?thesis
    using query_is_scan [OF p(2), of "at 2" "''User''" "''name''" "''A''" None None] p(1)
    by (simp add: index_key_def live_def is_expired_def answer_def)
qed

section \<open>Typed records\<close>

text \<open>The types whose values an index can file: not arrays, nor declared types other than enums.\<close>

fun scalar_type :: "registry \<Rightarrow> data_type \<Rightarrow> bool" where
  "scalar_type reg (Array d) \<longleftrightarrow> False"
| "scalar_type reg (Custom c) \<longleftrightarrow> fmlookup (reg_enums reg) c \<noteq> None"
| "scalar_type reg _ \<longleftrightarrow> True"

lemma conforms_index_value:
  "conforms num reg d v \<Longrightarrow> scalar_type reg d \<Longrightarrow> \<exists>s. index_value x v = Some s"
  by (cases d) (auto simp: conforms_simps)

text \<open>
  C14: Valid records can be found. If \<open>validate\<close> accepts the value of a live record for the type that
  the prefix of its key stands for, then each indexed field of a scalar or enum type has a value that
  is accepted for the type of the field, and on an exact index a query for that value, with a limit
  that the number of records in the tree does not exceed, answers the record.
\<close>

theorem typed_record_found:
  assumes "registry_ok (sv_schema_registry sv)" "index_ok x sv"
    and "fmlookup (sv_tree sv) k = Some r" "live (en_now e) r"
    and "fmlookup (reg_prefix_map (sv_schema_registry sv)) (split_first (CHR '':'') k) = Some type_name"
    and "from_slice x (rec_value r) = Some json" "validate x (sv_schema_registry sv) type_name json = Inr ()"
    and "fmlookup (reg_types (sv_schema_registry sv)) type_name = Some t" "f \<in> set (td_fields t)"
    and "fd_is_indexed f" "scalar_type (sv_schema_registry sv) (fd_data_type f)"
    and "fcard (fmdom (sv_tree sv)) \<le> unat limit"
  shows "\<exists>obj v s records. json = JObject obj \<and> map_of obj (fd_name f) = Some v \<and>
    validate_field x (sv_schema_registry sv) (fd_name f) (fd_data_type f) v = Inr () \<and> index_value x v = Some s \<and>
    query e type_name (fd_name f) s (Some limit) None sv = Some (Inr records, sv) \<and> answer (k, r) \<in> set records"
proof -
  obtain obj where obj: "json = JObject obj" "conforms_fields (passes_number x) (sv_schema_registry sv) (td_fields t) obj"
    using assms(7,8) by (auto simp: validate_iff)
  obtain v where v: "map_of obj (fd_name f) = Some v" "conforms (passes_number x) (sv_schema_registry sv) (fd_data_type f) v"
    using obj(2) assms(9) by (auto simp: conforms_fields_def)
  obtain s where s: "index_value x v = Some s" using conforms_index_value [OF v(2) assms(11)] by blast
  let ?i = "index_key type_name (fd_name f) s"
  have "?i \<in> set (extract_index_keys x (sv_schema_registry sv) k (rec_value r))"
    unfolding extract_index_keys_iff [OF assms(1)] using assms(5,6,8-10) obj(1) v(1) s by blast
  then have m: "(k, r) \<in> set (selected x ?i sv)"
    using assms(3) by (simp add: selected_def in_sorted_entries)
  have "length (selected x ?i sv) \<le> length (sorted_entries (sv_tree sv))" by (simp add: selected_def)
  also have "length (sorted_entries (sv_tree sv)) = fcard (fmdom (sv_tree sv))"
    by (simp add: sorted_entries_def sorted_list_of_fset.rep_eq fcard.rep_eq)
  finally have "take (unat limit) (selected x ?i sv) = selected x ?i sv" using assms(12) by simp
  then have "query e type_name (fd_name f) s (Some limit) None sv =
      Some (Inr (map answer (filter (\<lambda>(k, r). live (en_now e) r) (selected x ?i sv))), sv)"
    using query_scans [OF assms(2), of e type_name "fd_name f" s "Some limit" None] by simp
  moreover have "answer (k, r) \<in> set (map answer (filter (\<lambda>(k, r). live (en_now e) r) (selected x ?i sv)))"
    using m assms(4) by force
  ultimately show ?thesis using obj(1) v s validate_iff(3) by metis
qed

definition tag_registry :: registry where
  "tag_registry = load_nodes [TypeNode \<lparr>td_name = ''Tag'',
     td_fields = [\<lparr>fd_name = ''name'', fd_data_type = StringT, fd_is_indexed = True\<rparr>],
     td_prefix = Some ''tag''\<rparr>] registry_new"

theorem typed_record_found_witness:
  "\<exists>sv records. put plain_wal (at 1) ''tag:1'' [65] None (blank_server\<lparr>sv_schema_registry := tag_registry\<rparr>)
       = Some (Inr True, sv) \<and>
     query (at 2) ''Tag'' ''name'' ''A'' (Some 5) None sv = Some (Inr records, sv) \<and>
     \<lparr>kv_key = ''tag:1'', kv_value = [65], kv_expires = None\<rparr> \<in> set records"
proof -
  let ?s = "blank_server\<lparr>sv_schema_registry := tag_registry\<rparr>"
  have ok: "cache_ok ?s" "index_ok plain_wal ?s" by (simp_all add: cache_ok_def index_ok_def ix.agrees_empty)
  obtain sv where p: "put plain_wal (at 1) ''tag:1'' [65] None ?s = Some (Inr True, sv)" "same_config ?s sv"
    "sv_tree sv = fmupd ''tag:1'' \<lparr>rec_value = [65], rec_expires = None, rec_version = 1\<rparr> fmempty"
    using put_spec [of ?s "at 1" None None plain_wal "''tag:1''" "[65]"] ok by (auto simp: ttl_expiry_def)
  have s: "serve plain_wal (at 1) (ReqPut ''tag:1'' [65] None) ?s = Some (Done True, sv)"
    using p(1) by (simp add: reply_with_def)
  have i: "index_ok plain_wal sv" using index_serve [OF _ s] ok(1,2) by (simp add: cache_ok_def)
  have r: "sv_schema_registry sv = tag_registry" using p(2) by (simp add: same_config_def)
  let ?f = "\<lparr>fd_name = ''name'', fd_data_type = StringT, fd_is_indexed = True\<rparr>"
  have g: "registry_ok tag_registry" unfolding tag_registry_def by (intro load_nodes_ok registry_new_ok)
  have t: "fmlookup (reg_types tag_registry) ''Tag'' = Some \<lparr>td_name = ''Tag'', td_fields = [?f], td_prefix = Some ''tag''\<rparr>"
    "fmlookup (reg_prefix_map tag_registry) ''tag'' = Some ''Tag''" "fmlookup (reg_enums tag_registry) ''Tag'' = None"
    by (simp_all add: tag_registry_def load_nodes_def registry_new_def)
  have j: "from_slice plain_wal [65] = Some (JObject [(''name'', JString ''A'')])" by (simp add: plain_wal_def)
  have v: "validate plain_wal tag_registry ''Tag'' (JObject [(''name'', JString ''A'')]) = Inr ()"
    by (simp add: validate_iff t conforms_fields_def conforms_simps)
  let ?r = "\<lparr>rec_value = [65], rec_expires = None, rec_version = 1\<rparr>"
  have "fcard {|''tag:1''|} = 1" by (simp add: fcard.rep_eq)
  then have "\<exists>records. query (at 2) ''Tag'' ''name'' ''A'' (Some 5) None sv = Some (Inr records, sv) \<and>
      answer (''tag:1'', ?r) \<in> set records"
    using typed_record_found [of sv plain_wal "''tag:1''" ?r "at 2" "''Tag''" "JObject [(''name'', JString ''A'')]"
      "\<lparr>td_name = ''Tag'', td_fields = [?f], td_prefix = Some ''tag''\<rparr>" ?f 5]
    by (simp add: r p(3) g i t j v live_def is_expired_def split_first_def)
  then show ?thesis using p(1) by (auto simp: answer_def)
qed

section \<open>The sweep\<close>

lemma evict_fold:
  assumes "index_ok x sv" "cache_ok sv" "distinct (map fst es)"
    and "\<forall>(k, v) \<in> set es. \<exists>r. fmlookup (sv_tree sv) k = Some r \<and> rec_value r = v \<and> rec_expires r \<noteq> None"
  defines "sv' \<equiv> fold (\<lambda>(key, val) s. tree_remove key (remove_record_from_index x key val s)) es sv"
  shows "index_ok x sv' \<and> cache_ok sv' \<and> same_config sv sv' \<and> sv_disk sv' = sv_disk sv \<and>
    sv_global_version sv' = sv_global_version sv \<and>
    sv_tree sv' = fmdrop_set (fst ` set es) (sv_tree sv)"
  using assms(1-4) unfolding sv'_def
proof (induction es arbitrary: sv)
  case Nil
  then show ?case by simp
next
  case (Cons kv es)
  obtain k v where kv: "kv = (k, v)" by (cases kv)
  let ?s = "tree_remove k (remove_record_from_index x k v sv)"
  from Cons.prems(4) kv obtain r where r: "fmlookup (sv_tree sv) k = Some r" "rec_value r = v" "rec_expires r \<noteq> None"
    by auto
  have s: "sv_tree ?s = fmdrop k (sv_tree sv)" "sv_indexes ?s = without_old x k sv" "sv_cache ?s = sv_cache sv"
    "sv_schema_registry ?s = sv_schema_registry sv" "same_config sv ?s" "sv_disk ?s = sv_disk sv"
    "sv_global_version ?s = sv_global_version sv"
    using r by (simp_all add: step_defs without_old_def tree_values_def same_config_def)
  have "index_ok x ?s" using index_ok_erase [OF Cons.prems(1) s(4,1,2)] .
  moreover have "cache_ok ?s"
    using Cons.prems(2) r unfolding cache_ok_def s(1,3) by (metis fmlookup_drop option.inject)
  moreover have "\<forall>(k', v') \<in> set es. \<exists>r. fmlookup (sv_tree ?s) k' = Some r \<and> rec_value r = v' \<and> rec_expires r \<noteq> None"
    using Cons.prems(3,4) kv by (force simp: s(1))
  ultimately have "index_ok x (fold (\<lambda>(key, val) s. tree_remove key (remove_record_from_index x key val s)) es ?s) \<and>
      cache_ok (fold (\<lambda>(key, val) s. tree_remove key (remove_record_from_index x key val s)) es ?s) \<and>
      same_config ?s (fold (\<lambda>(key, val) s. tree_remove key (remove_record_from_index x key val s)) es ?s) \<and>
      sv_disk (fold (\<lambda>(key, val) s. tree_remove key (remove_record_from_index x key val s)) es ?s) = sv_disk ?s \<and>
      sv_global_version (fold (\<lambda>(key, val) s. tree_remove key (remove_record_from_index x key val s)) es ?s)
        = sv_global_version ?s \<and>
      sv_tree (fold (\<lambda>(key, val) s. tree_remove key (remove_record_from_index x key val s)) es ?s) =
        fmdrop_set (fst ` set es) (sv_tree ?s)"
    using Cons.IH [of ?s] Cons.prems(3) kv by simp
  moreover have "fmdrop_set (fst ` set es) (fmdrop k (sv_tree sv)) = fmdrop_set (fst ` set (kv # es)) (sv_tree sv)"
    by (rule fmap_ext) (auto simp: kv)
  ultimately show ?case using kv s same_config_trans [OF s(5)] by simp
qed

text \<open>
  The background sweep removes exactly the expired records: every other record stays with its
  value and version, the index and the cache stay exact and sound, and no client can tell that it
  ran, since it changes neither the log nor the version.
\<close>

theorem sweep_exact:
  assumes "index_ok x sv" "cache_ok sv"
  shows "index_ok x (evict_expired x now sv) \<and> cache_ok (evict_expired x now sv) \<and>
    (\<forall>k. fmlookup (sv_tree (evict_expired x now sv)) k =
       Option.bind (fmlookup (sv_tree sv) k) (\<lambda>r. if live now r then Some r else None)) \<and>
    sv_disk (evict_expired x now sv) = sv_disk sv \<and>
    sv_global_version (evict_expired x now sv) = sv_global_version sv"
proof -
  let ?es = "expired_entries now sv"
  have keys: "map fst ?es = map fst (filter (\<lambda>(k, r). is_expired now (rec_expires r)) (sorted_entries (sv_tree sv)))"
    by (simp add: expired_entries_def comp_def case_prod_beta)
  have d: "distinct (map fst ?es)"
    unfolding keys by (rule distinct_map_filter) (rule sorted_entries_distinct)
  have e: "\<forall>(k, v) \<in> set ?es. \<exists>r. fmlookup (sv_tree sv) k = Some r \<and> rec_value r = v \<and> rec_expires r \<noteq> None"
    by (auto simp: expired_entries_def in_sorted_entries is_expired_def split: option.splits)
  have k: "k \<in> fst ` set ?es \<longleftrightarrow> (\<exists>r. fmlookup (sv_tree sv) k = Some r \<and> \<not> live now r)" for k
    by (force simp: expired_entries_def in_sorted_entries live_def image_iff)
  have "fmlookup (fmdrop_set (fst ` set ?es) (sv_tree sv)) k =
      Option.bind (fmlookup (sv_tree sv) k) (\<lambda>r. if live now r then Some r else None)" for k
    using k [of k] by (cases "fmlookup (sv_tree sv) k") auto
  then show ?thesis using evict_fold [OF assms d e] by (simp add: evict_expired_def)
qed

theorem sweep_exact_witness:
  "\<exists>sv. put plain_wal (at 1) ''user:1'' [65] (Some 9) schema_server = Some (Inr True, sv) \<and>
     fmlookup (sv_tree (evict_expired plain_wal (Some 20) sv)) ''user:1'' = None \<and>
     index_ok plain_wal (evict_expired plain_wal (Some 20) sv)"
proof -
  obtain sv where p: "put plain_wal (at 1) ''user:1'' [65] (Some 9) schema_server = Some (Inr True, sv)"
    "index_ok plain_wal sv" "cache_ok sv"
    "fmlookup (sv_tree sv) ''user:1'' = Some \<lparr>rec_value = [65], rec_expires = Some 10, rec_version = 1\<rparr>"
    using user_put by auto
  show ?thesis using sweep_exact [OF p(2,3), of "Some 20"] p(1,4) by (auto simp: live_def is_expired_def)
qed

end
