(* ===== verification/Transactions.thy ===== *)
theory Transactions
  imports Store_Properties
begin

text \<open>
  Optimistic transactions of src/server.rs (\<open>TxHandle\<close>): a private write set over a snapshot
  version, validated and applied at commit. The write set is a \<open>HashMap\<close>, so the order in which
  \<open>commit\<close> visits it is a parameter.
\<close>

section \<open>The iteration order of a hash map\<close>

text \<open>An order lists every entry of a map once.\<close>

typedef 'v map_order =
  "{f :: (str, 'v) fmap \<Rightarrow> (str \<times> 'v) list. \<forall>m. distinct (map fst (f m)) \<and> map_of (f m) = fmlookup m}"
  morphisms entries Map_order
  by (rule exI [of _ sorted_entries]) (simp add: sorted_entries_distinct map_of_sorted_entries
      del: map_fst_sorted_entries)

definition sorted_order :: "'v map_order" where
  "sorted_order = Map_order sorted_entries"

lemma entries_sorted_order: "entries sorted_order = sorted_entries"
  unfolding sorted_order_def by (rule Map_order_inverse)
    (simp add: sorted_entries_distinct map_of_sorted_entries del: map_fst_sorted_entries)

lemma entries_distinct: "distinct (map fst (entries it m))"
  using entries [of it] by simp

lemma map_of_entries: "map_of (entries it m) = fmlookup m"
  using entries [of it] by simp

lemma in_entries: "(k, v) \<in> set (entries it m) \<longleftrightarrow> fmlookup m k = Some v"
  using map_of_eq_Some_iff [OF entries_distinct [of it m], of k v] by (simp add: map_of_entries)

section \<open>State and operations\<close>

datatype db_error = DbNotFound | Conflict | CommitFailed str

record tx_handle =
  tx_write_set :: "(str, db_record option) fmap"
  tx_snapshot_version :: u64

definition begin_transaction :: "server \<Rightarrow> tx_handle" where
  "begin_transaction sv = \<lparr>tx_write_set = fmempty, tx_snapshot_version = sv_global_version sv\<rparr>"

definition tx_put :: "nat option \<Rightarrow> str \<Rightarrow> bytes \<Rightarrow> u64 option \<Rightarrow> tx_handle \<Rightarrow> tx_handle option" where
  "tx_put now key val ttl_ms tx = do {
     expires_at \<leftarrow> ttl_expiry now ttl_ms;
     Some (tx\<lparr>tx_write_set :=
       fmupd key (Some \<lparr>rec_value = val, rec_expires = expires_at, rec_version = 0\<rparr>) (tx_write_set tx)\<rparr>)
   }"

definition tx_delete :: "str \<Rightarrow> tx_handle \<Rightarrow> tx_handle" where
  "tx_delete key tx = tx\<lparr>tx_write_set := fmupd key None (tx_write_set tx)\<rparr>"

definition tx_rollback :: "tx_handle \<Rightarrow> server \<Rightarrow> server" where
  "tx_rollback tx sv = sv"

text \<open>The validation loop of \<open>commit\<close>.\<close>

definition tx_conflicts :: "u64 \<Rightarrow> (str \<times> db_record option) list \<Rightarrow> server \<Rightarrow> bool" where
  "tx_conflicts snapshot_version ws sv =
     list_ex (\<lambda>(k, _). case fmlookup (sv_tree sv) k of
                         Some rec \<Rightarrow> snapshot_version < rec_version rec
                       | None \<Rightarrow> False) ws"

definition tx_pending :: "(str \<times> db_record option) list \<Rightarrow> wal_command list" where
  "tx_pending ws =
     map (\<lambda>(k, v). case v of Some r \<Rightarrow> Put k (rec_value r) (rec_expires r) | None \<Rightarrow> Delete k) ws"

text \<open>One round of the loop that applies the write set.\<close>

definition tx_apply :: "('n, 'z) serde_scheme \<Rightarrow> u64 \<Rightarrow> str \<Rightarrow> db_record option \<Rightarrow> server \<Rightarrow> server option" where
  "tx_apply x new_version k v sv =
     (let sv1 = unindex_old x k sv in
      case v of
        Some r \<Rightarrow>
          (let sv2 = tree_insert k (r\<lparr>rec_version := new_version\<rparr>) sv1;
               sv3 = index_record x k (rec_value r) sv2
           in cache_invalidate k (send_watch k (Some (rec_value r)) ''PUT'' sv3))
      | None \<Rightarrow> cache_invalidate k (send_watch k None ''DELETE'' (tree_remove k sv1)))"

fun tx_apply_all ::
  "('n, 'z) serde_scheme \<Rightarrow> u64 \<Rightarrow> (str \<times> db_record option) list \<Rightarrow> server \<Rightarrow> server option" where
  "tx_apply_all x new_version [] sv = Some sv"
| "tx_apply_all x new_version ((k, v) # ws) sv = do {
     sv1 \<leftarrow> tx_apply x new_version k v sv;
     tx_apply_all x new_version ws sv1
   }"

definition commit ::
  "('n, 'z) wal_ext_scheme \<Rightarrow> env \<Rightarrow> db_record option map_order \<Rightarrow> tx_handle \<Rightarrow> server
   \<Rightarrow> ((db_error + unit) \<times> server) option" where
  "commit x e it tx sv =
     (let ws = entries it (tx_write_set tx) in
      if sv_is_replica sv then Some (Inl (CommitFailed ''Node is a read-only replica''), sv)
      else if sv_wal_poisoned sv then Some (Inl (CommitFailed ''Lock poisoned''), sv)
      else if tx_conflicts (tx_snapshot_version tx) ws sv then Some (Inl Conflict, sv)
      else do {
        let (new_version, sv1) = next_version sv;
        let pending = tx_pending ws;
        let sv2 = log_command x (en_wal e) new_version (TxCommit pending) sv1;
        let sv3 = send_sync new_version (TxCommit pending) sv2;
        sv4 \<leftarrow> tx_apply_all x new_version ws sv3;
        Some (Inr (), sv4)
      })"

section \<open>Applying a write set\<close>

text \<open>The tree after a write set, whatever the order of its entries.\<close>

definition written :: "u64 \<Rightarrow> (str \<rightharpoonup> db_record option) \<Rightarrow> (str \<rightharpoonup> db_record) \<Rightarrow> (str \<rightharpoonup> db_record)" where
  "written v ws t k = (case ws k of
     None \<Rightarrow> t k | Some None \<Rightarrow> None | Some (Some r) \<Rightarrow> Some (r\<lparr>rec_version := v\<rparr>))"

lemma tx_apply_spec:
  assumes "lru_inv (sv_cache sv)"
  shows "\<exists>sv'. tx_apply x n k v sv = Some sv' \<and> same_config sv sv' \<and> lru_inv (sv_cache sv') \<and>
    lru_abs (sv_cache sv') = (lru_abs (sv_cache sv))(k := None) \<and>
    fmlookup (sv_tree sv') = written n [k \<mapsto> v] (fmlookup (sv_tree sv)) \<and>
    sv_global_version sv' = sv_global_version sv \<and> sv_disk sv' = sv_disk sv \<and> sv_sync sv' = sv_sync sv \<and>
    (index_ok x sv \<longrightarrow> index_ok x sv')"
proof -
  let ?u = "unindex_old x k sv"
  have u: "same_config sv ?u" by simp
  show ?thesis
  proof (cases v)
    case None
    let ?s = "send_watch k None ''DELETE'' (tree_remove k ?u)"
    have s: "sv_cache ?s = sv_cache sv" "sv_tree ?s = fmdrop k (sv_tree sv)" "sv_indexes ?s = without_old x k sv"
      "sv_schema_registry ?s = sv_schema_registry sv" "sv_global_version ?s = sv_global_version sv"
      "sv_disk ?s = sv_disk sv" "sv_sync ?s = sv_sync sv" "same_config sv ?s"
      using u by (simp_all add: send_watch_def tree_remove_def same_config_def)
    obtain c where c: "cache_invalidate k ?s = Some (?s\<lparr>sv_cache := c\<rparr>)" "lru_inv c"
      "lru_abs c = (lru_abs (sv_cache sv))(k := None)"
      using cache_invalidate_spec [of ?s k] assms s(1) by auto
    have "tx_apply x n k v sv = Some (?s\<lparr>sv_cache := c\<rparr>)" using c(1) None by (simp add: tx_apply_def Let_def)
    moreover have "index_ok x sv \<longrightarrow> index_ok x (?s\<lparr>sv_cache := c\<rparr>)"
      using index_ok_erase [of x sv "?s\<lparr>sv_cache := c\<rparr>" k] s by simp
    moreover have "same_config sv (?s\<lparr>sv_cache := c\<rparr>)" using s(8) by (simp add: same_config_def)
    moreover have "fmlookup (sv_tree (?s\<lparr>sv_cache := c\<rparr>)) = written n [k \<mapsto> v] (fmlookup (sv_tree sv))"
      using None by (auto simp: s(2) written_def fun_eq_iff)
    ultimately show ?thesis using c(2,3) s by simp
  next
    case (Some r)
    let ?s = "send_watch k (Some (rec_value r)) ''PUT'' (index_record x k (rec_value r) (tree_insert k (r\<lparr>rec_version := n\<rparr>) ?u))"
    have s: "sv_cache ?s = sv_cache sv" "sv_tree ?s = fmupd k (r\<lparr>rec_version := n\<rparr>) (sv_tree sv)"
      "sv_indexes ?s = index_add x (sv_schema_registry sv) k (rec_value r) (without_old x k sv)"
      "sv_schema_registry ?s = sv_schema_registry sv" "sv_global_version ?s = sv_global_version sv"
      "sv_disk ?s = sv_disk sv" "sv_sync ?s = sv_sync sv" "same_config sv ?s"
      using u by (simp_all add: send_watch_def tree_insert_def same_config_def index_record_def)
    obtain c where c: "cache_invalidate k ?s = Some (?s\<lparr>sv_cache := c\<rparr>)" "lru_inv c"
      "lru_abs c = (lru_abs (sv_cache sv))(k := None)"
      using cache_invalidate_spec [of ?s k] assms s(1) by auto
    have "tx_apply x n k v sv = Some (?s\<lparr>sv_cache := c\<rparr>)" using c(1) Some by (simp add: tx_apply_def Let_def)
    moreover have "index_ok x sv \<longrightarrow> index_ok x (?s\<lparr>sv_cache := c\<rparr>)"
      using index_ok_write [of x sv "?s\<lparr>sv_cache := c\<rparr>" k "r\<lparr>rec_version := n\<rparr>"] s by simp
    moreover have "same_config sv (?s\<lparr>sv_cache := c\<rparr>)" using s(8) by (simp add: same_config_def)
    moreover have "fmlookup (sv_tree (?s\<lparr>sv_cache := c\<rparr>)) = written n [k \<mapsto> v] (fmlookup (sv_tree sv))"
      using Some by (auto simp: s(2) written_def fun_eq_iff)
    ultimately show ?thesis using c(2,3) s by simp
  qed
qed

lemma tx_apply_all_spec:
  "lru_inv (sv_cache sv) \<Longrightarrow> distinct (map fst ws) \<Longrightarrow>
   \<exists>sv'. tx_apply_all x n ws sv = Some sv' \<and> same_config sv sv' \<and> lru_inv (sv_cache sv') \<and>
    lru_abs (sv_cache sv') = lru_abs (sv_cache sv) |` (- fst ` set ws) \<and>
    fmlookup (sv_tree sv') = written n (map_of ws) (fmlookup (sv_tree sv)) \<and>
    sv_global_version sv' = sv_global_version sv \<and> sv_disk sv' = sv_disk sv \<and> sv_sync sv' = sv_sync sv \<and>
    (index_ok x sv \<longrightarrow> index_ok x sv')"
proof (induction ws arbitrary: sv)
  case Nil
  then show ?case by (simp add: written_def)
next
  case (Cons kv ws)
  obtain k v where kv: "kv = (k, v)" by (cases kv)
  obtain s where s: "tx_apply x n k v sv = Some s" "same_config sv s" "lru_inv (sv_cache s)"
    "lru_abs (sv_cache s) = (lru_abs (sv_cache sv))(k := None)"
    "fmlookup (sv_tree s) = written n [k \<mapsto> v] (fmlookup (sv_tree sv))"
    "sv_global_version s = sv_global_version sv" "sv_disk s = sv_disk sv" "sv_sync s = sv_sync sv"
    "index_ok x sv \<longrightarrow> index_ok x s"
    using tx_apply_spec [OF Cons.prems(1), of x n k v] by blast
  have ws: "distinct (map fst ws)" "k \<notin> fst ` set ws" using Cons.prems(2) kv by auto
  obtain sv' where r: "tx_apply_all x n ws s = Some sv'" "same_config s sv'" "lru_inv (sv_cache sv')"
    "lru_abs (sv_cache sv') = lru_abs (sv_cache s) |` (- fst ` set ws)"
    "fmlookup (sv_tree sv') = written n (map_of ws) (fmlookup (sv_tree s))"
    "sv_global_version sv' = sv_global_version s" "sv_disk sv' = sv_disk s" "sv_sync sv' = sv_sync s"
    "index_ok x s \<longrightarrow> index_ok x sv'"
    using Cons.IH [OF s(3) ws(1)] by blast
  have "map_of ws k = None" using ws(2) by (simp add: map_of_eq_None_iff)
  then have "written n (map_of ws) (written n [k \<mapsto> v] t) = written n (map_of (kv # ws)) t" for t
    by (auto simp: written_def kv fun_eq_iff split: option.splits)
  moreover have "(m(k := None)) |` (- fst ` set ws) = m |` (- fst ` set (kv # ws))" for m :: "str \<rightharpoonup> bytes"
    by (auto simp: restrict_map_def kv fun_eq_iff)
  ultimately show ?case
    using s r same_config_trans [OF s(2) r(2)] by (simp add: kv fun_upd_def)
qed

section \<open>Commit\<close>

lemma tx_conflicts_iff:
  "tx_conflicts v (entries it ws) sv \<longleftrightarrow>
     (\<exists>k r. k |\<in>| fmdom ws \<and> fmlookup (sv_tree sv) k = Some r \<and> v < rec_version r)"
  by (force simp: tx_conflicts_def list_ex_iff in_entries fmlookup_dom_iff split: option.splits)

lemma keys_entries: "fst ` set (entries it m) = fset (fmdom m)"
proof -
  have "k \<in> fst ` set (entries it m) \<longleftrightarrow> fmlookup m k \<noteq> None" for k
    using map_of_eq_None_iff [of "entries it m" k] by (simp add: map_of_entries)
  then show ?thesis by (intro set_eqI) (simp add: fmlookup_dom_iff)
qed

lemma commit_spec:
  assumes "cache_ok sv" "\<not> sv_is_replica sv" "\<not> sv_wal_poisoned sv"
    and "\<not> tx_conflicts (tx_snapshot_version tx) (entries it (tx_write_set tx)) sv"
  shows "\<exists>sv'. commit x e it tx sv = Some (Inr (), sv') \<and> same_config sv sv' \<and> cache_ok sv' \<and>
    (\<forall>k. k |\<in>| fmdom (tx_write_set tx) \<longrightarrow> lru_abs (sv_cache sv') k = None) \<and>
    dom (lru_abs (sv_cache sv')) \<subseteq> dom (lru_abs (sv_cache sv)) \<and>
    fmlookup (sv_tree sv') =
      written (sv_global_version sv + 1) (fmlookup (tx_write_set tx)) (fmlookup (sv_tree sv)) \<and>
    sv_global_version sv' = sv_global_version sv + 1 \<and>
    sv_disk sv' = disk_append x (en_wal e) (sv_global_version sv + 1)
      (TxCommit (tx_pending (entries it (tx_write_set tx)))) (sv_wal sv) (sv_disk sv) \<and>
    sv_sync sv' = sv_sync sv @ [(sv_global_version sv + 1, TxCommit (tx_pending (entries it (tx_write_set tx))))] \<and>
    (index_ok x sv \<longrightarrow> index_ok x sv')"
proof -
  let ?v = "sv_global_version sv + 1" and ?ws = "entries it (tx_write_set tx)"
  let ?cmd = "TxCommit (tx_pending ?ws)"
  let ?s = "send_sync ?v ?cmd (log_command x (en_wal e) ?v ?cmd (sv\<lparr>sv_global_version := ?v\<rparr>))"
  have s: "sv_cache ?s = sv_cache sv" "sv_tree ?s = sv_tree sv" "sv_indexes ?s = sv_indexes sv"
    "sv_schema_registry ?s = sv_schema_registry sv" "sv_global_version ?s = ?v"
    "sv_disk ?s = disk_append x (en_wal e) ?v ?cmd (sv_wal sv) (sv_disk sv)"
    "sv_sync ?s = sv_sync sv @ [(?v, ?cmd)]" "same_config sv ?s"
    by (simp_all add: send_sync_def same_config_def)
  have inv: "lru_inv (sv_cache ?s)" using assms(1) s(1) by (simp add: cache_ok_def)
  obtain sv' where a: "tx_apply_all x ?v ?ws ?s = Some sv'" "same_config ?s sv'" "lru_inv (sv_cache sv')"
    "lru_abs (sv_cache sv') = lru_abs (sv_cache ?s) |` (- fst ` set ?ws)"
    "fmlookup (sv_tree sv') = written ?v (map_of ?ws) (fmlookup (sv_tree ?s))"
    "sv_global_version sv' = sv_global_version ?s" "sv_disk sv' = sv_disk ?s" "sv_sync sv' = sv_sync ?s"
    "index_ok x ?s \<longrightarrow> index_ok x sv'"
    using tx_apply_all_spec [OF inv entries_distinct] by blast
  have c: "commit x e it tx sv = Some (Inr (), sv')"
    using assms(2-4) a(1) by (simp add: commit_def Let_def next_version_def)
  have t: "fmlookup (sv_tree sv') = written ?v (fmlookup (tx_write_set tx)) (fmlookup (sv_tree sv))"
    using a(5) s(2) by (simp add: map_of_entries)
  have l: "lru_abs (sv_cache sv') = lru_abs (sv_cache sv) |` (- fset (fmdom (tx_write_set tx)))"
    using a(4) s(1) keys_entries by metis
  have "cache_ok sv'"
    unfolding cache_ok_def
  proof (intro conjI allI impI)
    fix k w
    assume "lru_abs (sv_cache sv') k = Some w"
    then have k: "lru_abs (sv_cache sv) k = Some w" "k |\<notin>| fmdom (tx_write_set tx)"
      by (auto simp: l restrict_map_def split: if_splits)
    then have "fmlookup (tx_write_set tx) k = None" by (simp add: fmdom_notD)
    then show "\<exists>r. fmlookup (sv_tree sv') k = Some r \<and> rec_value r = w \<and> rec_expires r = None"
      using assms(1) k(1) by (simp add: cache_ok_def t written_def)
  qed (rule a(3))
  moreover have "index_ok x sv \<longrightarrow> index_ok x sv'"
    using a(9) index_ok_cong [OF s(4,2,3), of x] by simp
  moreover have "same_config sv sv'" using same_config_trans [OF s(8) a(2)] .
  moreover have "\<forall>k. k |\<in>| fmdom (tx_write_set tx) \<longrightarrow> lru_abs (sv_cache sv') k = None"
    by (simp add: l restrict_map_def)
  moreover have "dom (lru_abs (sv_cache sv')) \<subseteq> dom (lru_abs (sv_cache sv))"
    by (auto simp: l)
  ultimately show ?thesis using c t a(6-8) s(5-7) by simp
qed

section \<open>Properties\<close>

text \<open>
  C4: Commit is all or nothing, and its outcome does not depend on the hash map's order. On a
  leader it fails with a conflict and changes nothing exactly if some record it would write is
  newer than the transaction's snapshot; otherwise it succeeds and the tree is the old one with
  the whole write set applied under one new version, nothing else changed, the index exact, the
  cache sound and free of the written keys.
\<close>

theorem commit_atomic:
  assumes "cache_ok sv" "index_ok x sv" "\<not> sv_is_replica sv" "\<not> sv_wal_poisoned sv"
  shows "if \<exists>k r. k |\<in>| fmdom (tx_write_set tx) \<and> fmlookup (sv_tree sv) k = Some r \<and> tx_snapshot_version tx < rec_version r
    then commit x e it tx sv = Some (Inl Conflict, sv)
    else \<exists>sv'. commit x e it tx sv = Some (Inr (), sv') \<and> cache_ok sv' \<and> index_ok x sv' \<and>
      (\<forall>k. k |\<in>| fmdom (tx_write_set tx) \<longrightarrow> lru_abs (sv_cache sv') k = None) \<and>
      (\<forall>k. fmlookup (sv_tree sv') k =
         (case fmlookup (tx_write_set tx) k of
            None \<Rightarrow> fmlookup (sv_tree sv) k
          | Some None \<Rightarrow> None
          | Some (Some r) \<Rightarrow> Some (r\<lparr>rec_version := sv_global_version sv + 1\<rparr>)))"
proof (cases "tx_conflicts (tx_snapshot_version tx) (entries it (tx_write_set tx)) sv")
  case True
  then show ?thesis
    using assms(3,4) unfolding tx_conflicts_iff [symmetric, where it = it] by (simp add: commit_def)
next
  case False
  obtain sv' where "commit x e it tx sv = Some (Inr (), sv')" "cache_ok sv'" "index_ok x sv'"
    "\<forall>k. k |\<in>| fmdom (tx_write_set tx) \<longrightarrow> lru_abs (sv_cache sv') k = None"
    "fmlookup (sv_tree sv') = written (sv_global_version sv + 1) (fmlookup (tx_write_set tx)) (fmlookup (sv_tree sv))"
    using commit_spec [OF assms(1,3,4) False, of x e] assms(2) by blast
  then show ?thesis using False unfolding tx_conflicts_iff by (auto simp: written_def)
qed

definition sample_tx :: tx_handle where
  "sample_tx = \<lparr>tx_write_set = fmupd ''a'' (Some \<lparr>rec_value = [1], rec_expires = None, rec_version = 0\<rparr>)
     (fmupd ''b'' None fmempty), tx_snapshot_version = 0\<rparr>"

theorem commit_atomic_witness:
  "\<exists>sv'. commit plain_wal (at 1) sorted_order sample_tx blank_server = Some (Inr (), sv') \<and>
     fmlookup (sv_tree sv') ''a'' = Some \<lparr>rec_value = [1], rec_expires = None, rec_version = 1\<rparr>"
  using commit_atomic [OF blank_server_ok, where tx = sample_tx and e = "at 1" and it = sorted_order and x = plain_wal]
  by (auto simp: sample_tx_def)

text \<open>
  First committer wins. When two transactions began at the same version, one puts a record
  under a key the other writes too, and it commits, then the other's commit right after it is
  refused and nothing of it is applied, so the first write is not lost. The version counter must
  not be at its 64-bit limit.
\<close>

theorem first_committer_wins:
  assumes "cache_ok sv" "\<not> sv_is_replica sv" "\<not> sv_wal_poisoned sv"
    and "sv_global_version sv < sv_global_version sv + 1"
    and "tx_snapshot_version tx1 = tx_snapshot_version tx2" "tx_snapshot_version tx2 \<le> sv_global_version sv"
    and "fmlookup (tx_write_set tx1) k = Some (Some r)" "k |\<in>| fmdom (tx_write_set tx2)"
    and "commit x e it tx1 sv = Some (Inr (), sv1)"
  shows "commit x e' it' tx2 sv1 = Some (Inl Conflict, sv1)"
proof -
  have "\<not> tx_conflicts (tx_snapshot_version tx1) (entries it (tx_write_set tx1)) sv"
    using assms(2,3,9) by (auto simp: commit_def)
  then have s: "fmlookup (sv_tree sv1) = written (sv_global_version sv + 1) (fmlookup (tx_write_set tx1)) (fmlookup (sv_tree sv))"
    "same_config sv sv1"
    using commit_spec [OF assms(1-3), of tx1 it x e] assms(9) by auto
  have "fmlookup (sv_tree sv1) k = Some (r\<lparr>rec_version := sv_global_version sv + 1\<rparr>)"
    using assms(7) by (simp add: s(1) written_def)
  moreover have "tx_snapshot_version tx2 < sv_global_version sv + 1" using assms(4,6) by (rule le_less_trans [rotated])
  ultimately have "tx_conflicts (tx_snapshot_version tx2) (entries it' (tx_write_set tx2)) sv1"
    using assms(8) unfolding tx_conflicts_iff by fastforce
  then show ?thesis using s(2) assms(2,3) by (simp add: commit_def same_config_def)
qed

theorem first_committer_wins_witness:
  "\<exists>sv1. commit plain_wal (at 1) sorted_order sample_tx blank_server = Some (Inr (), sv1) \<and>
     commit plain_wal (at 2) sorted_order sample_tx sv1 = Some (Inl Conflict, sv1)"
proof -
  have "\<not> tx_conflicts (tx_snapshot_version sample_tx) (entries sorted_order (tx_write_set sample_tx)) blank_server"
    unfolding tx_conflicts_iff by simp
  then obtain sv1 where c: "commit plain_wal (at 1) sorted_order sample_tx blank_server = Some (Inr (), sv1)"
    using commit_spec [OF blank_server_ok(1), of sample_tx sorted_order plain_wal "at 1"] by auto
  have "commit plain_wal (at 2) sorted_order sample_tx sv1 = Some (Inl Conflict, sv1)"
    by (rule first_committer_wins [OF blank_server_ok(1) _ _ _ _ _ _ _ c, where k = "''a''"])
      (simp_all add: sample_tx_def)
  with c show ?thesis by blast
qed

text \<open>
  A deleted key hides the conflict. Validation looks only at records that are there, so after a
  delete of the key a transaction of any age that writes only this key commits, even one that
  began before the deletion, and overwrites it.
\<close>

theorem delete_hides_conflict:
  assumes "cache_ok sv" "\<not> sv_is_replica sv" "\<not> sv_wal_poisoned sv"
    and "delete x e k sv = Some (Inr True, sv1)"
    and "tx_write_set tx = fmupd k (Some r) fmempty"
  shows "\<exists>sv2. commit x e' it tx sv1 = Some (Inr (), sv2) \<and>
    fmlookup (sv_tree sv2) k = Some (r\<lparr>rec_version := sv_global_version sv1 + 1\<rparr>)"
proof -
  have d: "same_config sv sv1" "lru_inv (sv_cache sv1)" "lru_abs (sv_cache sv1) = (lru_abs (sv_cache sv))(k := None)"
    "sv_tree sv1 = fmdrop k (sv_tree sv)"
    using delete_spec [OF assms(1,2), of x e k] assms(4) by auto
  have c: "cache_ok sv1" using assms(1) d by (auto simp: cache_ok_def)
  have "\<not> sv_is_replica sv1" "\<not> sv_wal_poisoned sv1" using d(1) assms(2,3) by (simp_all add: same_config_def)
  moreover have "\<not> tx_conflicts (tx_snapshot_version tx) (entries it (tx_write_set tx)) sv1"
    unfolding tx_conflicts_iff by (simp add: assms(5) d(4))
  ultimately obtain sv2 where "commit x e' it tx sv1 = Some (Inr (), sv2)"
    "fmlookup (sv_tree sv2) = written (sv_global_version sv1 + 1) (fmlookup (tx_write_set tx)) (fmlookup (sv_tree sv1))"
    using commit_spec [OF c, of tx it x e'] by blast
  then show ?thesis by (auto simp: written_def assms(5))
qed

theorem delete_hides_conflict_witness:
  "\<exists>sv sv1 sv2. put plain_wal (at 1) ''a'' [7] None blank_server = Some (Inr True, sv) \<and>
     delete plain_wal (at 2) ''a'' sv = Some (Inr True, sv1) \<and>
     commit plain_wal (at 3) sorted_order
       \<lparr>tx_write_set = fmupd ''a'' (Some \<lparr>rec_value = [8], rec_expires = None, rec_version = 0\<rparr>) fmempty,
        tx_snapshot_version = 1\<rparr> sv1 = Some (Inr (), sv2)"
proof -
  obtain sv where p: "put plain_wal (at 1) ''a'' [7] None blank_server = Some (Inr True, sv)" "cache_ok sv"
    "\<not> sv_is_replica sv" "\<not> sv_wal_poisoned sv" "lru_abs (sv_cache sv) ''a'' = Some [7]"
    using blank_put [of 1 "''a''" "[7]"] by blast
  then obtain r where "fmlookup (sv_tree sv) ''a'' = Some r" by (auto simp: cache_ok_def)
  then obtain sv1 where d: "delete plain_wal (at 2) ''a'' sv = Some (Inr True, sv1)"
    using delete_spec [OF p(2,3), of plain_wal "at 2" "''a''"] by auto
  let ?tx = "\<lparr>tx_write_set = fmupd ''a'' (Some \<lparr>rec_value = [8], rec_expires = None, rec_version = 0\<rparr>) fmempty,
      tx_snapshot_version = 1\<rparr>"
  show ?thesis
    using delete_hides_conflict [OF p(2-4) d, where tx = ?tx and e' = "at 3" and it = sorted_order] p(1) d by fastforce
qed

text \<open>
  A replica accepts no write: put, delete, compare-and-swap and commit are refused with the
  read-only error and leave its state untouched; it still answers reads.
\<close>

theorem replica_read_only:
  assumes "sv_is_replica sv"
  shows "put x e k v ttl sv = Some (Inl read_only, sv) \<and> delete x e k sv = Some (Inl read_only, sv) \<and>
    cas x e k old v ttl sv = Some (Inl read_only, sv) \<and>
    commit x e it tx sv = Some (Inl (CommitFailed ''Node is a read-only replica''), sv)"
  using assms by (simp add: put_def delete_def cas_def commit_def Let_def)

theorem replica_read_only_witness:
  "put plain_wal (at 1) ''a'' [1] None (blank_server\<lparr>sv_is_replica := True\<rparr>) =
     Some (Inl read_only, blank_server\<lparr>sv_is_replica := True\<rparr>)"
  by (rule replica_read_only [THEN conjunct1]) simp

end
