(* ===== verification/Recovery.thy ===== *)
theory Recovery
  imports Transactions
begin

text \<open>
  Starting a server from its files and saving them: \<open>KindServerImpl::new\<close> (the schema, the
  snapshot, the replay of the log) and \<open>save_snapshot_and_truncate_wal\<close>, the latter as the
  sequence of disks a crash may leave behind. \<open>Unreadable\<close> stands for a file that cannot be
  opened; a snapshot file that opens is taken to be readable to its end.
\<close>

section \<open>Loading\<close>

record recovery =
  rv_tree :: "(str, db_record) fmap"
  rv_indexes :: index_map
  rv_max_ver :: u64

definition recovery_start :: recovery where
  "recovery_start = \<lparr>rv_tree = fmempty, rv_indexes = fmempty, rv_max_ver = 0\<rparr>"

text \<open>One line of the snapshot.\<close>

definition load_line :: "('n, 'z) ext_scheme \<Rightarrow> nat option \<Rightarrow> registry \<Rightarrow> str \<Rightarrow> recovery \<Rightarrow> recovery" where
  "load_line x now reg line st =
     (if is_blank line then st
      else (case snap_from_str x line of
              None \<Rightarrow> st
            | Some sr \<Rightarrow>
                if is_expired now (rec_expires (snap_record sr)) then st
                else \<lparr>rv_tree = fmupd (snap_key sr) (snap_record sr) (rv_tree st),
                      rv_indexes = index_add x reg (snap_key sr) (rec_value (snap_record sr)) (rv_indexes st),
                      rv_max_ver = max (rv_max_ver st) (rec_version (snap_record sr))\<rparr>))"

definition load_snapshot ::
  "('n, 'z) ext_scheme \<Rightarrow> nat option \<Rightarrow> registry \<Rightarrow> file_state \<Rightarrow> recovery \<Rightarrow> recovery" where
  "load_snapshot x now reg file st =
     (case file of Content s \<Rightarrow> fold (load_line x now reg) (file_lines s) st | _ \<Rightarrow> st)"

text \<open>A put or a delete of the log, alone or inside a transaction; a nested transaction is ignored.\<close>

definition replay_write ::
  "('n, 'z) serde_scheme \<Rightarrow> nat option \<Rightarrow> registry \<Rightarrow> u64 \<Rightarrow> wal_command \<Rightarrow> recovery \<Rightarrow> recovery" where
  "replay_write x now reg version cmd st =
     (case cmd of
        Put key val expires_at \<Rightarrow>
          if is_expired now expires_at then st
          else st\<lparr>rv_indexes := index_add x reg key val (rv_indexes st),
                  rv_tree := fmupd key \<lparr>rec_value = val, rec_expires = expires_at, rec_version = version\<rparr> (rv_tree st)\<rparr>
      | Delete key \<Rightarrow>
          (let st1 = (case fmlookup (rv_tree st) key of
                        Some old \<Rightarrow> st\<lparr>rv_indexes := index_del x reg key (rec_value old) (rv_indexes st)\<rparr>
                      | None \<Rightarrow> st)
           in st1\<lparr>rv_tree := fmdrop key (rv_tree st1)\<rparr>)
      | TxCommit cmds \<Rightarrow> st)"

definition replay_command ::
  "('n, 'z) serde_scheme \<Rightarrow> nat option \<Rightarrow> registry \<Rightarrow> u64 \<times> wal_command \<Rightarrow> recovery \<Rightarrow> recovery" where
  "replay_command x now reg entry st =
     (let (tx_id, cmd) = entry;
          max_ver = (if 0 < tx_id then max (rv_max_ver st) tx_id else rv_max_ver st + 1);
          st1 = st\<lparr>rv_max_ver := max_ver\<rparr>
      in case cmd of
           TxCommit cmds \<Rightarrow> fold (replay_write x now reg (max_ver + 1)) cmds st1
         | _ \<Rightarrow> replay_write x now reg max_ver cmd st1)"

definition replay_log ::
  "('n, 'z) wal_ext_scheme \<Rightarrow> nat option \<Rightarrow> registry \<Rightarrow> file_state \<Rightarrow> recovery \<Rightarrow> recovery" where
  "replay_log x now reg file st =
     (case read_all_commands x file of
        Inr commands \<Rightarrow> fold (replay_command x now reg) commands st
      | Inl _ \<Rightarrow> st)"

definition load_schema_file :: "(str \<Rightarrow> file_state) \<Rightarrow> str option \<Rightarrow> registry" where
  "load_schema_file disk schema_path =
     (case schema_path of
        Some path \<Rightarrow> (case disk path of Content sdl \<Rightarrow> snd (load_schema sdl registry_new) | _ \<Rightarrow> registry_new)
      | None \<Rightarrow> registry_new)"

text \<open>\<open>Wal::new(path).ok()\<close>: the log is opened for appending and created if it is missing.\<close>

definition wal_new :: "bool \<Rightarrow> str \<Rightarrow> (str \<Rightarrow> file_state) \<Rightarrow> str option \<times> (str \<Rightarrow> file_state)" where
  "wal_new creatable path disk =
     (case disk path of
        Content s \<Rightarrow> (Some path, disk)
      | Absent \<Rightarrow> if creatable then (Some path, disk(path := Content [])) else (None, disk)
      | Unreadable \<Rightarrow> (None, disk))"

definition recover ::
  "('n, 'z) ext_scheme \<Rightarrow> nat option \<Rightarrow> registry \<Rightarrow> str option \<Rightarrow> str option \<Rightarrow> (str \<Rightarrow> file_state) \<Rightarrow> recovery" where
  "recover x now reg snapshot_path wal_path disk =
     (let st1 = (case snapshot_path of
                   Some path \<Rightarrow> load_snapshot x now reg (disk path) recovery_start
                 | None \<Rightarrow> recovery_start)
      in case wal_path of
           Some path \<Rightarrow> replay_log x now reg (disk path) st1
         | None \<Rightarrow> st1)"

definition server_new ::
  "('n, 'z) ext_scheme \<Rightarrow> nat option \<Rightarrow> bool \<Rightarrow> str option \<Rightarrow> str option \<Rightarrow> str option \<Rightarrow> bool
   \<Rightarrow> (str \<Rightarrow> file_state) \<Rightarrow> server option" where
  "server_new x now creatable snapshot_path schema_path wal_path is_replica disk = do {
     cache \<leftarrow> lru_new 1000;
     let reg = load_schema_file disk schema_path;
     let st = recover x now reg snapshot_path wal_path disk;
     let (wal, disk1) = (case wal_path of Some path \<Rightarrow> wal_new creatable path disk | None \<Rightarrow> (None, disk));
     Some \<lparr>sv_tree = rv_tree st, sv_indexes = rv_indexes st, sv_cache = cache,
       sv_snapshot_path = snapshot_path, sv_schema_registry = reg, sv_wal = wal, sv_wal_poisoned = False,
       sv_global_version = rv_max_ver st, sv_watch = [], sv_wal_path = wal_path,
       sv_is_replica = is_replica, sv_sync = [], sv_disk = disk1\<rparr>
   }"

text \<open>Starting never panics: the cache's capacity is positive.\<close>

lemma server_new_total: "\<exists>sv. server_new x now creatable sp schema_path wp is_replica disk = Some sv"
  by (simp add: server_new_def lru_new_fresh Let_def split: prod.split)

lemma server_new_paths:
  "server_new x now creatable sp schema_path wp is_replica disk = Some sv \<Longrightarrow>
   sv_snapshot_path sv = sp \<and> sv_wal_path sv = wp \<and> sv_is_replica sv = is_replica"
  by (auto simp: server_new_def lru_new_fresh Let_def split: prod.splits)

section \<open>Saving\<close>

definition snapshot_line :: "('n, 'z) ext_scheme \<Rightarrow> str \<times> db_record \<Rightarrow> str" where
  "snapshot_line x e = snap_to_string x \<lparr>snap_key = fst e, snap_record = snd e\<rparr>"

definition snapshot_text :: "('n, 'z) ext_scheme \<Rightarrow> nat option \<Rightarrow> server \<Rightarrow> str" where
  "snapshot_text x now sv =
     concat (map (\<lambda>e. snapshot_line x e @ [newline])
       (filter (\<lambda>(k, r). \<not> is_expired now (rec_expires r)) (sorted_entries (sv_tree sv))))"

text \<open>
  What the system does during a save: whether the temporary file can be created, how much the
  buffered writer has written to it by the end of the loop, whether the rename and the truncation
  succeed, and whether the rest of the buffer is written when the writer is dropped. That drop is
  the end of the function, after the rename and the truncation; its errors are ignored, as are
  those of the writes.
\<close>

record save_env =
  sn_create_ok :: bool
  sn_flushed :: nat
  sn_rename_ok :: bool
  sn_truncate_ok :: bool
  sn_drop_ok :: bool

definition temp_path :: "str \<Rightarrow> str" where
  "temp_path path = path @ ''.tmp''"

text \<open>The disks after the system calls of a save, in order; the last one is what remains.\<close>

definition save_disks ::
  "('n, 'z) ext_scheme \<Rightarrow> nat option \<Rightarrow> save_env \<Rightarrow> str \<Rightarrow> server \<Rightarrow> (str \<Rightarrow> file_state) list" where
  "save_disks x now se path sv =
     (let temp = temp_path path;
          content = snapshot_text x now sv;
          d0 = sv_disk sv
      in if \<not> sn_create_ok se then [d0]
         else
           (let d1 = d0(temp := Content []);
                d2 = d1(temp := Content (take (sn_flushed se) content))
            in if \<not> sn_rename_ok se
               then [d0, d1, d2, if sn_drop_ok se then d2(temp := Content content) else d2]
               else
                 (let d3 = d2(path := Content (take (sn_flushed se) content), temp := Absent);
                      d4 = (case sv_wal sv of
                              Some w \<Rightarrow> (case d3 w of
                                            Content s \<Rightarrow> if sn_truncate_ok se then d3(w := Content (snd (wal_truncate s))) else d3
                                          | _ \<Rightarrow> d3)
                            | None \<Rightarrow> d3);
                      d5 = (if sn_drop_ok se then d4(path := Content content) else d4)
                  in [d0, d1, d2, d3, d4, d5])))"

text \<open>A poisoned lock makes \<open>unwrap\<close> panic.\<close>

definition save_snapshot_and_truncate_wal ::
  "('n, 'z) ext_scheme \<Rightarrow> nat option \<Rightarrow> save_env \<Rightarrow> server \<Rightarrow> server option" where
  "save_snapshot_and_truncate_wal x now se sv =
     (case sv_snapshot_path sv of
        None \<Rightarrow> Some sv
      | Some path \<Rightarrow>
          if sv_wal_poisoned sv then None
          else Some (sv\<lparr>sv_disk := last (save_disks x now se path sv)\<rparr>))"

section \<open>What the snapshot relies on\<close>

text \<open>The JSON of a snapshot record is one line, not blank, and is read back.\<close>

definition snap_codec_ok :: "('n, 'z) ext_scheme \<Rightarrow> bool" where
  "snap_codec_ok x \<longleftrightarrow>
     (\<forall>sr. snap_from_str x (snap_to_string x sr) = Some sr \<and> newline \<notin> set (snap_to_string x sr) \<and>
           carriage_return \<notin> set (snap_to_string x sr) \<and> \<not> is_blank (snap_to_string x sr))"

section \<open>Contents\<close>

text \<open>What a recovery holds, as the abstract store.\<close>

definition rv_store :: "recovery \<Rightarrow> store" where
  "rv_store st k = map_option (\<lambda>r. (rec_value r, rec_expires r)) (fmlookup (rv_tree st) k)"

lemma rv_store_start [simp]: "rv_store recovery_start = Map.empty"
  by (simp add: rv_store_def recovery_start_def fun_eq_iff)

text \<open>The effect of a log command on the abstract store, when nothing in it has expired.\<close>

fun apply_write :: "wal_command \<Rightarrow> store \<Rightarrow> store" where
  "apply_write (Put k v ex) m = m(k \<mapsto> (v, ex))"
| "apply_write (Delete k) m = m(k := None)"
| "apply_write (TxCommit cs) m = m"

fun apply_logged :: "wal_command \<Rightarrow> store \<Rightarrow> store" where
  "apply_logged (TxCommit cs) m = fold apply_write cs m"
| "apply_logged c m = apply_write c m"

fun never_expires :: "wal_command \<Rightarrow> bool" where
  "never_expires (Put k v ex) \<longleftrightarrow> ex = None"
| "never_expires (Delete k) \<longleftrightarrow> True"
| "never_expires (TxCommit cs) \<longleftrightarrow> list_all never_expires cs"

lemma rv_store_write:
  "never_expires c \<Longrightarrow> rv_store (replay_write x now reg v c st) = apply_write c (rv_store st)"
  by (cases c) (auto simp: replay_write_def rv_store_def fun_eq_iff Let_def split: option.splits)

lemma rv_store_writes:
  "list_all never_expires cs \<Longrightarrow> rv_store (fold (replay_write x now reg v) cs st) = fold apply_write cs (rv_store st)"
  by (induction cs arbitrary: st) (simp_all add: rv_store_write)

lemma rv_store_command:
  assumes "never_expires c"
  shows "rv_store (replay_command x now reg (tx, c) st) = apply_logged c (rv_store st)"
proof -
  have "rv_store (st\<lparr>rv_max_ver := v\<rparr>) = rv_store st" for v by (simp add: rv_store_def fun_eq_iff)
  then show ?thesis
    using assms by (cases c) (simp_all add: replay_command_def Let_def rv_store_write rv_store_writes)
qed

text \<open>Appending an entry to the log is one more command of the replay.\<close>

lemma replay_log_snoc:
  assumes "wal_codec_ok x" "at_boundary s"
  shows "replay_log x now reg (Content (s @ entry_line x (tx, c))) st =
    replay_command x now reg (tx, c) (replay_log x now reg (Content s) st)"
proof -
  obtain cs where "read_all_commands x (Content s) = Inr cs" by (simp add: read_all_commands_def)
  then show ?thesis using read_all_entry [OF assms] by (simp add: replay_log_def)
qed

lemma replay_log_empty: "replay_log x now reg (Content []) st = st"
  by (simp add: replay_log_def read_all_commands_def map_filter_simps)

section \<open>Loading a saved snapshot\<close>

lemma file_lines_concat:
  "\<forall>l \<in> set ls. newline \<notin> set l \<and> strip_cr l = l \<Longrightarrow> file_lines (concat (map (\<lambda>l. l @ [newline]) ls)) = ls"
  by (induction ls) (auto simp: file_lines_line)

lemma snap_codec_ok_line:
  assumes "snap_codec_ok x"
  shows "newline \<notin> set (snap_to_string x sr)" "strip_cr (snap_to_string x sr) = snap_to_string x sr"
    "\<not> is_blank (snap_to_string x sr)" "snap_from_str x (snap_to_string x sr) = Some sr"
  using assms strip_cr_id by (auto simp: snap_codec_ok_def)

lemma load_lines_tree:
  "snap_codec_ok x \<Longrightarrow> distinct (map fst es) \<Longrightarrow>
   fmlookup (rv_tree (fold (load_line x now reg) (map (snapshot_line x) es) st)) =
     fmlookup (rv_tree st) ++ (\<lambda>k. Option.bind (map_of es k) (\<lambda>r. if live now r then Some r else None))"
proof (induction es arbitrary: st)
  case Nil
  then show ?case by (simp add: fun_eq_iff map_add_def)
next
  case (Cons e es)
  obtain k r where e: "e = (k, r)" by (cases e)
  have "map_of es k = None" using Cons.prems(2) e by (simp add: map_of_eq_None_iff)
  then show ?case
    using Cons.IH [OF Cons.prems(1), of "load_line x now reg (snapshot_line x e) st"] Cons.prems
    by (auto simp: e load_line_def snapshot_line_def snap_codec_ok_line live_def map_add_def fun_eq_iff split: option.splits)
qed

text \<open>A saved snapshot loads to the records that live both when it is saved and when it is loaded.\<close>

lemma load_saved:
  assumes "snap_codec_ok x"
  shows "fmlookup (rv_tree (load_snapshot x now' reg (Content (snapshot_text x now sv)) recovery_start)) k =
    Option.bind (fmlookup (sv_tree sv) k) (\<lambda>r. if live now r \<and> live now' r then Some r else None)"
proof -
  let ?es = "filter (\<lambda>(k, r). \<not> is_expired now (rec_expires r)) (sorted_entries (sv_tree sv))"
  have "snapshot_text x now sv = concat (map (\<lambda>l. l @ [newline]) (map (snapshot_line x) ?es))"
    by (simp add: snapshot_text_def comp_def)
  moreover have "\<forall>l \<in> set (map (snapshot_line x) ?es). newline \<notin> set l \<and> strip_cr l = l"
    using snap_codec_ok_line [OF assms] by (auto simp: snapshot_line_def)
  ultimately have "file_lines (snapshot_text x now sv) = map (snapshot_line x) ?es"
    by (simp only: file_lines_concat)
  moreover have "distinct (map fst ?es)" by (rule distinct_map_filter) (rule sorted_entries_distinct)
  moreover have "map_of ?es k = Option.bind (fmlookup (sv_tree sv) k) (\<lambda>r. if live now r then Some r else None)" for k
  proof (cases "map_of ?es k")
    case None
    then have "(k, r) \<notin> set ?es" for r using weak_map_of_SomeI [of k r ?es] by auto
    then show ?thesis using None by (auto simp: in_sorted_entries live_def split: Option.bind_splits)
  next
    case (Some r)
    then have "(k, r) \<in> set ?es" by (rule map_of_SomeD)
    then show ?thesis using Some by (auto simp: in_sorted_entries live_def)
  qed
  ultimately show ?thesis
    using load_lines_tree [OF assms, of ?es now' reg recovery_start]
    by (auto simp: load_snapshot_def recovery_start_def split: Option.bind_splits)
qed

end
