(* ===== verification/Durability.thy ===== *)
theory Durability
  imports Recovery
begin

text \<open>
  Crash recovery: what a restart finds after any history of requests, commits, sweeps and saves
  whose log writes succeeded and that set no expiry times, and what it finds after a crash in the
  middle of an append or of a save.
\<close>

section \<open>Histories\<close>

datatype action =
  Request env request
| Commit env "db_record option map_order" tx_handle
| Sweep "nat option"
| Save "nat option" save_env

definition perform :: "('n, 'z) ext_scheme \<Rightarrow> action \<Rightarrow> server \<Rightarrow> server option" where
  "perform x a sv = (case a of
     Request e req \<Rightarrow> map_option snd (serve x e req sv)
   | Commit e it tx \<Rightarrow> map_option snd (commit x e it tx sv)
   | Sweep now \<Rightarrow> Some (evict_expired x now sv)
   | Save now se \<Rightarrow> save_snapshot_and_truncate_wal x now se sv)"

fun perform_all :: "('n, 'z) ext_scheme \<Rightarrow> action list \<Rightarrow> server \<Rightarrow> server option" where
  "perform_all x [] sv = Some sv"
| "perform_all x (a # as) sv = do { sv1 \<leftarrow> perform x a sv; perform_all x as sv1 }"

text \<open>
  The actions considered: nothing is given a time to live, every append is written and synced,
  and a save that renames its file also writes out the rest of its buffer. The save may fail to
  create or to rename the file, and may fail to truncate the log.
\<close>

fun no_ttl :: "request \<Rightarrow> bool" where
  "no_ttl (ReqPut k v ttl) \<longleftrightarrow> ttl = None"
| "no_ttl (ReqCas k old new ttl) \<longleftrightarrow> ttl = None"
| "no_ttl _ \<longleftrightarrow> True"

definition eternal_writes :: "tx_handle \<Rightarrow> bool" where
  "eternal_writes tx \<longleftrightarrow> (\<forall>k r. fmlookup (tx_write_set tx) k = Some (Some r) \<longrightarrow> rec_expires r = None)"

fun action_ok :: "action \<Rightarrow> bool" where
  "action_ok (Request e req) \<longleftrightarrow> en_wal e = Written \<and> no_ttl req"
| "action_ok (Commit e it tx) \<longleftrightarrow> en_wal e = Written \<and> eternal_writes tx"
| "action_ok (Sweep now) \<longleftrightarrow> True"
| "action_ok (Save now se) \<longleftrightarrow> sn_create_ok se \<and> sn_rename_ok se \<longrightarrow> sn_drop_ok se"

section \<open>Replaying a log twice\<close>

text \<open>
  What the commands of a log leave under a key: nothing is said (\<open>None\<close>), or its final content.
  Hence a log may be replayed over the state it led to.
\<close>

fun write_of :: "wal_command \<Rightarrow> str \<rightharpoonup> (bytes \<times> u64 option) option" where
  "write_of (Put k v ex) = [k \<mapsto> Some (v, ex)]"
| "write_of (Delete k) = [k \<mapsto> None]"
| "write_of (TxCommit cs) = Map.empty"

definition overlay :: "(str \<rightharpoonup> (bytes \<times> u64 option) option) \<Rightarrow> store \<Rightarrow> store" where
  "overlay w m k = (case w k of Some c \<Rightarrow> c | None \<Rightarrow> m k)"

lemma apply_write_overlay: "apply_write c m = overlay (write_of c) m"
  by (cases c) (auto simp: overlay_def fun_eq_iff)

lemma overlay_overlay: "overlay w (overlay w' m) = overlay (w' ++ w) m"
  by (auto simp: overlay_def fun_eq_iff map_add_def split: option.splits)

lemma apply_writes_overlay: "\<exists>w. \<forall>m. fold apply_write cs m = overlay w m"
proof (induction cs rule: rev_induct)
  case Nil
  show ?case by (rule exI [of _ Map.empty]) (simp add: overlay_def fun_eq_iff)
next
  case (snoc c cs)
  then obtain w where "\<forall>m. fold apply_write cs m = overlay w m" by blast
  then show ?case
    by (intro exI [of _ "w ++ write_of c"]) (simp add: apply_write_overlay [of c] overlay_overlay)
qed

lemma apply_logged_overlay: "\<exists>w. \<forall>m. apply_logged c m = overlay w m"
proof (cases c)
  case (TxCommit cs)
  then show ?thesis using apply_writes_overlay [of cs] by simp
qed (auto intro!: exI [of _ "write_of c"] simp: apply_write_overlay)

lemma apply_log_overlay: "\<exists>w. \<forall>m. fold apply_logged cs m = overlay w m"
proof (induction cs rule: rev_induct)
  case Nil
  show ?case by (rule exI [of _ Map.empty]) (simp add: overlay_def fun_eq_iff)
next
  case (snoc c cs)
  then obtain w where w: "\<forall>m. fold apply_logged cs m = overlay w m" by blast
  obtain w' where "\<forall>m. apply_logged c m = overlay w' m" using apply_logged_overlay by blast
  with w show ?case by (intro exI [of _ "w ++ w'"]) (simp add: overlay_overlay)
qed

lemma apply_log_twice: "fold apply_logged cs (fold apply_logged cs m) = fold apply_logged cs m"
proof -
  obtain w where "\<forall>m. fold apply_logged cs m = overlay w m" using apply_log_overlay by blast
  moreover have "overlay w (overlay w m) = overlay w m" by (auto simp: overlay_def fun_eq_iff split: option.splits)
  ultimately show ?thesis by simp
qed

section \<open>The invariant\<close>

text \<open>The commands in a log, for a text with only whole lines.\<close>

definition logged :: "('n, 'z) wal_ext_scheme \<Rightarrow> str \<Rightarrow> wal_command list" where
  "logged x s = (case read_all_commands x (Content s) of Inr es \<Rightarrow> map snd es | Inl _ \<Rightarrow> [])"

lemma logged_snoc:
  "wal_codec_ok x \<Longrightarrow> at_boundary s \<Longrightarrow> logged x (s @ entry_line x (tx, c)) = logged x s @ [c]"
proof -
  assume a: "wal_codec_ok x" "at_boundary s"
  obtain cs where "read_all_commands x (Content s) = Inr cs" by (simp add: read_all_commands_def)
  then show ?thesis using read_all_entry [OF a] by (simp add: logged_def)
qed

lemma replay_logged:
  assumes "list_all never_expires (logged x s)"
  shows "rv_store (replay_log x now reg (Content s) st) = fold apply_logged (logged x s) (rv_store st)"
proof -
  obtain es where es: "read_all_commands x (Content s) = Inr es" by (simp add: read_all_commands_def)
  have "list_all never_expires (map snd es) \<Longrightarrow>
      rv_store (fold (replay_command x now reg) es st) = fold apply_logged (map snd es) (rv_store st)"
    by (induction es arbitrary: st) (auto simp: rv_store_command)
  then show ?thesis using assms es by (simp add: replay_log_def logged_def)
qed

text \<open>The store a snapshot file holds, as any restart sees it.\<close>

definition snapshot_holds :: "('n, 'z) ext_scheme \<Rightarrow> str option \<Rightarrow> (str \<Rightarrow> file_state) \<Rightarrow> store \<Rightarrow> bool" where
  "snapshot_holds x p d m \<longleftrightarrow>
     (\<forall>now reg. rv_store (case p of Some path \<Rightarrow> load_snapshot x now reg (d path) recovery_start
                                  | None \<Rightarrow> recovery_start) = m)"

text \<open>A store in which nothing expires.\<close>

definition eternal :: "store \<Rightarrow> bool" where
  "eternal m \<longleftrightarrow> (\<forall>k v ex. m k = Some (v, ex) \<longrightarrow> ex = None)"

text \<open>
  A durable server: its log is open and whole, distinct from the snapshot files, and snapshot and
  log together hold exactly the tree, in which nothing expires.
\<close>

definition durable :: "('n, 'z) ext_scheme \<Rightarrow> server \<Rightarrow> bool" where
  "durable x sv \<longleftrightarrow> serving UNIV sv \<and> eternal (abs_store sv) \<and>
     (\<exists>w s m. sv_wal sv = Some w \<and> sv_wal_path sv = Some w \<and> sv_disk sv w = Content s \<and> at_boundary s \<and>
        (\<forall>p. sv_snapshot_path sv = Some p \<longrightarrow> p \<noteq> w \<and> temp_path p \<noteq> w) \<and>
        list_all never_expires (logged x s) \<and> snapshot_holds x (sv_snapshot_path sv) (sv_disk sv) m \<and>
        fold apply_logged (logged x s) m = abs_store sv)"

lemma durable_intro:
  assumes "serving UNIV sv" "eternal (abs_store sv)" "sv_wal sv = Some w" "sv_wal_path sv = Some w"
    "sv_disk sv w = Content s" "at_boundary s" "\<forall>p. sv_snapshot_path sv = Some p \<longrightarrow> p \<noteq> w \<and> temp_path p \<noteq> w"
    "list_all never_expires (logged x s)" "snapshot_holds x (sv_snapshot_path sv) (sv_disk sv) m"
    "fold apply_logged (logged x s) m = abs_store sv"
  shows "durable x sv"
  unfolding durable_def using assms by blast

lemma durable_recovers:
  assumes "durable x sv"
  shows "rv_store (recover x now reg (sv_snapshot_path sv) (sv_wal_path sv) (sv_disk sv)) = abs_store sv"
proof -
  obtain w s m where "sv_wal_path sv = Some w" "sv_disk sv w = Content s" "list_all never_expires (logged x s)"
    "snapshot_holds x (sv_snapshot_path sv) (sv_disk sv) m" "fold apply_logged (logged x s) m = abs_store sv"
    using assms by (auto simp: durable_def)
  then show ?thesis
    by (cases "sv_snapshot_path sv") (simp_all add: recover_def snapshot_holds_def replay_logged)
qed

text \<open>One logged command keeps the server durable.\<close>

lemma durable_log:
  assumes "wal_codec_ok x" "durable x sv" "serving UNIV sv'" "same_config sv sv'"
    and "sv_disk sv' = disk_append x Written tx c (sv_wal sv) (sv_disk sv)"
    and "never_expires c" "abs_store sv' = apply_logged c (abs_store sv)"
    and "eternal (abs_store sv')"
  shows "durable x sv'"
proof -
  obtain w s m where d: "sv_wal sv = Some w" "sv_wal_path sv = Some w" "sv_disk sv w = Content s" "at_boundary s"
    "\<forall>p. sv_snapshot_path sv = Some p \<longrightarrow> p \<noteq> w \<and> temp_path p \<noteq> w" "list_all never_expires (logged x s)"
    "snapshot_holds x (sv_snapshot_path sv) (sv_disk sv) m" "fold apply_logged (logged x s) m = abs_store sv"
    using assms(2) by (auto simp: durable_def)
  let ?s = "s @ entry_line x (tx, c)"
  have disk: "sv_disk sv' = (sv_disk sv)(w := Content ?s)"
    using assms(5) d(1,3) by (simp add: disk_append_def wal_append_written)
  have "at_boundary ?s" by (simp add: at_boundary_def entry_line_def)
  moreover have "snapshot_holds x (sv_snapshot_path sv') (sv_disk sv') m"
    using d(5,7) assms(4) by (auto simp: snapshot_holds_def disk same_config_def split: option.splits)
  moreover have "fold apply_logged (logged x ?s) m = abs_store sv'"
    using d(8) assms(7) by (simp add: logged_snoc [OF assms(1) d(4)])
  moreover have "list_all never_expires (logged x ?s)"
    using d(6) assms(6) by (simp add: logged_snoc [OF assms(1) d(4)])
  ultimately show ?thesis
    using assms(3,4,8) d(1,2,5) disk by (auto simp: durable_def same_config_def)
qed

lemma durable_cong:
  "durable x sv \<Longrightarrow> serving UNIV sv' \<Longrightarrow> same_config sv sv' \<Longrightarrow> sv_disk sv' = sv_disk sv \<Longrightarrow>
   abs_store sv' = abs_store sv \<Longrightarrow> durable x sv'"
  by (auto simp: durable_def same_config_def)

section \<open>Each action keeps the server durable\<close>

text \<open>
  What a request did to the disk, the store, the version and the replication channel: nothing, or
  one command, logged and sent under the next version.
\<close>

definition logs_or_keeps :: "('n, 'z) wal_ext_scheme \<Rightarrow> env \<Rightarrow> server \<Rightarrow> server \<Rightarrow> bool" where
  "logs_or_keeps x e sv sv' \<longleftrightarrow> same_config sv sv' \<and>
     (sv_disk sv' = sv_disk sv \<and> abs_store sv' = abs_store sv \<and> sv_sync sv' = sv_sync sv \<and>
        sv_global_version sv' = sv_global_version sv \<or>
      (\<exists>c. sv_disk sv' = disk_append x (en_wal e) (sv_global_version sv + 1) c (sv_wal sv) (sv_disk sv) \<and>
         never_expires c \<and> abs_store sv' = apply_logged c (abs_store sv) \<and>
         sv_sync sv' = sv_sync sv @ [(sv_global_version sv + 1, c)] \<and>
         sv_global_version sv' = sv_global_version sv + 1))"

lemma logs_intro:
  assumes "same_config sv sv'" "never_expires c"
    and "sv_disk sv' = disk_append x (en_wal e) (sv_global_version sv + 1) c (sv_wal sv) (sv_disk sv)"
    and "abs_store sv' = apply_logged c (abs_store sv)"
    and "sv_sync sv' = sv_sync sv @ [(sv_global_version sv + 1, c)]"
    and "sv_global_version sv' = sv_global_version sv + 1"
  shows "logs_or_keeps x e sv sv'"
  unfolding logs_or_keeps_def using assms by blast

lemma apply_write_eternal: "never_expires c \<Longrightarrow> eternal m \<Longrightarrow> eternal (apply_write c m)"
  by (cases c) (auto simp: eternal_def)

lemma apply_writes_eternal: "list_all never_expires cs \<Longrightarrow> eternal m \<Longrightarrow> eternal (fold apply_write cs m)"
  by (induction cs arbitrary: m) (simp_all add: apply_write_eternal)

lemma apply_logged_eternal: "never_expires c \<Longrightarrow> eternal m \<Longrightarrow> eternal (apply_logged c m)"
  using apply_write_eternal [of c m] by (cases c) (simp_all add: apply_writes_eternal)

lemma durable_step:
  assumes "wal_codec_ok x" "durable x sv" "serving UNIV sv'" "logs_or_keeps x e sv sv'" "en_wal e = Written"
  shows "durable x sv'"
proof -
  have sc: "same_config sv sv'" using assms(4) by (simp add: logs_or_keeps_def)
  consider "sv_disk sv' = sv_disk sv" "abs_store sv' = abs_store sv"
    | c where "sv_disk sv' = disk_append x Written (sv_global_version sv + 1) c (sv_wal sv) (sv_disk sv)" "never_expires c"
        "abs_store sv' = apply_logged c (abs_store sv)"
    using assms(4) unfolding logs_or_keeps_def assms(5) by blast
  then show ?thesis
  proof cases
    case 1
    then show ?thesis using durable_cong [OF assms(2,3) sc] by blast
  next
    case 2
    have "eternal (abs_store sv')"
      unfolding 2(3) using assms(2) by (intro apply_logged_eternal [OF 2(2)]) (simp add: durable_def)
    then show ?thesis using durable_log [OF assms(1-3) sc 2] by blast
  qed
qed

text \<open>Each write request without a time to live, on a leader whose log is not poisoned.\<close>

lemma put_logs:
  assumes "lru_inv (sv_cache sv)" "\<not> sv_is_replica sv" "\<not> sv_wal_poisoned sv" "ttl_expiry (en_now e) ttl = Some None"
    and "put x e k v ttl sv = Some (r, sv')"
  shows "logs_or_keeps x e sv sv'"
proof -
  obtain sv1 where p: "put x e k v ttl sv = Some (Inr True, sv1)" "same_config sv sv1"
    "sv_tree sv1 = fmupd k \<lparr>rec_value = v, rec_expires = None, rec_version = sv_global_version sv + 1\<rparr> (sv_tree sv)"
    "sv_disk sv1 = (if sv_wal_poisoned sv then sv_disk sv
      else disk_append x (en_wal e) (sv_global_version sv + 1) (Put k v None) (sv_wal sv) (sv_disk sv))"
    "sv_sync sv1 = sv_sync sv @ [(sv_global_version sv + 1, Put k v None)]"
    "sv_global_version sv1 = sv_global_version sv + 1"
    using put_spec [OF assms(1,2,4), of x k v] by blast
  have "abs_store sv1 = apply_logged (Put k v None) (abs_store sv)"
    using abs_store_upd(1) [OF p(3)] by simp
  then show ?thesis using p assms(3,5) logs_intro [of sv sv1 "Put k v None" x e] by simp
qed

lemma delete_logs:
  assumes "cache_ok sv" "\<not> sv_is_replica sv" "\<not> sv_wal_poisoned sv" "delete x e k sv = Some (r, sv')"
  shows "logs_or_keeps x e sv sv'"
proof -
  obtain sv1 where d: "delete x e k sv = Some (Inr (fmlookup (sv_tree sv) k \<noteq> None), sv1)" "same_config sv sv1"
    "sv_tree sv1 = fmdrop k (sv_tree sv)"
    "if fmlookup (sv_tree sv) k = None then sv1 = sv
     else sv_global_version sv1 = sv_global_version sv + 1 \<and>
       sv_disk sv1 = (if sv_wal_poisoned sv then sv_disk sv
         else disk_append x (en_wal e) (sv_global_version sv + 1) (Delete k) (sv_wal sv) (sv_disk sv)) \<and>
       sv_sync sv1 = sv_sync sv @ [(sv_global_version sv + 1, Delete k)] \<and>
       sv_watch sv1 = sv_watch sv @ [\<lparr>we_key = k, we_new_value = None, we_operation_type = ''DELETE''\<rparr>]"
    using delete_spec [OF assms(1,2), of x e k] by blast
  have s: "sv' = sv1" using assms(4) d(1) by simp
  show ?thesis
  proof (cases "fmlookup (sv_tree sv) k")
    case None
    then show ?thesis using d(4) s by (simp add: logs_or_keeps_def)
  next
    case (Some r0)
    moreover have "abs_store sv1 = apply_logged (Delete k) (abs_store sv)"
      using abs_store_upd(2) [OF d(3)] by simp
    ultimately show ?thesis using d(2,4) assms(3) s logs_intro [of sv sv1 "Delete k" x e] by simp
  qed
qed

lemma cas_logs:
  assumes "lru_inv (sv_cache sv)" "\<not> sv_is_replica sv" "\<not> sv_wal_poisoned sv" "ttl_expiry (en_now e) ttl = Some None"
    and "cas x e k old new ttl sv = Some (r, sv')"
  shows "logs_or_keeps x e sv sv'"
proof (cases "sv' = sv")
  case True
  then show ?thesis by (simp add: logs_or_keeps_def)
next
  case False
  obtain s where s: "cas_write x e k new None s = Some (r, sv')"
    "s = sv \<or> s = remove_record_from_index x k old sv"
    using assms(5) False unfolding cas_branches [OF assms(2-4)] by (auto split: option.splits if_splits)
  have s': "same_config sv s" "sv_cache s = sv_cache sv" "sv_tree s = sv_tree sv" "sv_wal s = sv_wal sv"
    "sv_disk s = sv_disk sv" "sv_sync s = sv_sync sv" "sv_global_version s = sv_global_version sv"
    using s(2) by (auto simp: remove_record_from_index_def same_config_def)
  have inv: "lru_inv (sv_cache s)" using assms(1) s'(2) by simp
  have w: "same_config s sv'"
    "sv_tree sv' = fmupd k \<lparr>rec_value = new, rec_expires = None, rec_version = sv_global_version s + 1\<rparr> (sv_tree s)"
    "sv_disk sv' = disk_append x (en_wal e) (sv_global_version s + 1) (Put k new None) (sv_wal s) (sv_disk s)"
    "sv_sync sv' = sv_sync s @ [(sv_global_version s + 1, Put k new None)]"
    "sv_global_version sv' = sv_global_version s + 1"
    using cas_write_spec [OF inv, of x e k new None] s(1) by auto
  have "abs_store sv' = apply_logged (Put k new None) (abs_store sv)"
    using abs_store_upd(1) [of sv' k _ sv] w(2) s'(3) by simp
  then show ?thesis
    using same_config_trans [OF s'(1) w(1)] w(3-5) s'(4-7) logs_intro [of sv sv' "Put k new None" x e] by simp
qed

lemma get_keeps:
  assumes "cache_ok sv" "eternal (abs_store sv)" "get x e k sv = Some (r, sv')"
  shows "logs_or_keeps x e sv sv'"
proof -
  have eternal: "rec_expires r0 = None" if "fmlookup (sv_tree sv) k = Some r0" for r0
    using assms(2) that by (auto simp: abs_store_def eternal_def)
  obtain a sv1 where g: "get x e k sv = Some (a, sv1)" "same_config sv sv1" "sv_disk sv1 = sv_disk sv"
    "sv_sync sv1 = sv_sync sv" "sv_global_version sv1 = sv_global_version sv"
    and t: "case fmlookup (sv_tree sv) k of
       Some r \<Rightarrow> if live (en_now e) r then sv_tree sv1 = sv_tree sv \<and> sv_indexes sv1 = sv_indexes sv
                else sv_tree sv1 = fmdrop k (sv_tree sv) \<and> sv_indexes sv1 = without_old x k sv
     | None \<Rightarrow> sv_tree sv1 = sv_tree sv \<and> sv_indexes sv1 = sv_indexes sv"
    using get_spec [OF assms(1), of x e k] by blast
  have "sv_tree sv1 = sv_tree sv" using t eternal by (auto simp: live_def split: option.splits)
  moreover have "sv' = sv1" using assms(3) g(1) by simp
  ultimately show ?thesis using g abs_store_upd(3) [of sv1 sv] by (simp add: logs_or_keeps_def)
qed

lemma serve_logs_or_keeps:
  assumes "serving P sv \<and> eternal (abs_store sv)" "no_ttl req" "serve x e req sv = Some (r, sv')"
  shows "logs_or_keeps x e sv sv'"
proof -
  have sv: "cache_ok sv" "lru_inv (sv_cache sv)" "\<not> sv_is_replica sv" "\<not> sv_wal_poisoned sv" "eternal (abs_store sv)"
    using assms(1) by (simp_all add: serving_def cache_ok_def)
  show ?thesis
    using assms(2,3) get_keeps [OF sv(1,5)] put_logs [OF sv(2-4) ttl_expiry_None]
      delete_logs [OF sv(1,3,4)] cas_logs [OF sv(2-4) ttl_expiry_None]
    by (cases req) (auto simp: reply_with_def)
qed

lemma apply_pending:
  "distinct (map fst ws) \<Longrightarrow> fold apply_write (tx_pending ws) m k =
     (case map_of ws k of
        None \<Rightarrow> m k | Some None \<Rightarrow> None | Some (Some r) \<Rightarrow> Some (rec_value r, rec_expires r))"
proof (induction ws arbitrary: m)
  case Nil
  then show ?case by (simp add: tx_pending_def)
next
  case (Cons kv ws)
  obtain j v where kv: "kv = (j, v)" by (cases kv)
  have "tx_pending (kv # ws) = (case v of Some r \<Rightarrow> Put j (rec_value r) (rec_expires r) | None \<Rightarrow> Delete j) # tx_pending ws"
    by (simp add: tx_pending_def kv)
  moreover have "j = k \<Longrightarrow> map_of ws k = None" using Cons.prems kv by (simp add: map_of_eq_None_iff)
  ultimately show ?case using Cons.IH Cons.prems kv by (auto split: option.splits)
qed

lemma never_expires_pending:
  "eternal_writes tx \<Longrightarrow> list_all never_expires (tx_pending (entries it (tx_write_set tx)))"
  by (auto simp: list_all_iff tx_pending_def in_entries eternal_writes_def split: option.splits)

lemma commit_logs_or_keeps:
  assumes "cache_ok sv" "\<not> sv_is_replica sv" "\<not> sv_wal_poisoned sv" "eternal_writes tx"
  shows "\<exists>r sv'. commit x e it tx sv = Some (r, sv') \<and> logs_or_keeps x e sv sv' \<and> cache_ok sv'"
proof (cases "tx_conflicts (tx_snapshot_version tx) (entries it (tx_write_set tx)) sv")
  case True
  then show ?thesis using assms(1-3) by (simp add: commit_def logs_or_keeps_def)
next
  case False
  let ?c = "TxCommit (tx_pending (entries it (tx_write_set tx)))"
  obtain sv' where c: "commit x e it tx sv = Some (Inr (), sv')" "same_config sv sv'" "cache_ok sv'"
    "fmlookup (sv_tree sv') = written (sv_global_version sv + 1) (fmlookup (tx_write_set tx)) (fmlookup (sv_tree sv))"
    "sv_disk sv' = disk_append x (en_wal e) (sv_global_version sv + 1) ?c (sv_wal sv) (sv_disk sv)"
    "sv_sync sv' = sv_sync sv @ [(sv_global_version sv + 1, ?c)]" "sv_global_version sv' = sv_global_version sv + 1"
    using commit_spec [OF assms(1-3) False, of x e] by blast
  have "abs_store sv' = apply_logged ?c (abs_store sv)"
    by (auto simp: abs_store_def c(4) written_def apply_pending [OF entries_distinct] map_of_entries fun_eq_iff
        split: option.splits)
  moreover have "never_expires ?c" using never_expires_pending [OF assms(4)] by simp
  ultimately have "logs_or_keeps x e sv sv'" using c(2,5-7) logs_intro by blast
  then show ?thesis using c(1,3) by blast
qed

lemma commit_durable:
  assumes "wal_codec_ok x" "durable x sv" "en_wal e = Written" "eternal_writes tx"
  shows "\<exists>r sv'. commit x e it tx sv = Some (r, sv') \<and> durable x sv'"
proof -
  have sv: "cache_ok sv" "\<not> sv_is_replica sv" "\<not> sv_wal_poisoned sv"
    using assms(2) by (simp_all add: durable_def serving_def)
  obtain r sv' where c: "commit x e it tx sv = Some (r, sv')" "logs_or_keeps x e sv sv'" "cache_ok sv'"
    using commit_logs_or_keeps [OF sv assms(4), of x e it] by blast
  then have "serving UNIV sv'" using sv by (simp add: serving_def same_config_def logs_or_keeps_def)
  then show ?thesis using c(1,2) durable_step [OF assms(1,2) _ _ assms(3)] by blast
qed

lemma spec_step_no_ttl: "no_ttl req \<Longrightarrow> \<exists>r m'. spec_step e req m = Some (r, m')"
proof (cases req)
  case (ReqGet k)
  then show ?thesis by (cases "m k") auto
next
  case (ReqCas k old new ttl)
  assume "no_ttl req"
  then show ?thesis using ReqCas by (auto intro: prod.exhaust)
qed auto

lemma serve_durable:
  assumes "wal_codec_ok x" "durable x sv" "en_wal e = Written" "no_ttl req"
  shows "\<exists>r sv'. serve x e req sv = Some (r, sv') \<and> durable x sv'"
proof -
  have "serving UNIV sv" using assms(2) by (simp add: durable_def)
  moreover have "separate UNIV req" using assms(4) by (cases req) auto
  ultimately obtain r sv' where s: "serve x e req sv = Some (r, sv')" "serving UNIV sv'"
    using serve_refines [where P = UNIV and sv = sv and req = req and e = e and x = x] spec_step_no_ttl [OF assms(4), of e "abs_store sv"] by fastforce
  then show ?thesis
    using durable_step [OF assms(1,2) s(2) serve_logs_or_keeps [OF _ assms(4) s(1)] assms(3)] assms(2)
    unfolding durable_def by blast
qed

lemma sweep_durable: "durable x sv \<Longrightarrow> evict_expired x' now sv = sv"
proof -
  assume "durable x sv"
  then have "rec_expires r = None" if "(k, r) \<in> set (sorted_entries (sv_tree sv))" for k r
    using that by (auto simp: durable_def eternal_def abs_store_def in_sorted_entries)
  then have "expired_entries now sv = []" by (fastforce simp: expired_entries_def filter_empty_conv)
  then show ?thesis by (simp add: evict_expired_def)
qed

lemma temp_path_neq [simp]: "temp_path p \<noteq> p" "p \<noteq> temp_path p"
  by (auto simp: temp_path_def)

lemma snapshot_holds_saved:
  assumes "snap_codec_ok x" "eternal (abs_store sv)" "d p = Content (snapshot_text x now sv)"
  shows "snapshot_holds x (Some p) d (abs_store sv)"
proof -
  have "rec_expires r = None" if "fmlookup (sv_tree sv) k = Some r" for k r
    using assms(2) that by (auto simp: eternal_def abs_store_def)
  then show ?thesis
    unfolding snapshot_holds_def
    by (auto simp: assms(3) rv_store_def abs_store_def load_saved [OF assms(1)] live_def fun_eq_iff
        split: Option.bind_splits)
qed

lemma disk_irrelevant [simp]:
  "abs_store (sv\<lparr>sv_disk := d\<rparr>) = abs_store sv" "serving P (sv\<lparr>sv_disk := d\<rparr>) = serving P sv"
  by (simp_all add: abs_store_def serving_def cache_ok_def fun_eq_iff)

lemma durable_disk:
  assumes "durable x sv" "sv_wal sv = Some w" "sv_disk sv w = Content s" "d w = Content s"
    and "\<forall>p. sv_snapshot_path sv = Some p \<longrightarrow> d p = sv_disk sv p"
  shows "durable x (sv\<lparr>sv_disk := d\<rparr>)"
proof -
  have "snapshot_holds x (sv_snapshot_path sv) d = snapshot_holds x (sv_snapshot_path sv) (sv_disk sv)"
    using assms(5) by (auto simp: snapshot_holds_def fun_eq_iff split: option.splits)
  then show ?thesis using assms(1-4) by (auto simp: durable_def)
qed

text \<open>The disk a complete save leaves.\<close>

lemma last_save_disk:
  assumes "sv_wal sv = Some w" "sv_disk sv w = Content s" "p \<noteq> w" "temp_path p \<noteq> w"
    and "sn_create_ok se" "sn_rename_ok se" "sn_drop_ok se"
  shows "last (save_disks x now se p sv) =
    (sv_disk sv)(p := Content (snapshot_text x now sv), temp_path p := Absent,
                 w := Content (if sn_truncate_ok se then [] else s))"
proof -
  have "w \<noteq> p" "w \<noteq> temp_path p" using assms(3,4) by auto
  then show ?thesis
    using assms by (auto simp: save_disks_def Let_def wal_truncate_def fun_upd_twist fun_eq_iff)
qed

lemma save_durable:
  assumes "snap_codec_ok x" "durable x sv" "sn_create_ok se \<and> sn_rename_ok se \<longrightarrow> sn_drop_ok se"
  shows "\<exists>sv'. save_snapshot_and_truncate_wal x now se sv = Some sv' \<and> durable x sv' \<and> abs_store sv' = abs_store sv"
proof (cases "sv_snapshot_path sv")
  case None
  then show ?thesis using assms(2) by (simp add: save_snapshot_and_truncate_wal_def)
next
  case (Some p)
  obtain w s m where d: "sv_wal sv = Some w" "sv_wal_path sv = Some w" "sv_disk sv w = Content s" "at_boundary s"
    "p \<noteq> w" "temp_path p \<noteq> w" "list_all never_expires (logged x s)"
    "fold apply_logged (logged x s) m = abs_store sv" "serving UNIV sv" "eternal (abs_store sv)"
    "\<forall>p. sv_snapshot_path sv = Some p \<longrightarrow> p \<noteq> w \<and> temp_path p \<noteq> w"
    using assms(2) Some by (auto simp: durable_def)
  let ?d = "last (save_disks x now se p sv)"
  have save: "save_snapshot_and_truncate_wal x now se sv = Some (sv\<lparr>sv_disk := ?d\<rparr>)"
    using Some d(9) by (simp add: save_snapshot_and_truncate_wal_def serving_def)
  have "durable x (sv\<lparr>sv_disk := ?d\<rparr>)"
  proof (cases "sn_create_ok se \<and> sn_rename_ok se")
    case False
    then have "?d w = sv_disk sv w \<and> ?d p = sv_disk sv p"
      using d(6) by (auto simp: save_disks_def Let_def)
    then show ?thesis using durable_disk [OF assms(2) d(1,3), of ?d] d(3) Some by simp
  next
    case True
    let ?s = "if sn_truncate_ok se then [] else s"
    have l: "?d = (sv_disk sv)(p := Content (snapshot_text x now sv), temp_path p := Absent, w := Content ?s)"
      using last_save_disk [OF d(1,3,5,6)] True assms(3) by blast
    have "?d p = Content (snapshot_text x now sv)" using d(5) by (simp add: l)
    then have h: "snapshot_holds x (sv_snapshot_path sv) ?d (abs_store sv)"
      unfolding Some by (rule snapshot_holds_saved [OF assms(1) d(10)])
    have e: "logged x [] = []" by (simp add: logged_def read_all_commands_def map_filter_simps)
    have "fold apply_logged (logged x s) (abs_store sv) = abs_store sv"
      using apply_log_twice [of "logged x s" m] unfolding d(8) .
    then have f: "fold apply_logged (logged x ?s) (abs_store sv) = abs_store sv" using e by simp
    have b: "at_boundary ?s" "list_all never_expires (logged x ?s)" "?d w = Content ?s"
      using d(4,7) e by (simp_all add: at_boundary_def l)
    show ?thesis
    proof (rule durable_intro [where w = w and s = ?s and m = "abs_store sv"])
      show "snapshot_holds x (sv_snapshot_path (sv\<lparr>sv_disk := ?d\<rparr>)) (sv_disk (sv\<lparr>sv_disk := ?d\<rparr>)) (abs_store sv)"
        using h by simp
      show "fold apply_logged (logged x ?s) (abs_store sv) = abs_store (sv\<lparr>sv_disk := ?d\<rparr>)"
        unfolding disk_irrelevant(1) by (rule f)
    qed (use d(1,2,9-11) b in simp_all)
  qed
  then show ?thesis using save by auto
qed

lemma perform_durable:
  assumes "wal_codec_ok x" "snap_codec_ok x" "durable x sv" "action_ok a"
  shows "\<exists>sv'. perform x a sv = Some sv' \<and> durable x sv'"
proof (cases a)
  case (Request e req)
  then show ?thesis using serve_durable [OF assms(1,3), of e req] assms(4) by (auto simp: perform_def)
next
  case (Commit e it tx)
  then show ?thesis using commit_durable [OF assms(1,3), of e tx it] assms(4) by (auto simp: perform_def)
next
  case (Sweep now)
  then show ?thesis using sweep_durable [OF assms(3), where x' = x and now = now] assms(3) by (simp add: perform_def)
next
  case (Save now se)
  then show ?thesis using save_durable [OF assms(2,3), of se now] assms(4) by (auto simp: perform_def)
qed

lemma perform_all_durable:
  "wal_codec_ok x \<Longrightarrow> snap_codec_ok x \<Longrightarrow> durable x sv \<Longrightarrow> list_all action_ok as \<Longrightarrow>
   \<exists>sv'. perform_all x as sv = Some sv' \<and> durable x sv'"
proof (induction as arbitrary: sv)
  case Nil
  then show ?case by simp
next
  case (Cons a as)
  obtain sv1 where "perform x a sv = Some sv1" "durable x sv1"
    using perform_durable [OF Cons.prems(1-3), of a] Cons.prems(4) by auto
  then show ?case using Cons.IH [of sv1] Cons.prems by auto
qed

end
