(* ===== verification/Durability_Properties.thy ===== *)
theory Durability_Properties
  imports Durability
begin

text \<open>
  The properties of saving, logging and restarting: what a restart recovers, at which points a
  crash is safe, and where the replay differs from the state it replays.
\<close>

section \<open>A snapshot cut short\<close>

text \<open>A proper part of the JSON text of an object is not read: its closing brace is missing.\<close>

definition snap_torn_ok :: "('n, 'z) ext_scheme \<Rightarrow> bool" where
  "snap_torn_ok x \<longleftrightarrow>
     (\<forall>sr n. n < length (snap_to_string x sr) \<longrightarrow> snap_from_str x (take n (snap_to_string x sr)) = None)"

text \<open>
  The records whose lines lie within the first \<open>n\<close> characters of a snapshot; the newline of the last
  one may be missing.
\<close>

fun whole_entries :: "('n, 'z) ext_scheme \<Rightarrow> nat \<Rightarrow> (str \<times> db_record) list \<Rightarrow> (str \<times> db_record) list" where
  "whole_entries x n [] = []"
| "whole_entries x n (e # es) =
     (if n < length (snapshot_line x e) then []
      else e # whole_entries x (n - Suc (length (snapshot_line x e))) es)"

lemma snapshot_line_ok:
  assumes "snap_codec_ok x"
  shows "newline \<notin> set (snapshot_line x e)" "strip_cr (snapshot_line x e) = snapshot_line x e" "snapshot_line x e \<noteq> []"
  using snap_codec_ok_line [OF assms, of "\<lparr>snap_key = fst e, snap_record = snd e\<rparr>"]
  by (auto simp: snapshot_line_def is_blank_def)

lemma load_cut:
  assumes "snap_codec_ok x" "snap_torn_ok x"
  shows "fold (load_line x now reg) (file_lines (take n (concat (map (\<lambda>e. snapshot_line x e @ [newline]) es)))) st =
    fold (load_line x now reg) (map (snapshot_line x) (whole_entries x n es)) st"
proof (induction es arbitrary: n st)
  case Nil
  then show ?case by simp
next
  case (Cons e es)
  let ?l = "snapshot_line x e" and ?r = "concat (map (\<lambda>e. snapshot_line x e @ [newline]) es)"
  note l = snapshot_line_ok [OF assms(1), of e]
  consider "n < length ?l" | "n = length ?l" | m where "n = Suc (length ?l + m)"
    by (metis less_imp_Suc_add linorder_neqE_nat)
  then show ?case
  proof cases
    case 1
    have "newline \<notin> set (take n ?l)" using l(1) in_set_takeD by metis
    then have "file_lines (take n ?l) = (if take n ?l = [] then [] else [take n ?l])"
      using file_lines_last by simp
    moreover have "load_line x now reg (take n ?l) st = st"
      using assms(2) 1 by (simp add: load_line_def snapshot_line_def snap_torn_ok_def)
    ultimately show ?thesis using 1 by simp
  next
    case 2
    have "whole_entries x 0 es = []"
      using snapshot_line_ok(3) [OF assms(1)] by (cases es) simp_all
    then show ?thesis using 2 file_lines_last [OF l(1,3)] by simp
  next
    case 3
    have "take n (concat (map (\<lambda>e. snapshot_line x e @ [newline]) (e # es))) = ?l @ newline # take m ?r"
      using 3 by simp
    then show ?thesis using file_lines_line [OF l(1), of "take m ?r"] l(2) Cons.IH [of m] 3 by simp
  qed
qed

lemma whole_entries_part: "\<exists>j. whole_entries x n es = take j es"
proof (induction es arbitrary: n)
  case (Cons e es)
  obtain j where "whole_entries x (n - Suc (length (snapshot_line x e))) es = take j es" using Cons.IH by blast
  then show ?case by (cases "n < length (snapshot_line x e)") (auto intro: exI [of _ 0] exI [of _ "Suc j"])
qed simp

lemma whole_entries_all:
  "length (concat (map (\<lambda>e. snapshot_line x e @ [newline]) es)) \<le> Suc n \<Longrightarrow> whole_entries x n es = es"
proof (induction es arbitrary: n)
  case (Cons e es)
  then show ?case by simp
qed simp

lemma map_of_take: "map_of (take j es) = map_of es |` (fst ` set (take j es))"
proof
  fix k
  have "map_of es k = (map_of (drop j es) ++ map_of (take j es)) k"
    by (metis append_take_drop_id map_of_append)
  moreover have "map_of (take j es) k \<noteq> None" if "k \<in> fst ` set (take j es)"
    using that by (simp add: map_of_eq_None_iff)
  ultimately show "map_of (take j es) k = (map_of es |` (fst ` set (take j es))) k"
    by (cases "k \<in> fst ` set (take j es)") (auto simp: map_add_def map_of_eq_None_iff restrict_map_def split: option.splits)
qed

text \<open>The keys found in the first \<open>n\<close> characters of a server's snapshot.\<close>

definition snapshot_keys :: "('n, 'z) ext_scheme \<Rightarrow> nat \<Rightarrow> server \<Rightarrow> str set" where
  "snapshot_keys x n sv = fst ` set (whole_entries x n (sorted_entries (sv_tree sv)))"

lemma eternal_live: "eternal (abs_store sv) \<Longrightarrow> (k, r) \<in> set (sorted_entries (sv_tree sv)) \<Longrightarrow> rec_expires r = None"
  by (auto simp: eternal_def abs_store_def in_sorted_entries)

lemma eternal_snapshot_text:
  assumes "eternal (abs_store sv)"
  shows "snapshot_text x now sv = concat (map (\<lambda>e. snapshot_line x e @ [newline]) (sorted_entries (sv_tree sv)))"
proof -
  have "filter (\<lambda>(k, r). \<not> is_expired now (rec_expires r)) (sorted_entries (sv_tree sv)) = sorted_entries (sv_tree sv)"
    using eternal_live [OF assms] by (fastforce simp: filter_id_conv)
  then show ?thesis by (simp add: snapshot_text_def)
qed

text \<open>None of them when nothing has been written, all of them when at most the last newline is missing.\<close>

lemma snapshot_keys_ends:
  assumes "snap_codec_ok x" "eternal (abs_store sv)"
  shows "snapshot_keys x 0 sv = {}"
    and "length (snapshot_text x now sv) \<le> Suc n \<Longrightarrow> snapshot_keys x n sv = dom (abs_store sv)"
proof -
  show "snapshot_keys x 0 sv = {}"
    using snapshot_line_ok(3) [OF assms(1)] by (cases "sorted_entries (sv_tree sv)") (simp_all add: snapshot_keys_def)
  assume "length (snapshot_text x now sv) \<le> Suc n"
  then have "snapshot_keys x n sv = fst ` set (sorted_entries (sv_tree sv))"
    by (simp only: eternal_snapshot_text [OF assms(2)] snapshot_keys_def whole_entries_all)
  then show "snapshot_keys x n sv = dom (abs_store sv)"
    by (simp add: dom_map_of_conv_image_fst [symmetric] map_of_sorted_entries abs_store_def dom_def)
qed

lemma load_cut_snapshot:
  assumes "snap_codec_ok x" "snap_torn_ok x" "eternal (abs_store sv)"
  shows "rv_store (load_snapshot x now' reg (Content (take n (snapshot_text x now sv))) recovery_start) =
    abs_store sv |` snapshot_keys x n sv"
proof -
  let ?es = "sorted_entries (sv_tree sv)" and ?ws = "whole_entries x n (sorted_entries (sv_tree sv))"
  obtain j where j: "?ws = take j ?es" using whole_entries_part by blast
  have d: "distinct (map fst ?ws)" unfolding j take_map [symmetric] using sorted_entries_distinct by (rule distinct_take)
  have m: "map_of ?ws = fmlookup (sv_tree sv) |` snapshot_keys x n sv"
    unfolding snapshot_keys_def j map_of_take map_of_sorted_entries ..
  have none: "rec_expires r = None" if "fmlookup (sv_tree sv) k = Some r" for k r
    using that assms(3) by (auto simp: eternal_def abs_store_def)
  have "fmlookup (rv_tree (fold (load_line x now' reg) (map (snapshot_line x) ?ws) recovery_start)) k =
      (fmlookup (sv_tree sv) |` snapshot_keys x n sv) k" for k
    using load_lines_tree [OF assms(1) d, of now' reg recovery_start] none
    by (cases "fmlookup (sv_tree sv) k") (simp_all add: m map_add_def restrict_map_def recovery_start_def live_def)
  then show ?thesis
    by (simp add: load_snapshot_def eternal_snapshot_text [OF assms(3)] load_cut [OF assms(1,2)] rv_store_def fun_eq_iff
        restrict_map_def abs_store_def)
qed

section \<open>A codec for the instances\<close>

definition enc_snap :: "snapshot_record \<Rightarrow> str" where
  "enc_snap sr = enc_list enc_char (snap_key sr) @ enc_list enc_word (rec_value (snap_record sr)) @
     enc_opt enc_word (rec_expires (snap_record sr)) @ enc_word (rec_version (snap_record sr))"

definition dec_snap :: "str \<Rightarrow> (snapshot_record \<times> str) option" where
  "dec_snap s = do {
     (k, s1) \<leftarrow> dec_list dec_char s;
     (v, s2) \<leftarrow> dec_list dec_word s1;
     (e, s3) \<leftarrow> dec_opt dec_word s2;
     (n, s4) \<leftarrow> dec_word s3;
     Some (\<lparr>snap_key = k, snap_record = \<lparr>rec_value = v, rec_expires = e, rec_version = n\<rparr>\<rparr>, s4)
   }"

text \<open>As for the log, the reader accepts nothing but what is written.\<close>

definition read_snap :: "str \<Rightarrow> snapshot_record option" where
  "read_snap s = (case dec_snap s of
     Some (sr, []) \<Rightarrow> if enc_snap sr = s then Some sr else None | _ \<Rightarrow> None)"

definition plain_ext :: "nat ext" where
  "plain_ext = wal_ext.extend plain_wal \<lparr>snap_to_string = enc_snap, snap_from_str = read_snap\<rparr>"

lemma dec_snap_enc: "dec_snap (enc_snap sr @ r) = Some (sr, r)"
  by (simp add: dec_snap_def enc_snap_def dec_enc)

lemma enc_snap_prefix_free: "enc_snap sr @ r = enc_snap sr' \<Longrightarrow> r = []"
  using dec_snap_enc [of sr r] dec_snap_enc [of sr' "[]"] by simp

lemma read_snap_enc: "read_snap (enc_snap sr) = Some sr"
  using dec_snap_enc [of sr "[]"] by (simp add: read_snap_def)

lemma read_snap_sound: "read_snap s = Some sr \<Longrightarrow> s = enc_snap sr"
  by (auto simp: read_snap_def split: option.splits list.splits if_splits)

lemma plain_ext_simps [simp]:
  "env_to_string plain_ext = plain_env" "env_from_str plain_ext = read_env" "cmd_from_str plain_ext = read_cmd"
  "snap_to_string plain_ext = enc_snap" "snap_from_str plain_ext = read_snap" "from_slice plain_ext = plain_json"
  by (simp_all add: plain_ext_def wal_ext.defs plain_wal_def)

lemma plain_ext_codec: "wal_codec_ok plain_ext" "wal_torn_ok plain_ext"
  using plain_wal_codec_ok plain_wal_torn_ok by (simp_all add: wal_codec_ok_def wal_torn_ok_def plain_wal_def)

lemma plain_ext_snap: "snap_codec_ok plain_ext"
proof -
  have s: "set (enc_snap sr) \<subseteq> {CHR ''i'', CHR ''.''}" for sr
    using set_enc_list [of enc_char "{CHR ''i'', CHR ''.''}" "snap_key sr"] set_enc_nat
      set_enc_list [of enc_word "{CHR ''i'', CHR ''.''}" "rec_value (snap_record sr)"]
      set_enc_list [of enc_word "{CHR ''i'', CHR ''.''}" "case rec_expires (snap_record sr) of None \<Rightarrow> [] | Some x \<Rightarrow> [x]"]
    by (simp add: enc_snap_def enc_char_def enc_word_def enc_opt_def)
  have "newline \<notin> {CHR ''i'', CHR ''.''}" "carriage_return \<notin> {CHR ''i'', CHR ''.''}"
    by (simp_all add: newline_def carriage_return_def)
  moreover have "\<not> is_blank (enc_snap sr)" for sr
  proof -
    have "enc_snap sr \<noteq> []" by (simp add: enc_snap_def enc_list_def enc_nat_def)
    then have "hd (enc_snap sr) \<in> {CHR ''i'', CHR ''.''}" using s by (meson hd_in_set subsetD)
    then have "\<not> is_whitespace (hd (enc_snap sr))" by (auto simp: char_class_defs)
    then show ?thesis using \<open>enc_snap sr \<noteq> []\<close> by (auto simp: is_blank_def list_all_iff)
  qed
  ultimately show ?thesis using s unfolding snap_codec_ok_def plain_ext_simps by (auto simp: read_snap_enc dest: subsetD)
qed

lemma plain_ext_snap_torn: "snap_torn_ok plain_ext"
proof -
  have "read_snap (take n (enc_snap sr)) = None" if n: "n < length (enc_snap sr)" for sr n
  proof (rule ccontr)
    assume "read_snap (take n (enc_snap sr)) \<noteq> None"
    then obtain sr' where "take n (enc_snap sr) = enc_snap sr'" using read_snap_sound by blast
    then have "enc_snap sr' @ drop n (enc_snap sr) = enc_snap sr" by (metis append_take_drop_id)
    then have "drop n (enc_snap sr) = []" by (rule enc_snap_prefix_free)
    with n show False by simp
  qed
  then show ?thesis by (simp add: snap_torn_ok_def)
qed

section \<open>A restart\<close>

text \<open>A new server on an empty disk is durable.\<close>

definition files :: "str \<Rightarrow> file_state" where
  "files = (\<lambda>_. Absent)"

lemma first_start:
  assumes "p \<noteq> w" "temp_path p \<noteq> w"
  shows "\<exists>sv. server_new x now True (Some p) None (Some w) False files = Some sv \<and> durable x sv \<and>
    abs_store sv = Map.empty \<and> sv_snapshot_path sv = Some p \<and> sv_global_version sv = 0 \<and> index_ok x sv"
proof -
  have st: "recover x now registry_new (Some p) (Some w) files = recovery_start"
    by (simp add: recover_def load_snapshot_def files_def replay_log_def read_all_commands_def)
  let ?sv = "\<lparr>sv_tree = fmempty, sv_indexes = fmempty, sv_cache = fresh_cache, sv_snapshot_path = Some p,
     sv_schema_registry = registry_new, sv_wal = Some w, sv_wal_poisoned = False, sv_global_version = 0,
     sv_watch = [], sv_wal_path = Some w, sv_is_replica = False, sv_sync = [],
     sv_disk = files(w := Content [])\<rparr>"
  have n: "server_new x now True (Some p) None (Some w) False files = Some ?sv"
    using st by (simp add: server_new_def lru_new_fresh load_schema_file_def wal_new_def files_def recovery_start_def)
  have a: "abs_store ?sv = Map.empty" by (simp add: abs_store_def fun_eq_iff)
  have l: "logged x [] = []" by (simp add: logged_def read_all_commands_def map_filter_simps)
  have "durable x ?sv"
  proof (rule durable_intro [where w = w and s = "[]" and m = Map.empty])
    show "serving UNIV ?sv" by (simp add: serving_def cache_ok_def)
    show "eternal (abs_store ?sv)" by (simp add: eternal_def a)
    show "snapshot_holds x (sv_snapshot_path ?sv) (sv_disk ?sv) Map.empty"
      using assms(1) by (simp add: snapshot_holds_def load_snapshot_def files_def)
  qed (use assms a l in \<open>simp_all add: at_boundary_def\<close>)
  moreover have "index_ok x ?sv" by (simp add: index_ok_def ix.agrees_empty)
  ultimately show ?thesis using n a by auto
qed

text \<open>
  C2: Crash recovery. After any history of requests, transactions, sweeps and saves without
  expiry times, whose appends were synced, nothing panics, and a restart from the files, at any
  time and with any schema, finds exactly the keys and values the server held; this also when
  saves failed to create or rename their file, or renamed it but failed to truncate the log, so
  that the log is replayed over a newer snapshot.
\<close>

theorem crash_recovery:
  assumes "wal_codec_ok x" "snap_codec_ok x" "durable x sv" "list_all action_ok as"
  shows "\<exists>sv'. perform_all x as sv = Some sv' \<and>
    (\<forall>now creatable schema_path is_replica. \<exists>sv''.
       server_new x now creatable (sv_snapshot_path sv') schema_path (sv_wal_path sv') is_replica (sv_disk sv') = Some sv'' \<and>
       abs_store sv'' = abs_store sv')"
proof -
  obtain sv' where sv': "perform_all x as sv = Some sv'" "durable x sv'"
    using perform_all_durable [OF assms] by blast
  have "\<exists>sv''. server_new x now creatable (sv_snapshot_path sv') schema_path (sv_wal_path sv') is_replica (sv_disk sv') = Some sv'' \<and>
       abs_store sv'' = abs_store sv'" for now creatable schema_path is_replica
    using durable_recovers [OF sv'(2), of now "load_schema_file (sv_disk sv') schema_path"]
    by (auto simp: server_new_def lru_new_fresh Let_def abs_store_def [abs_def] rv_store_def [abs_def]
        split: prod.split)
  then show ?thesis using sv'(1) by blast
qed

theorem crash_recovery_witness:
  "\<exists>sv sv'. server_new plain_ext None True (Some ''db'') None (Some ''log'') False files = Some sv \<and>
     perform_all plain_ext
       [Request (at 1) (ReqPut ''a'' [1] None), Commit (at 2) sorted_order sample_tx,
        Save (Some 3) \<lparr>sn_create_ok = True, sn_flushed = 0, sn_rename_ok = True, sn_truncate_ok = False, sn_drop_ok = True\<rparr>,
        Request (at 4) (ReqDelete ''a'')] sv = Some sv' \<and>
     (\<forall>now. \<exists>sv''. server_new plain_ext now True (sv_snapshot_path sv') None (sv_wal_path sv') False (sv_disk sv') = Some sv'' \<and>
        abs_store sv'' = abs_store sv')"
proof -
  obtain sv where sv: "server_new plain_ext None True (Some ''db'') None (Some ''log'') False files = Some sv"
    "durable plain_ext sv"
    using first_start [of "''db''" "''log''" plain_ext None] by (auto simp: temp_path_def)
  let ?as = "[Request (at 1) (ReqPut ''a'' [1] None), Commit (at 2) sorted_order sample_tx,
        Save (Some 3) \<lparr>sn_create_ok = True, sn_flushed = 0, sn_rename_ok = True, sn_truncate_ok = False, sn_drop_ok = True\<rparr>,
        Request (at 4) (ReqDelete ''a'')]"
  have "list_all action_ok ?as" by (simp add: eternal_writes_def sample_tx_def)
  from crash_recovery [OF plain_ext_codec(1) plain_ext_snap sv(2) this]
  obtain sv' where "perform_all plain_ext ?as sv = Some sv'"
    "\<forall>now creatable schema_path is_replica. \<exists>sv''.
       server_new plain_ext now creatable (sv_snapshot_path sv') schema_path (sv_wal_path sv') is_replica (sv_disk sv') = Some sv'' \<and>
       abs_store sv'' = abs_store sv'"
    by blast
  then show ?thesis using sv(1) by blast
qed



section \<open>A crash during a save\<close>

lemma save_disks_complete:
  fixes x :: "('n, 'z) ext_scheme"
  assumes "sv_wal sv = Some w" "sv_disk sv w = Content s" "p \<noteq> w" "temp_path p \<noteq> w"
    and "sn_create_ok se" "sn_rename_ok se"
    and t: "t = snapshot_text x now sv"
  defines "d3 \<equiv> (sv_disk sv)(p := Content (take (sn_flushed se) t), temp_path p := Absent)"
  defines "d4 \<equiv> if sn_truncate_ok se then d3(w := Content []) else d3"
  shows "save_disks x now se p sv =
    [sv_disk sv, (sv_disk sv)(temp_path p := Content []), (sv_disk sv)(temp_path p := Content (take (sn_flushed se) t)),
     d3, d4, if sn_drop_ok se then d4(p := Content t) else d4]"
proof -
  have u: "f(temp_path p := a, p := b, temp_path p := c) = f(p := b, temp_path p := c)"
    for f :: "str \<Rightarrow> file_state" and a b c
    by (auto simp: fun_eq_iff)
  have "w \<noteq> p" "w \<noteq> temp_path p" using assms(3,4) by auto
  then show ?thesis
    using assms(1-6) by (simp add: u save_disks_def Let_def t [symmetric] d3_def d4_def wal_truncate_def)
qed

text \<open>What a restart finds on a disk, as far as it reads it.\<close>

definition restart_store ::
  "('n, 'z) ext_scheme \<Rightarrow> nat option \<Rightarrow> registry \<Rightarrow> server \<Rightarrow> (str \<Rightarrow> file_state) \<Rightarrow> store" where
  "restart_store x now reg sv d = rv_store (recover x now reg (sv_snapshot_path sv) (sv_wal_path sv) d)"

text \<open>A log that led to a store changes no record of it and adds none, whatever part of it is there.\<close>

lemma replay_over_part:
  assumes "fold apply_logged cs m0 = m" "m' \<subseteq>\<^sub>m m"
  shows "fold apply_logged cs m' \<subseteq>\<^sub>m m" "m' \<subseteq>\<^sub>m fold apply_logged cs m'"
proof -
  obtain w where w: "\<forall>m. fold apply_logged cs m = overlay w m" using apply_log_overlay by blast
  have c: "c = m k" if "w k = Some c" for k c
    using that w assms(1) by (auto simp: overlay_def)
  have "fold apply_logged cs m' k = (case w k of Some c \<Rightarrow> m k | None \<Rightarrow> m' k)" for k
    using w c by (auto simp: overlay_def split: option.splits)
  then show "fold apply_logged cs m' \<subseteq>\<^sub>m m" "m' \<subseteq>\<^sub>m fold apply_logged cs m'"
    using assms(2) by (auto simp: map_le_def split: option.splits)
qed

text \<open>
  C28: What a crash during a save leaves, on a durable server. Wherever the buffered writer was when the loop ended, that
  is, however many characters of the snapshot had reached the file, a machine that stops after one of
  the save's system calls restarts to this: before the rename, or when the file is not created or not
  renamed, to exactly the store the server held; after the rename, to a part of that store, with every
  record whose line had reached the file; after the truncation, to these records and no others; and
  once the writer has been dropped, to the whole store again.
\<close>

theorem save_crash_extent:
  assumes "snap_codec_ok x" "snap_torn_ok x" "durable x sv" "sv_snapshot_path sv = Some p"
  shows "let ds = save_disks x now se p sv; restart = restart_store x now' reg sv; m = abs_store sv;
      kept = m |` snapshot_keys x (sn_flushed se) sv in
    (if sn_create_ok se \<and> sn_rename_ok se
     then length ds = 6 \<and> list_all (\<lambda>d. restart d = m) (take 3 ds) \<and>
       kept \<subseteq>\<^sub>m restart (ds ! 3) \<and> restart (ds ! 3) \<subseteq>\<^sub>m m \<and>
       restart (ds ! 4) = (if sn_truncate_ok se then kept else restart (ds ! 3)) \<and>
       restart (ds ! 5) = (if sn_drop_ok se then m else restart (ds ! 4))
     else list_all (\<lambda>d. restart d = m) ds)"
proof -
  obtain w s m0 where d: "sv_wal sv = Some w" "sv_disk sv w = Content s" "p \<noteq> w" "temp_path p \<noteq> w"
    "list_all never_expires (logged x s)" "fold apply_logged (logged x s) m0 = abs_store sv" "eternal (abs_store sv)"
    "sv_wal_path sv = Some w"
    using assms(3,4) by (auto simp: durable_def)
  let ?t = "snapshot_text x now sv" and ?kept = "abs_store sv |` snapshot_keys x (sn_flushed se) sv"
  have old: "restart_store x now' reg sv d' = abs_store sv" if "d' w = sv_disk sv w" "d' p = sv_disk sv p" for d'
    using durable_recovers [OF assms(3), of now' reg] that d(8) assms(4) by (simp add: restart_store_def recover_def)
  have e: "logged x [] = []" by (simp add: logged_def read_all_commands_def map_filter_simps)
  have new: "restart_store x now' reg sv d' = fold apply_logged (logged x s') (rv_store (load_snapshot x now' reg (d' p) recovery_start))"
    if "d' w = Content s'" "s' = [] \<or> s' = s" for d' s'
    using that d(5,8) assms(4) e by (auto simp: restart_store_def recover_def replay_logged)
  show ?thesis
  proof (cases "sn_create_ok se \<and> sn_rename_ok se")
    case False
    then show ?thesis using old d(4) by (auto simp: save_disks_def Let_def)
  next
    case True
    have wp: "w \<noteq> p" "w \<noteq> temp_path p" using d(3,4) by auto
    have cut: "rv_store (load_snapshot x now' reg (Content (take (sn_flushed se) ?t)) recovery_start) = ?kept"
      by (rule load_cut_snapshot [OF assms(1,2) d(7)])
    have whole: "rv_store (load_snapshot x now' reg (Content ?t) recovery_start) = abs_store sv"
      using snapshot_holds_saved [OF assms(1) d(7), where p = p and d = "\<lambda>_. Content ?t"] by (simp add: snapshot_holds_def)
    have twice: "fold apply_logged (logged x s) (abs_store sv) = abs_store sv"
      using apply_log_twice [of "logged x s" m0] unfolding d(6) .
    have part: "?kept \<subseteq>\<^sub>m abs_store sv" by (simp add: map_le_def)
    let ?ds = "save_disks x now se p sv" and ?d3 = "(sv_disk sv)(p := Content (take (sn_flushed se) ?t), temp_path p := Absent)"
    let ?d4 = "if sn_truncate_ok se then ?d3(w := Content []) else ?d3"
    have ds: "?ds = [sv_disk sv, (sv_disk sv)(temp_path p := Content []),
        (sv_disk sv)(temp_path p := Content (take (sn_flushed se) ?t)), ?d3, ?d4,
        if sn_drop_ok se then ?d4(p := Content ?t) else ?d4]"
      by (rule save_disks_complete [OF d(1-4) True [THEN conjunct1] True [THEN conjunct2] refl])
    have "restart_store x now' reg sv ?d3 = fold apply_logged (logged x s) ?kept"
      using new [of ?d3 s] d(2) wp cut by simp
    moreover have "restart_store x now' reg sv (?d3(w := Content [])) = ?kept"
      using new [of "?d3(w := Content [])" "[]"] wp cut e by simp
    moreover have "restart_store x now' reg sv (?d4(p := Content ?t)) = abs_store sv"
      using new [of "?d4(p := Content ?t)" "if sn_truncate_ok se then [] else s"] d(2) wp whole e twice by simp
    moreover have "restart_store x now' reg sv d' = abs_store sv" if "d' \<in> set (take 3 ?ds)" for d'
      using that old wp by (auto simp: ds)
    ultimately show ?thesis
      using replay_over_part [OF d(6) part] True unfolding Let_def by (simp add: ds list_all_iff)
  qed
qed

text \<open>
  C35: The window the code leaves open. A snapshot that fits into the writer's buffer (8 KiB, which
  covers most small stores) has not reached the file at all when the loop ends, and the writer is
  dropped only after the rename and the truncation: a machine that stops after the truncation has an
  empty snapshot and an empty log, and restarts to nothing, whatever the (durable) server held.
\<close>

theorem save_crash_loses_all:
  assumes "durable x sv" "sv_snapshot_path sv = Some p"
    and "sn_create_ok se" "sn_rename_ok se" "sn_truncate_ok se" "sn_flushed se = 0"
  shows "restart_store x now' reg sv (save_disks x now se p sv ! 4) = Map.empty"
proof -
  obtain w s where d: "sv_wal sv = Some w" "sv_disk sv w = Content s" "p \<noteq> w" "temp_path p \<noteq> w" "sv_wal_path sv = Some w"
    using assms(1,2) by (auto simp: durable_def)
  have "w \<noteq> p" using d(3) by simp
  then show ?thesis
    unfolding save_disks_complete [OF d(1-4) assms(3,4) refl]
    using assms(2,5,6) d(5) by (simp add: restart_store_def recover_def load_snapshot_def replay_log_empty)
qed

definition quick_save :: save_env where
  "quick_save = \<lparr>sn_create_ok = True, sn_flushed = 0, sn_rename_ok = True, sn_truncate_ok = True, sn_drop_ok = True\<rparr>"

text \<open>A durable server with one record, for the instances.\<close>

lemma one_record:
  "\<exists>sv sv'. server_new plain_ext None True (Some ''db'') None (Some ''log'') False files = Some sv \<and>
     put plain_ext (at 1) ''a'' [1] None sv = Some (Inr True, sv') \<and> durable plain_ext sv' \<and>
     sv_snapshot_path sv' = Some ''db'' \<and> abs_store sv' = [''a'' \<mapsto> ([1], None)]"
proof -
  obtain sv where sv: "server_new plain_ext None True (Some ''db'') None (Some ''log'') False files = Some sv"
    "durable plain_ext sv" "abs_store sv = Map.empty" "sv_snapshot_path sv = Some ''db''"
    using first_start [of "''db''" "''log''" plain_ext None] by (auto simp: temp_path_def)
  obtain r sv' where s: "serve plain_ext (at 1) (ReqPut ''a'' [1] None) sv = Some (r, sv')" "durable plain_ext sv'"
    using serve_durable [OF plain_ext_codec(1) sv(2), of "at 1" "ReqPut ''a'' [1] None"] by auto
  have inv: "lru_inv (sv_cache sv)" "\<not> sv_is_replica sv" using sv(2) by (simp_all add: durable_def serving_def cache_ok_def)
  obtain sv1 where p: "put plain_ext (at 1) ''a'' [1] None sv = Some (Inr True, sv1)" "same_config sv sv1"
    "sv_tree sv1 = fmupd ''a'' \<lparr>rec_value = [1], rec_expires = None, rec_version = sv_global_version sv + 1\<rparr> (sv_tree sv)"
    using put_spec [OF inv ttl_expiry_None, where x = plain_ext and k = "''a''" and v = "[1]" and e = "at 1"] by blast
  have "sv1 = sv'" using p(1) s(1) by (simp add: reply_with_def)
  moreover have "abs_store sv1 = [''a'' \<mapsto> ([1], None)]" using abs_store_upd(1) [OF p(3)] sv(3) by simp
  ultimately show ?thesis using sv(1,4) p(1,2) s(2) by (auto simp: same_config_def)
qed

text \<open>A durable server with two records, and a save whose buffer holds the second one back.\<close>

lemma put_record:
  assumes "durable plain_ext sv"
  shows "\<exists>sv'. durable plain_ext sv' \<and> sv_snapshot_path sv' = sv_snapshot_path sv \<and>
     sv_tree sv' = fmupd k \<lparr>rec_value = v, rec_expires = None, rec_version = sv_global_version sv + 1\<rparr> (sv_tree sv)"
proof -
  obtain r sv' where s: "serve plain_ext (at 1) (ReqPut k v None) sv = Some (r, sv')" "durable plain_ext sv'"
    using serve_durable [OF plain_ext_codec(1) assms, of "at 1" "ReqPut k v None"] by auto
  have inv: "lru_inv (sv_cache sv)" "\<not> sv_is_replica sv" using assms by (simp_all add: durable_def serving_def cache_ok_def)
  obtain sv1 where p: "put plain_ext (at 1) k v None sv = Some (Inr True, sv1)" "same_config sv sv1"
    "sv_tree sv1 = fmupd k \<lparr>rec_value = v, rec_expires = None, rec_version = sv_global_version sv + 1\<rparr> (sv_tree sv)"
    using put_spec [OF inv ttl_expiry_None, where x = plain_ext and k = k and v = v and e = "at 1"] by blast
  have "sv1 = sv'" using p(1) s(1) by (simp add: reply_with_def)
  then show ?thesis using p(2,3) s(2) by (auto simp: same_config_def)
qed

lemma two_records:
  "\<exists>sv ra rb. durable plain_ext sv \<and> sv_snapshot_path sv = Some ''db'' \<and> rec_value ra = [1] \<and> rec_value rb = [2] \<and>
     rec_expires ra = None \<and> rec_expires rb = None \<and> sv_tree sv = fmupd ''b'' rb (fmupd ''a'' ra fmempty)"
proof -
  obtain sv where sv: "durable plain_ext sv" "abs_store sv = Map.empty" "sv_snapshot_path sv = Some ''db''"
    using first_start [of "''db''" "''log''" plain_ext None] by (auto simp: temp_path_def)
  have e: "sv_tree sv = fmempty" using sv(2) by (intro fmap_ext) (simp add: abs_store_def fun_eq_iff)
  obtain sv1 where s1: "durable plain_ext sv1" "sv_snapshot_path sv1 = Some ''db''"
    "sv_tree sv1 = fmupd ''a'' \<lparr>rec_value = [1], rec_expires = None, rec_version = sv_global_version sv + 1\<rparr> fmempty"
    using put_record [OF sv(1), of "''a''" "[1]"] sv(3) e by auto
  obtain sv2 where "durable plain_ext sv2" "sv_snapshot_path sv2 = Some ''db''"
    "sv_tree sv2 = fmupd ''b'' \<lparr>rec_value = [2], rec_expires = None, rec_version = sv_global_version sv1 + 1\<rparr> (sv_tree sv1)"
    using put_record [OF s1(1), of "''b''" "[2]"] s1(2) by auto
  then show ?thesis unfolding s1(3) by (metis db_record.select_convs(1,2))
qed

theorem save_crash_extent_witness:
  "\<exists>sv se. durable plain_ext sv \<and> abs_store sv = [''a'' \<mapsto> ([1], None), ''b'' \<mapsto> ([2], None)] \<and>
     sn_create_ok se \<and> sn_rename_ok se \<and> sn_truncate_ok se \<and> sn_drop_ok se \<and>
     (let ds = save_disks plain_ext (Some 3) se ''db'' sv; restart = restart_store plain_ext None registry_new sv in
      restart (ds ! 4) = [''a'' \<mapsto> ([1], None)] \<and> restart (ds ! 5) = abs_store sv)"
proof -
  obtain sv ra rb where sv: "durable plain_ext sv" "sv_snapshot_path sv = Some ''db''" "rec_value ra = [1]" "rec_value rb = [2]"
    "rec_expires ra = None" "rec_expires rb = None" "sv_tree sv = fmupd ''b'' rb (fmupd ''a'' ra fmempty)"
    using two_records by blast
  let ?se = "\<lparr>sn_create_ok = True, sn_flushed = length (snapshot_line plain_ext (''a'', ra)), sn_rename_ok = True,
    sn_truncate_ok = True, sn_drop_ok = True\<rparr>"
  have m: "abs_store sv = [''a'' \<mapsto> ([1], None), ''b'' \<mapsto> ([2], None)]"
    using sv(3-7) by (auto simp: abs_store_def fun_eq_iff)
  have "sorted_entries (sv_tree sv) = [(''a'', ra), (''b'', rb)]"
    by (simp add: sv(7) sorted_entries_def sorted_list_of_fset_finsert)
  then have "snapshot_keys plain_ext (sn_flushed ?se) sv = {''a''}"
    using snapshot_line_ok(3) [OF plain_ext_snap] by (simp add: snapshot_keys_def)
  then show ?thesis
    using save_crash_extent [OF plain_ext_snap plain_ext_snap_torn sv(1,2), where now = "Some 3" and now' = None
        and reg = registry_new and se = ?se] sv(1) m
    by (intro exI [of _ sv] exI [of _ ?se]) (simp add: Let_def restrict_map_insert)
qed

theorem save_crash_loses_all_witness:
  "\<exists>sv. durable plain_ext sv \<and> abs_store sv = [''a'' \<mapsto> ([1], None)] \<and>
     restart_store plain_ext None registry_new sv (save_disks plain_ext (Some 3) quick_save ''db'' sv ! 4) = Map.empty"
proof -
  obtain sv where sv: "durable plain_ext sv" "sv_snapshot_path sv = Some ''db''" "abs_store sv = [''a'' \<mapsto> ([1], None)]"
    using one_record by blast
  show ?thesis using sv(1,3) save_crash_loses_all [OF sv(1,2), of quick_save] by (auto simp: quick_save_def)
qed

end
