(* ===== verification/Replay_Properties.thy ===== *)
theory Replay_Properties
  imports Durability_Properties
begin

text \<open>
  Where a restarted server differs from the one that wrote the files: record versions of
  transactions, index entries of overwritten values, values under an expired one, and the global
  version after a save.
\<close>

lemma server_new_log:
  assumes "wal_codec_ok x" "disk w = Content (log_text x es)"
    and "server_new x now creatable None None (Some w) is_replica disk = Some sv"
  defines "st \<equiv> fold (replay_command x now registry_new) es recovery_start"
  shows "sv_tree sv = rv_tree st" "sv_indexes sv = rv_indexes st" "sv_global_version sv = rv_max_ver st"
    "cache_ok sv" "sv_is_replica sv = is_replica" "\<not> sv_wal_poisoned sv"
proof -
  have "recover x now registry_new None (Some w) disk = st"
    using assms(2) read_all_log_text [OF assms(1), of es] by (simp add: recover_def replay_log_def st_def)
  then show "sv_tree sv = rv_tree st" "sv_indexes sv = rv_indexes st" "sv_global_version sv = rv_max_ver st"
    "cache_ok sv" "sv_is_replica sv = is_replica" "\<not> sv_wal_poisoned sv"
    using assms(3) by (auto simp: server_new_def lru_new_fresh load_schema_file_def cache_ok_def split: prod.splits)
qed

text \<open>
  The replay numbers the writes of a transaction one above the version it restores. So after a
  restart from a log that ends in a transaction, a new transaction that writes one of the keys it
  put is refused with a conflict, although nothing was written since it began.
\<close>

theorem restart_refuses_transactions:
  assumes "wal_codec_ok x" "disk w = Content (log_text x (es @ [(tx_id, TxCommit [Put k v None])]))"
    and "server_new x now creatable None None (Some w) False disk = Some sv"
    and "sv_global_version sv < sv_global_version sv + 1"
    and "tx_snapshot_version tx = tx_snapshot_version (begin_transaction sv)" "k |\<in>| fmdom (tx_write_set tx)"
  shows "commit x e it tx sv = Some (Inl Conflict, sv)"
proof -
  note sv = server_new_log [OF assms(1-3)]
  have "fmlookup (sv_tree sv) k =
      Some \<lparr>rec_value = v, rec_expires = None, rec_version = sv_global_version sv + 1\<rparr>"
    by (simp add: sv(1,3) replay_command_def Let_def replay_write_def)
  then have "tx_conflicts (tx_snapshot_version tx) (entries it (tx_write_set tx)) sv"
    unfolding tx_conflicts_iff using assms(4-6) by (force simp: begin_transaction_def)
  then show ?thesis using sv(5,6) by (simp add: commit_def)
qed

theorem restart_refuses_transactions_witness:
  "\<exists>sv. server_new plain_ext None True None None (Some ''log'') False
       (files(''log'' := Content (log_text plain_ext [(1, TxCommit [Put ''a'' [1] None])]))) = Some sv \<and>
     commit plain_ext (at 1) sorted_order (sample_tx\<lparr>tx_snapshot_version := sv_global_version sv\<rparr>) sv =
       Some (Inl Conflict, sv)"
proof -
  let ?d = "files(''log'' := Content (log_text plain_ext [(1, TxCommit [Put ''a'' [1] None])]))"
  obtain sv where sv: "server_new plain_ext None True None None (Some ''log'') False ?d = Some sv"
    using server_new_total by blast
  have d: "?d ''log'' = Content (log_text plain_ext [(1, TxCommit [Put ''a'' [1] None])])" by simp
  have "sv_global_version sv = 1"
    using server_new_log(3) [OF plain_ext_codec(1) d sv]
    by (simp add: replay_command_def recovery_start_def Let_def replay_write_def)
  then show ?thesis
    using restart_refuses_transactions [OF plain_ext_codec(1), of ?d "''log''" "[]" 1 "''a''" "[1]" None True sv
        "sample_tx\<lparr>tx_snapshot_version := sv_global_version sv\<rparr>" "at 1" sorted_order] sv
    by (simp add: begin_transaction_def sample_tx_def)
qed

text \<open>
  The replay of a put files the new value without taking the overwritten one out of the index.
  From an exact index it leads to an exact one only if the new value has all index keys of the
  old; otherwise queries by the old field value still find the record after a restart.
\<close>

theorem replay_put_index:
  assumes "index_agrees (extract_index_keys x reg) index_has (tree_values (rv_tree st)) (rv_indexes st)"
    and "\<not> is_expired now expires_at"
  shows "index_agrees (extract_index_keys x reg) index_has
      (tree_values (rv_tree (replay_write x now reg version (Put key val expires_at) st)))
      (rv_indexes (replay_write x now reg version (Put key val expires_at) st)) \<longleftrightarrow>
    (\<forall>old. tree_values (rv_tree st) key = Some old \<longrightarrow>
       set (extract_index_keys x reg key old) \<subseteq> set (extract_index_keys x reg key val))"
  using ix.agrees_overwrite [OF assms(1), of key val] assms(2) by (simp add: replay_write_def)

theorem replay_put_index_witness:
  "\<exists>st. index_agrees (extract_index_keys plain_wal (load_nodes sample_schema registry_new)) index_has
       (tree_values (rv_tree st)) (rv_indexes st) \<and>
     \<not> index_agrees (extract_index_keys plain_wal (load_nodes sample_schema registry_new)) index_has
       (tree_values (rv_tree (replay_write plain_wal None (load_nodes sample_schema registry_new) 2 (Put ''user:1'' [66] None) st)))
       (rv_indexes (replay_write plain_wal None (load_nodes sample_schema registry_new) 2 (Put ''user:1'' [66] None) st))"
proof -
  let ?reg = "load_nodes sample_schema registry_new"
  let ?st = "replay_write plain_wal None ?reg 1 (Put ''user:1'' [65] None) recovery_start"
  have t: "tree_values (rv_tree ?st) = [''user:1'' \<mapsto> [65]]" by (simp add: replay_write_def recovery_start_def)
  have i: "index_agrees (extract_index_keys plain_wal ?reg) index_has (tree_values (rv_tree ?st)) (rv_indexes ?st)"
    using ix.agrees_insert [OF ix.agrees_empty, where k = "''user:1''" and x = plain_wal and reg = ?reg and v = "[65]"]
    by (simp add: replay_write_def recovery_start_def)
  have "\<not> set (extract_index_keys plain_wal ?reg ''user:1'' [65]) \<subseteq> set (extract_index_keys plain_wal ?reg ''user:1'' [66])"
    by (simp add: user_index_keys)
  then show ?thesis
    using replay_put_index [OF i, of None None 2 "''user:1''" "[66]"] i t by (intro exI [of _ ?st]) simp
qed

text \<open>
  The replay skips a put whose time to live has passed, and with it the overwriting: after a
  restart the value that this put had replaced is back, without an expiry time.
\<close>

theorem replay_resurrects:
  assumes "wal_codec_ok x" "disk w = Content (log_text x [(t1, Put k v1 None), (t2, Put k v2 (Some ex))])"
    and "server_new x now creatable None None (Some w) is_replica disk = Some sv" "is_expired now (Some ex)"
  shows "abs_store sv k = Some (v1, None)"
  using server_new_log(1) [OF assms(1-3)] assms(4)
  by (simp add: abs_store_def replay_command_def Let_def replay_write_def)

theorem replay_resurrects_witness:
  "\<exists>sv. server_new plain_ext (Some 9) True None None (Some ''log'') False
       (files(''log'' := Content (log_text plain_ext [(1, Put ''a'' [1] None), (2, Put ''a'' [2] (Some 5))]))) = Some sv \<and>
     abs_store sv ''a'' = Some ([1], None)"
proof -
  let ?d = "files(''log'' := Content (log_text plain_ext [(1, Put ''a'' [1] None), (2, Put ''a'' [2] (Some 5))]))"
  obtain sv where sv: "server_new plain_ext (Some 9) True None None (Some ''log'') False ?d = Some sv"
    using server_new_total by blast
  have "?d ''log'' = Content (log_text plain_ext [(1, Put ''a'' [1] None), (2, Put ''a'' [2] (Some 5))])" by simp
  from replay_resurrects [OF plain_ext_codec(1) this sv] sv show ?thesis by (simp add: is_expired_def)
qed

text \<open>
  A save forgets the version counter: it keeps the versions of the records only. When the last
  records were deletions, and in the extreme when nothing is left, a restart after a complete save
  counts from 0 again, below the numbers already given out to transactions and replicas.
\<close>

theorem save_forgets_version:
  assumes "durable x sv" "sv_snapshot_path sv = Some p" "sv_tree sv = fmempty"
    and "sn_create_ok se" "sn_rename_ok se" "sn_truncate_ok se" "sn_drop_ok se"
    and "save_snapshot_and_truncate_wal x now se sv = Some sv1"
    and "server_new x now' creatable (Some p) schema_path (sv_wal_path sv) is_replica (sv_disk sv1) = Some sv2"
  shows "sv_global_version sv2 = 0"
proof -
  obtain w s where d: "sv_wal sv = Some w" "sv_disk sv w = Content s" "p \<noteq> w" "temp_path p \<noteq> w" "sv_wal_path sv = Some w"
    using assms(1,2) by (auto simp: durable_def)
  have "snapshot_text x now sv = []" by (simp add: snapshot_text_def assms(3) sorted_entries_def)
  then have "sv_disk sv1 = (sv_disk sv)(p := Content [], temp_path p := Absent, w := Content [])"
    using assms(2,4-8) last_save_disk [OF d(1-4) assms(4,5,7), of x now]
    by (auto simp: save_snapshot_and_truncate_wal_def split: if_splits)
  moreover have "w \<noteq> p" using d(3) by simp
  ultimately have "recover x now' reg (Some p) (Some w) (sv_disk sv1) = recovery_start" for reg
    by (simp add: recover_def load_snapshot_def replay_log_empty)
  then show ?thesis
    using assms(9) d(5) by (auto simp: server_new_def lru_new_fresh recovery_start_def split: prod.splits)
qed

theorem save_forgets_version_witness:
  "\<exists>sv sv1 sv2. durable plain_ext sv \<and> sv_global_version sv = 2 \<and>
     save_snapshot_and_truncate_wal plain_ext (Some 5) quick_save sv = Some sv1 \<and>
     server_new plain_ext None True (Some ''db'') None (Some ''log'') False (sv_disk sv1) = Some sv2 \<and>
     sv_global_version sv2 = 0"
proof -
  obtain sv0 where n: "server_new plain_ext None True (Some ''db'') None (Some ''log'') False files = Some sv0"
    "durable plain_ext sv0" "abs_store sv0 = Map.empty" "sv_snapshot_path sv0 = Some ''db''" "sv_global_version sv0 = 0"
    using first_start [of "''db''" "''log''" plain_ext None] by (auto simp: temp_path_def)
  have t0: "sv_tree sv0 = fmempty" using n(3) by (intro fmap_ext) (simp add: abs_store_def fun_eq_iff)
  have w0: "sv_wal_path sv0 = Some ''log''" using server_new_paths [OF n(1)] by simp
  have inv: "lru_inv (sv_cache sv0)" "\<not> sv_is_replica sv0" using n(2) by (simp_all add: durable_def serving_def cache_ok_def)
  obtain sv' where p: "put plain_ext (at 1) ''a'' [1] None sv0 = Some (Inr True, sv')" "same_config sv0 sv'"
    "sv_tree sv' = fmupd ''a'' \<lparr>rec_value = [1], rec_expires = None, rec_version = 1\<rparr> fmempty" "sv_global_version sv' = 1"
    using put_spec [OF inv ttl_expiry_None, where x = plain_ext and k = "''a''" and v = "[1]" and e = "at 1"] n(5) t0 by auto
  have "\<exists>r sv. serve plain_ext (at 1) (ReqPut ''a'' [1] None) sv0 = Some (r, sv) \<and> durable plain_ext sv"
    by (rule serve_durable [OF plain_ext_codec(1) n(2)]) simp_all
  then have p2: "durable plain_ext sv'" using p(1) by (simp add: reply_with_def)
  then have c: "cache_ok sv'" "\<not> sv_is_replica sv'" by (simp_all add: durable_def serving_def)
  obtain sv where d: "delete plain_ext (at 2) ''a'' sv' = Some (Inr True, sv)" "same_config sv' sv"
    "sv_tree sv = fmdrop ''a'' (sv_tree sv')" "sv_global_version sv = 2"
    using delete_spec [OF c, where x = plain_ext and k = "''a''" and e = "at 2"] p(3,4) by auto
  have "\<exists>r sv. serve plain_ext (at 2) (ReqDelete ''a'') sv' = Some (r, sv) \<and> durable plain_ext sv"
    by (rule serve_durable [OF plain_ext_codec(1) p2]) simp_all
  then have sv: "durable plain_ext sv" using d(1) by (simp add: reply_with_def)
  have t: "sv_tree sv = fmempty" by (rule fmap_ext) (simp add: d(3) p(3))
  have path: "sv_snapshot_path sv = Some ''db''" "sv_wal_path sv = Some ''log''"
    using p(2) d(2) n(4) w0 by (simp_all add: same_config_def)
  obtain sv1 where s: "save_snapshot_and_truncate_wal plain_ext (Some 5) quick_save sv = Some sv1"
    using save_durable [OF plain_ext_snap sv, of quick_save "Some 5"] by (auto simp: quick_save_def)
  obtain sv2 where r: "server_new plain_ext None True (Some ''db'') None (Some ''log'') False (sv_disk sv1) = Some sv2"
    using server_new_total by blast
  have "sv_global_version sv2 = 0"
    using save_forgets_version [OF sv path(1) t _ _ _ _ s] r path(2) by (simp add: quick_save_def)
  then show ?thesis using sv d(4) s r by blast
qed

end
