(* ===== verification/Replication.thy ===== *)
theory Replication
  imports Replay_Properties
begin

text \<open>
  Replication: the leader's \<open>sync\<close> stream (src/server.rs) and the replica's loop that applies it
  (src/replica.rs). The channel between them delivers a prefix of what the leader sends; when it
  breaks, the replica connects again from its own version.
\<close>

section \<open>The leader's stream\<close>

datatype sync_payload = Snapshot "kv_record list" u64 | WalRecord u64 str

text \<open>Whether a replica needs a snapshot, and otherwise the records of the log it is sent.\<close>

definition sync_plan :: "('n, 'z) wal_ext_scheme \<Rightarrow> u64 \<Rightarrow> server \<Rightarrow> bool \<times> (u64 \<times> str) list" where
  "sync_plan x last_known_tx_id sv =
     (if last_known_tx_id = 0 then (True, [])
      else (case sv_wal_path sv of
              None \<Rightarrow> (True, [])
            | Some wal_path \<Rightarrow>
                (case read_from_tx_id x (sv_disk sv wal_path) (last_known_tx_id + 1) of
                   Inl _ \<Rightarrow> (True, [])
                 | Inr [] \<Rightarrow> (last_known_tx_id < sv_global_version sv, [])
                 | Inr (r # rs) \<Rightarrow>
                     if last_known_tx_id + 1 < fst r then (True, []) else (False, r # rs))))"

text \<open>The loop that cuts the records into chunks of 100: the full chunks, and what is left.\<close>

fun cut_chunks :: "kv_record list \<Rightarrow> kv_record list \<Rightarrow> kv_record list list \<times> kv_record list" where
  "cut_chunks chunk [] = ([], chunk)"
| "cut_chunks chunk (r # rs) =
     (let chunk1 = chunk @ [r] in
      if 100 \<le> length chunk1
      then (let (full, rest) = cut_chunks [] rs in (chunk1 # full, rest))
      else cut_chunks chunk1 rs)"

definition live_records :: "nat option \<Rightarrow> server \<Rightarrow> kv_record list" where
  "live_records now sv = map answer (filter (\<lambda>(k, r). live now r) (sorted_entries (sv_tree sv)))"

definition sync_snapshot :: "nat option \<Rightarrow> server \<Rightarrow> sync_payload list" where
  "sync_snapshot now sv =
     (let max_tx_id = sv_global_version sv;
          (full, rest) = cut_chunks [] (live_records now sv)
      in map (\<lambda>c. Snapshot c max_tx_id) full @
         (if rest \<noteq> [] \<or> max_tx_id = 0 then [Snapshot rest max_tx_id] else []))"

text \<open>What is sent first, and the number above which the broadcast is forwarded.\<close>

definition sync_initial ::
  "('n, 'z) wal_ext_scheme \<Rightarrow> nat option \<Rightarrow> u64 \<Rightarrow> server \<Rightarrow> sync_payload list \<times> u64" where
  "sync_initial x now last_known_tx_id sv =
     (let (require_snapshot, wal_records) = sync_plan x last_known_tx_id sv in
      if require_snapshot then (sync_snapshot now sv, sv_global_version sv)
      else (map (\<lambda>(tx_id, json). WalRecord tx_id json) wal_records,
            if wal_records = [] then last_known_tx_id else fst (last wal_records)))"

definition sync_forward ::
  "('n, 'z) wal_ext_scheme \<Rightarrow> u64 \<Rightarrow> (u64 \<times> wal_command) list \<Rightarrow> sync_payload list" where
  "sync_forward x start_streaming_tx_id msgs =
     map (\<lambda>(tx_id, cmd). WalRecord tx_id (env_to_string x \<lparr>env_c = cmd, env_k = 0, env_tx_id = tx_id\<rparr> @ [newline]))
       (filter (\<lambda>(tx_id, cmd). start_streaming_tx_id < tx_id) msgs)"

section \<open>The replica\<close>

text \<open>
  A put or a delete, alone or in a transaction. A put alone writes to the log (\<open>log\<close>) after the
  index and before the cache and the tree; in a transaction \<open>log\<close> does nothing.
\<close>

definition apply_put ::
  "('n, 'z) serde_scheme \<Rightarrow> (server \<Rightarrow> server) \<Rightarrow> u64 \<Rightarrow> str \<Rightarrow> bytes \<Rightarrow> u64 option \<Rightarrow> server \<Rightarrow> server option" where
  "apply_put x log tx_id key val expires_at sv = do {
     let sv1 = log (index_record x key val (unindex_old x key sv));
     sv2 \<leftarrow> cache_invalidate key sv1;
     Some (tree_insert key \<lparr>rec_value = val, rec_expires = expires_at, rec_version = tx_id\<rparr> sv2)
   }"

definition apply_delete :: "('n, 'z) serde_scheme \<Rightarrow> str \<Rightarrow> server \<Rightarrow> server option" where
  "apply_delete x key sv = cache_invalidate key (tree_remove key (unindex_old x key sv))"

text \<open>One command with its way to the log; a transaction nested in another is ignored.\<close>

definition apply_write_command ::
  "('n, 'z) serde_scheme \<Rightarrow> (server \<Rightarrow> server) \<Rightarrow> u64 \<Rightarrow> wal_command \<Rightarrow> server \<Rightarrow> server option" where
  "apply_write_command x log tx_id c sv =
     (case c of
        Put key val expires_at \<Rightarrow> apply_put x log tx_id key val expires_at sv
      | Delete key \<Rightarrow> map_option log (apply_delete x key sv)
      | TxCommit _ \<Rightarrow> Some sv)"

fun apply_subcommands :: "('n, 'z) serde_scheme \<Rightarrow> u64 \<Rightarrow> wal_command list \<Rightarrow> server \<Rightarrow> server option" where
  "apply_subcommands x tx_id [] sv = Some sv"
| "apply_subcommands x tx_id (c # cs) sv = do {
     sv1 \<leftarrow> apply_write_command x (\<lambda>s. s) tx_id c sv;
     apply_subcommands x tx_id cs sv1
   }"

text \<open>\<open>unwrap\<close> on a poisoned lock panics.\<close>

definition apply_command ::
  "('n, 'z) wal_ext_scheme \<Rightarrow> env \<Rightarrow> u64 \<Rightarrow> wal_command \<Rightarrow> server \<Rightarrow> server option" where
  "apply_command x e tx_id cmd sv =
     (if sv_wal_poisoned sv then None
      else do {
        let log = log_command x (en_wal e) tx_id cmd;
        sv1 \<leftarrow> (case cmd of
                  TxCommit cmds \<Rightarrow> apply_subcommands x tx_id cmds (log sv)
                | _ \<Rightarrow> apply_write_command x log tx_id cmd sv);
        Some (sv1\<lparr>sv_global_version := tx_id\<rparr>)
      })"

text \<open>A snapshot chunk is inserted over what is there.\<close>

definition install_record :: "('n, 'z) serde_scheme \<Rightarrow> u64 \<Rightarrow> kv_record \<Rightarrow> server \<Rightarrow> server" where
  "install_record x max_tx_id r sv =
     index_record x (kv_key r) (kv_value r)
       (tree_insert (kv_key r) \<lparr>rec_value = kv_value r, rec_expires = kv_expires r, rec_version = max_tx_id\<rparr> sv)"

definition install_chunk :: "('n, 'z) serde_scheme \<Rightarrow> kv_record list \<Rightarrow> u64 \<Rightarrow> server \<Rightarrow> server" where
  "install_chunk x records max_tx_id sv =
     (fold (install_record x max_tx_id) records sv)\<lparr>sv_global_version := max_tx_id\<rparr>"

text \<open>One message: the replica goes on (\<open>True\<close>) or leaves the stream to connect again (\<open>False\<close>).\<close>

definition replica_step ::
  "('n, 'z) wal_ext_scheme \<Rightarrow> env \<Rightarrow> sync_payload \<Rightarrow> server \<Rightarrow> (bool \<times> server) option" where
  "replica_step x e p sv =
     (case p of
        Snapshot records max_tx_id \<Rightarrow> Some (True, install_chunk x records max_tx_id sv)
      | WalRecord tx_id text \<Rightarrow>
          (let current_tx_id = sv_global_version sv in
           if tx_id \<le> current_tx_id then Some (True, sv)
           else if tx_id \<noteq> current_tx_id + 1 \<and> current_tx_id \<noteq> 0 then Some (False, sv)
           else (case env_from_str x text of
                   Some envelope \<Rightarrow> map_option (\<lambda>s. (True, s)) (apply_command x e tx_id (env_c envelope) sv)
                 | None \<Rightarrow> Some (True, sv))))"

text \<open>The messages of one connection, each with its log outcome.\<close>

fun replica_run ::
  "('n, 'z) wal_ext_scheme \<Rightarrow> (env \<times> sync_payload) list \<Rightarrow> server \<Rightarrow> (bool \<times> server) option" where
  "replica_run x [] sv = Some (True, sv)"
| "replica_run x ((e, p) # ps) sv = do {
     (go, sv1) \<leftarrow> replica_step x e p sv;
     if go then replica_run x ps sv1 else Some (False, sv1)
   }"

section \<open>The chunks\<close>

lemma cut_chunks_concat: "cut_chunks chunk rs = (full, rest) \<Longrightarrow> concat full @ rest = chunk @ rs"
  by (induction chunk rs arbitrary: full rest rule: cut_chunks.induct) (auto simp: Let_def split: if_splits prod.splits)

lemma cut_chunks_length:
  "cut_chunks chunk rs = (full, rest) \<Longrightarrow> length chunk < 100 \<Longrightarrow>
   (\<forall>c \<in> set full. length c = 100) \<and> length rest < 100"
proof (induction chunk rs arbitrary: full rest rule: cut_chunks.induct)
  case (1 chunk)
  then show ?case by simp
next
  case (2 chunk r rs)
  show ?case
  proof (cases "100 \<le> length (chunk @ [r])")
    case True
    then obtain full' where "cut_chunks [] rs = (full', rest)" "full = (chunk @ [r]) # full'"
      using "2.prems"(1) by (auto simp: Let_def split: prod.splits)
    then show ?thesis using "2.IH"(1) [OF refl True] "2.prems"(2) True by auto
  next
    case False
    then show ?thesis using "2.IH"(2) [OF refl False] "2.prems"(1) by (simp add: Let_def)
  qed
qed

section \<open>Applying commands\<close>

text \<open>The two ways to the log change nothing but the disk.\<close>

definition log_only :: "(server \<Rightarrow> server) \<Rightarrow> bool" where
  "log_only log \<longleftrightarrow> (\<forall>sv. \<exists>d. log sv = sv\<lparr>sv_disk := d\<rparr>)"

lemma log_only_id: "log_only (\<lambda>s. s)"
  unfolding log_only_def by (metis (full_types) server.surjective server.update_convs(13))

lemma log_only_command: "log_only (log_command x out tx c)"
  unfolding log_only_def
proof
  fix sv
  show "\<exists>d. log_command x out tx c sv = sv\<lparr>sv_disk := d\<rparr>"
    by (rule exI [of _ "sv_disk (log_command x out tx c sv)"]) (cases sv, auto simp: log_command_def disk_append_def
        split: option.splits file_state.splits)
qed

lemma apply_put_spec:
  assumes "lru_inv (sv_cache sv)" "log_only log"
  shows "\<exists>sv'. apply_put x log tx k v ex sv = Some sv' \<and> same_config sv sv' \<and> lru_inv (sv_cache sv') \<and>
    lru_abs (sv_cache sv') = (lru_abs (sv_cache sv))(k := None) \<and>
    sv_tree sv' = fmupd k \<lparr>rec_value = v, rec_expires = ex, rec_version = tx\<rparr> (sv_tree sv) \<and>
    sv_indexes sv' = index_add x (sv_schema_registry sv) k v (without_old x k sv)"
proof -
  let ?i = "index_record x k v (unindex_old x k sv)"
  have c1: "same_config sv ?i" by (rule same_config_trans [of _ "unindex_old x k sv"]) simp_all
  obtain d where d: "log ?i = ?i\<lparr>sv_disk := d\<rparr>" using assms(2) unfolding log_only_def by blast
  obtain c where c: "cache_invalidate k (log ?i) = Some ((log ?i)\<lparr>sv_cache := c\<rparr>)" "lru_inv c"
    "lru_abs c = (lru_abs (sv_cache sv))(k := None)"
    using cache_invalidate_spec [of "log ?i" k] assms(1) by (auto simp: d)
  show ?thesis using c c1 by (simp add: apply_put_def Let_def tree_insert_def same_config_def d)
qed

lemma apply_delete_spec:
  assumes "lru_inv (sv_cache sv)"
  shows "\<exists>sv'. apply_delete x k sv = Some sv' \<and> same_config sv sv' \<and> lru_inv (sv_cache sv') \<and>
    lru_abs (sv_cache sv') = (lru_abs (sv_cache sv))(k := None) \<and>
    sv_tree sv' = fmdrop k (sv_tree sv) \<and> sv_indexes sv' = without_old x k sv"
proof -
  let ?u = "unindex_old x k sv"
  let ?s = "tree_remove k ?u"
  have u: "same_config sv ?u" by simp
  obtain c where c: "cache_invalidate k ?s = Some (?s\<lparr>sv_cache := c\<rparr>)" "lru_inv c"
    "lru_abs c = (lru_abs (sv_cache sv))(k := None)"
    using cache_invalidate_spec [of ?s k] assms by (auto simp: tree_remove_def)
  show ?thesis using c u by (simp add: apply_delete_def tree_remove_def same_config_def)
qed

text \<open>What a replica keeps while it applies: a sound cache and an exact index.\<close>

definition replica_ok :: "('n, 'z) serde_scheme \<Rightarrow> server \<Rightarrow> bool" where
  "replica_ok x sv \<longleftrightarrow> cache_ok sv \<and> index_ok x sv \<and> \<not> sv_wal_poisoned sv"

lemma replica_ok_other [simp]:
  "replica_ok x (sv\<lparr>sv_disk := d\<rparr>) = replica_ok x sv"
  "replica_ok x (sv\<lparr>sv_global_version := v\<rparr>) = replica_ok x sv"
  by (simp_all add: replica_ok_def cache_ok_def index_ok_def)

lemma abs_store_version [simp]: "abs_store (sv\<lparr>sv_global_version := v\<rparr>) = abs_store sv"
  by (simp add: abs_store_def fun_eq_iff)

lemma log_only_ok:
  assumes "log_only log"
  shows "replica_ok x (log sv) = replica_ok x sv" "abs_store (log sv) = abs_store sv" "same_config sv (log sv)"
proof -
  obtain d where "log sv = sv\<lparr>sv_disk := d\<rparr>" using assms unfolding log_only_def by blast
  then show "replica_ok x (log sv) = replica_ok x sv" "abs_store (log sv) = abs_store sv" "same_config sv (log sv)"
    by (simp_all add: same_config_def)
qed

lemma cache_ok_forget:
  assumes "cache_ok sv" "lru_inv (sv_cache sv')" "lru_abs (sv_cache sv') = (lru_abs (sv_cache sv))(k := None)"
    and "\<And>j. j \<noteq> k \<Longrightarrow> fmlookup (sv_tree sv') j = fmlookup (sv_tree sv) j"
  shows "cache_ok sv'"
  using assms by (auto simp: cache_ok_def)

lemma apply_write_ok:
  assumes "replica_ok x sv" "log_only log"
  shows "\<exists>sv'. apply_write_command x log tx c sv = Some sv' \<and>
    replica_ok x sv' \<and> same_config sv sv' \<and> abs_store sv' = apply_write c (abs_store sv)"
proof -
  have sv: "cache_ok sv" "lru_inv (sv_cache sv)" "index_ok x sv" "\<not> sv_wal_poisoned sv"
    using assms(1) by (simp_all add: replica_ok_def cache_ok_def)
  show ?thesis
  proof (cases c)
    case (Put k v ex)
    obtain sv' where p: "apply_put x log tx k v ex sv = Some sv'" "same_config sv sv'" "lru_inv (sv_cache sv')"
      "lru_abs (sv_cache sv') = (lru_abs (sv_cache sv))(k := None)"
      "sv_tree sv' = fmupd k \<lparr>rec_value = v, rec_expires = ex, rec_version = tx\<rparr> (sv_tree sv)"
      "sv_indexes sv' = index_add x (sv_schema_registry sv) k v (without_old x k sv)"
      using apply_put_spec [OF sv(2) assms(2), of x tx k v ex] by blast
    have "cache_ok sv'" by (rule cache_ok_forget [OF sv(1) p(3,4)]) (simp add: p(5))
    moreover have "index_ok x sv'" using index_ok_write [OF sv(3) _ p(5)] p(2,6) by (simp add: same_config_def)
    ultimately show ?thesis
      using p(1,2) sv(4) abs_store_upd(1) [OF p(5)] Put
      by (simp add: apply_write_command_def replica_ok_def same_config_def)
  next
    case (Delete k)
    obtain sv' where p: "apply_delete x k sv = Some sv'" "same_config sv sv'" "lru_inv (sv_cache sv')"
      "lru_abs (sv_cache sv') = (lru_abs (sv_cache sv))(k := None)"
      "sv_tree sv' = fmdrop k (sv_tree sv)" "sv_indexes sv' = without_old x k sv"
      using apply_delete_spec [OF sv(2), of x k] by blast
    have "cache_ok sv'" by (rule cache_ok_forget [OF sv(1) p(3,4)]) (simp add: p(5))
    moreover have "index_ok x sv'" using index_ok_erase [OF sv(3) _ p(5,6)] p(2) by (simp add: same_config_def)
    ultimately have "replica_ok x sv'" using sv(4) p(2) by (simp add: replica_ok_def same_config_def)
    then show ?thesis
      using p(1) log_only_ok(1) [OF assms(2), where x = x] log_only_ok(2,3) [OF assms(2)] same_config_trans [OF p(2)] abs_store_upd(2) [OF p(5)] Delete
      by (simp add: apply_write_command_def)
  next
    case (TxCommit cs)
    then show ?thesis using assms by (simp add: apply_write_command_def)
  qed
qed

lemma apply_subcommands_ok:
  "replica_ok x sv \<Longrightarrow>
   \<exists>sv'. apply_subcommands x tx cs sv = Some sv' \<and> replica_ok x sv' \<and> same_config sv sv' \<and>
     abs_store sv' = fold apply_write cs (abs_store sv)"
proof (induction cs arbitrary: sv)
  case Nil
  then show ?case by simp
next
  case (Cons c cs)
  obtain sv1 where s: "apply_write_command x (\<lambda>s. s) tx c sv = Some sv1"
    "replica_ok x sv1" "same_config sv sv1" "abs_store sv1 = apply_write c (abs_store sv)"
    using apply_write_ok [OF Cons.prems log_only_id, of tx c] by blast
  obtain sv' where r: "apply_subcommands x tx cs sv1 = Some sv'" "replica_ok x sv'" "same_config sv1 sv'"
    "abs_store sv' = fold apply_write cs (abs_store sv1)"
    using Cons.IH [OF s(2)] by blast
  then show ?case using s(1,4) same_config_trans [OF s(3) r(3)] by simp
qed

lemma apply_command_ok:
  assumes "replica_ok x sv"
  shows "\<exists>sv'. apply_command x e tx c sv = Some sv' \<and> replica_ok x sv' \<and> same_config sv sv' \<and>
    abs_store sv' = apply_logged c (abs_store sv) \<and> sv_global_version sv' = tx"
proof -
  let ?log = "log_command x (en_wal e) tx c"
  have np: "\<not> sv_wal_poisoned sv" using assms by (simp add: replica_ok_def)
  note lo = log_only_command [of x "en_wal e" tx c]
  note l = log_only_ok(1) [OF lo, where x = x] log_only_ok(2,3) [OF lo]
  obtain s where s: "(case c of TxCommit cs \<Rightarrow> apply_subcommands x tx cs (?log sv)
      | _ \<Rightarrow> apply_write_command x ?log tx c sv) = Some s" "replica_ok x s" "same_config sv s"
    "abs_store s = apply_logged c (abs_store sv)"
  proof (cases c)
    case (TxCommit cs)
    obtain s where "apply_subcommands x tx cs (?log sv) = Some s" "replica_ok x s" "same_config (?log sv) s"
      "abs_store s = fold apply_write cs (abs_store (?log sv))"
      using apply_subcommands_ok [of x "?log sv" tx cs] assms l(1) by auto
    then show ?thesis using that [of s] TxCommit same_config_trans [OF l(3)] l(2) by simp
  qed (use apply_write_ok [OF assms lo, of tx c] that in auto)
  show ?thesis using s np by (simp add: apply_command_def Let_def same_config_def)
qed

end
