(* ===== verification/Replication_Properties.thy ===== *)
theory Replication_Properties
  imports Replication
begin

text \<open>
  The properties of replication: a replica that starts in step stays in step, a new one is
  brought up by the snapshot, repeated and skipped messages do no harm, and the two situations
  in which a replica does not catch up.
\<close>

section \<open>The leader's messages\<close>

text \<open>\<open>serde_json\<close> also reads an envelope that is followed by the newline the stream appends.\<close>

definition stream_codec_ok :: "('n, 'z) wal_ext_scheme \<Rightarrow> bool" where
  "stream_codec_ok x \<longleftrightarrow> (\<forall>e. env_from_str x (env_to_string x e @ [newline]) = Some e)"

fun replicable :: "action \<Rightarrow> bool" where
  "replicable (Request e req) \<longleftrightarrow> no_ttl req"
| "replicable (Commit e it tx) \<longleftrightarrow> eternal_writes tx"
| "replicable _ \<longleftrightarrow> True"

text \<open>Messages numbered one after the other, above a version.\<close>

fun numbered :: "u64 \<Rightarrow> (u64 \<times> wal_command) list \<Rightarrow> bool" where
  "numbered v [] \<longleftrightarrow> True"
| "numbered v ((t, c) # ms) \<longleftrightarrow> t = v + 1 \<and> numbered (v + 1) ms"

text \<open>What a leader's step means to its replicas: nothing, or one message.\<close>

definition sends :: "server \<Rightarrow> server \<Rightarrow> (u64 \<times> wal_command) list \<Rightarrow> bool" where
  "sends sv sv' ms \<longleftrightarrow> sv_sync sv' = sv_sync sv @ ms \<and> numbered (sv_global_version sv) ms \<and>
     sv_global_version sv' = sv_global_version sv + of_nat (length ms) \<and>
     abs_store sv' = fold apply_logged (map snd ms) (abs_store sv)"

lemma numbered_append: "numbered v (a @ b) \<longleftrightarrow> numbered v a \<and> numbered (v + of_nat (length a)) b"
  by (induction v a rule: numbered.induct) (auto simp: algebra_simps)

lemma sends_trans: "sends a b ms \<Longrightarrow> sends b c ms' \<Longrightarrow> sends a c (ms @ ms')"
  by (simp add: sends_def numbered_append algebra_simps)

lemma sends_logs:
  assumes "logs_or_keeps x e sv sv'" "eternal (abs_store sv)"
  shows "\<exists>ms. sends sv sv' ms \<and> length ms \<le> 1 \<and> eternal (abs_store sv')"
  using assms(1) unfolding logs_or_keeps_def
proof (elim conjE disjE exE)
  assume "abs_store sv' = abs_store sv" "sv_sync sv' = sv_sync sv" "sv_global_version sv' = sv_global_version sv"
  then show ?thesis using assms(2) by (intro exI [of _ "[]"]) (simp add: sends_def)
next
  fix c
  assume "never_expires c" "abs_store sv' = apply_logged c (abs_store sv)"
    "sv_sync sv' = sv_sync sv @ [(sv_global_version sv + 1, c)]" "sv_global_version sv' = sv_global_version sv + 1"
  then show ?thesis using assms(2) apply_logged_eternal
    by (intro exI [of _ "[(sv_global_version sv + 1, c)]"]) (simp add: sends_def)
qed

lemma eternal_unexpired:
  assumes "eternal (abs_store sv)"
  shows "expired_entries now sv = []"
proof -
  have "rec_expires r = None" if "(k, r) \<in> set (sorted_entries (sv_tree sv))" for k r
    using that assms by (auto simp: eternal_def abs_store_def in_sorted_entries)
  then show ?thesis by (fastforce simp: expired_entries_def filter_empty_conv)
qed

lemma leader_step:
  assumes "serving UNIV sv" "eternal (abs_store sv)" "replicable a"
  shows "\<exists>sv' ms. perform x a sv = Some sv' \<and> serving UNIV sv' \<and> eternal (abs_store sv') \<and> sends sv sv' ms \<and> length ms \<le> 1"
proof (cases a)
  case (Request e req)
  have r: "no_ttl req" using assms(3) Request by simp
  have "separate UNIV req" using r by (cases req) auto
  then obtain rep sv' where s: "serve x e req sv = Some (rep, sv')" "serving UNIV sv'"
    using serve_refines [OF assms(1), where req = req and e = e and x = x] spec_step_no_ttl [OF r, of e "abs_store sv"] by fastforce
  then show ?thesis
    using sends_logs [OF serve_logs_or_keeps [OF _ r s(1)] assms(2)] assms(1,2) Request
    unfolding perform_def by auto
next
  case (Commit e it tx)
  have sv: "cache_ok sv" "\<not> sv_is_replica sv" "\<not> sv_wal_poisoned sv" using assms(1) by (simp_all add: serving_def)
  have "eternal_writes tx" using assms(3) Commit by simp
  then obtain r sv' where c: "commit x e it tx sv = Some (r, sv')" "logs_or_keeps x e sv sv'" "cache_ok sv'"
    using commit_logs_or_keeps [OF sv, of tx x e it] by blast
  then have "serving UNIV sv'" using sv by (simp add: serving_def same_config_def logs_or_keeps_def)
  then show ?thesis using c sends_logs [OF c(2) assms(2)] Commit by (auto simp: perform_def)
next
  case (Sweep now)
  show ?thesis
    using assms(1,2) Sweep eternal_unexpired [OF assms(2)] by (auto simp: perform_def evict_expired_def sends_def intro: exI [of _ "[]"])
next
  case (Save now se)
  then obtain d where "perform x a sv = Some (sv\<lparr>sv_disk := d\<rparr>)"
    using assms(1) by (cases "sv_snapshot_path sv")
      (auto simp: perform_def save_snapshot_and_truncate_wal_def serving_def intro: that [of "sv_disk sv"])
  then show ?thesis using assms(1,2) by (auto simp: sends_def intro!: exI [of _ "[]"])
qed

lemma leader_history:
  "serving UNIV sv \<Longrightarrow> eternal (abs_store sv) \<Longrightarrow> list_all replicable as \<Longrightarrow>
   \<exists>sv' ms. perform_all x as sv = Some sv' \<and> serving UNIV sv' \<and> eternal (abs_store sv') \<and> sends sv sv' ms \<and> length ms \<le> length as"
proof (induction as arbitrary: sv)
  case Nil
  then show ?case by (auto simp: sends_def intro: exI [of _ "[]"])
next
  case (Cons a as)
  obtain sv1 ms where s: "perform x a sv = Some sv1" "serving UNIV sv1" "eternal (abs_store sv1)" "sends sv sv1 ms" "length ms \<le> 1"
    using leader_step [OF Cons.prems(1,2), of a x] Cons.prems(3) by auto
  obtain sv' ms' where "perform_all x as sv1 = Some sv'" "serving UNIV sv'" "eternal (abs_store sv')" "sends sv1 sv' ms'" "length ms' \<le> length as"
    using Cons.IH [OF s(2,3)] Cons.prems(3) by auto
  then show ?case using s(1,5) sends_trans [OF s(4)] by fastforce
qed

section \<open>In step\<close>

definition message :: "('n, 'z) wal_ext_scheme \<Rightarrow> u64 \<times> wal_command \<Rightarrow> sync_payload" where
  "message x m = WalRecord (fst m) (env_to_string x \<lparr>env_c = snd m, env_k = 0, env_tx_id = fst m\<rparr> @ [newline])"

text \<open>A record that carries a numbered command, whichever text encodes it.\<close>

definition carries :: "('n, 'z) wal_ext_scheme \<Rightarrow> u64 \<times> wal_command \<Rightarrow> sync_payload \<Rightarrow> bool" where
  "carries x m p \<longleftrightarrow> (\<exists>t env. p = WalRecord (fst m) t \<and> env_from_str x t = Some env \<and> env_c env = snd m)"

lemma message_carries: "stream_codec_ok x \<Longrightarrow> carries x m (message x m)"
  by (simp add: carries_def message_def stream_codec_ok_def)

lemma sync_forward_all:
  assumes "\<forall>(t, c) \<in> set ms. v < t"
  shows "sync_forward x v ms = map (message x) ms"
proof -
  have "filter (\<lambda>(t, c). v < t) ms = ms" using assms by (auto intro: filter_True)
  then show ?thesis by (simp add: sync_forward_def message_def [abs_def] case_prod_beta)
qed

lemma numbered_above:
  "numbered v ms \<Longrightarrow> unat v + length ms < 2 ^ 64 \<Longrightarrow> (t, c) \<in> set ms \<Longrightarrow> v < t"
proof (induction v ms rule: numbered.induct)
  case (2 v t' c' ms)
  have u: "unat (v + 1) = unat v + 1" using "2.prems"(2) by (subst unat_add_lem [THEN iffD1]) simp_all
  then have "v < v + 1" by (simp add: word_less_nat_alt)
  then show ?case using 2 u by (auto intro: less_trans)
qed simp

lemma replica_step_next:
  assumes "carries x (v + 1, c) p" "replica_ok x r" "v < v + 1" "sv_global_version r = v"
  shows "\<exists>r'. replica_step x e p r = Some (True, r') \<and> replica_ok x r' \<and>
    abs_store r' = apply_logged c (abs_store r) \<and> sv_global_version r' = v + 1"
proof -
  obtain r' where "apply_command x e (v + 1) c r = Some r'" "replica_ok x r'"
    "abs_store r' = apply_logged c (abs_store r)" "sv_global_version r' = v + 1"
    using apply_command_ok [OF assms(2), of e "v + 1" c] by blast
  moreover have "\<not> v + 1 \<le> v" using assms(3) by (simp only: not_le)
  ultimately show ?thesis
    using assms(1,4) by (auto simp: replica_step_def carries_def Let_def)
qed

lemma replica_run_numbered:
  "list_all2 (carries x) ms ps \<Longrightarrow> replica_ok x r \<Longrightarrow> numbered (sv_global_version r) ms \<Longrightarrow>
   unat (sv_global_version r) + length ms < 2 ^ 64 \<Longrightarrow>
   \<exists>r'. replica_run x (map (\<lambda>p. (e, p)) ps) r = Some (True, r') \<and> replica_ok x r' \<and>
     abs_store r' = fold apply_logged (map snd ms) (abs_store r) \<and>
     sv_global_version r' = sv_global_version r + of_nat (length ms)"
proof (induction arbitrary: r rule: list_all2_induct)
  case Nil
  then show ?case by simp
next
  case (Cons m ms p ps)
  let ?v = "sv_global_version r"
  obtain c where m: "m = (?v + 1, c)" using Cons.prems(2) by (cases m) auto
  have u: "unat (?v + 1) = unat ?v + 1" using Cons.prems(3) by (subst unat_add_lem [THEN iffD1]) simp_all
  then have "?v < ?v + 1" by (simp add: word_less_nat_alt)
  then obtain r1 where r1: "replica_step x e p r = Some (True, r1)" "replica_ok x r1"
    "abs_store r1 = apply_logged c (abs_store r)" "sv_global_version r1 = ?v + 1"
    using replica_step_next [OF _ Cons.prems(1), of ?v c p e] Cons.hyps(1) m by auto
  have "numbered (sv_global_version r1) ms" "unat (sv_global_version r1) + length ms < 2 ^ 64"
    using Cons.prems(2,3) m r1(4) u by simp_all
  then obtain r' where "replica_run x (map (\<lambda>p. (e, p)) ps) r1 = Some (True, r')" "replica_ok x r'"
    "abs_store r' = fold apply_logged (map snd ms) (abs_store r1)"
    "sv_global_version r' = sv_global_version r1 + of_nat (length ms)"
    using Cons.IH [OF r1(2)] by blast
  then show ?case using r1 m by (simp add: algebra_simps)
qed

lemma follows_leader:
  assumes "stream_codec_ok x" "serving UNIV leader" "eternal (abs_store leader)" "list_all replicable as"
    and "perform_all x as leader = Some leader'"
    and "replica_ok x r" "abs_store r = abs_store leader" "sv_global_version r = sv_global_version leader"
    and "unat (sv_global_version leader) + length as < 2 ^ 64"
  shows "\<exists>r'. replica_run x (map (\<lambda>p. (e, p)) (sync_forward x (sv_global_version leader)
        (drop (length (sv_sync leader)) (sv_sync leader')))) r = Some (True, r') \<and>
    replica_ok x r' \<and> abs_store r' = abs_store leader' \<and> sv_global_version r' = sv_global_version leader'"
proof -
  obtain ms where ms: "sends leader leader' ms" "length ms \<le> length as"
    using leader_history [OF assms(2-4), of x] assms(5) by auto
  have d: "drop (length (sv_sync leader)) (sv_sync leader') = ms" using ms by (simp add: sends_def)
  have l: "unat (sv_global_version leader) + length ms < 2 ^ 64" using assms(9) ms(2) by linarith
  have n: "numbered (sv_global_version leader) ms" using ms by (simp add: sends_def)
  have "\<forall>(t, c) \<in> set ms. sv_global_version leader < t" using numbered_above [OF n l] by blast
  then have f: "sync_forward x (sv_global_version leader) ms = map (message x) ms" by (rule sync_forward_all)
  have c: "list_all2 (carries x) ms (map (message x) ms)"
    using message_carries [OF assms(1)] by (simp add: list_all2_conv_all_nth)
  obtain r' where "replica_run x (map (\<lambda>p. (e, p)) (map (message x) ms)) r = Some (True, r')" "replica_ok x r'"
    "abs_store r' = fold apply_logged (map snd ms) (abs_store r)"
    "sv_global_version r' = sv_global_version r + of_nat (length ms)"
    using replica_run_numbered [OF c assms(6), of e] n l assms(8) by auto
  then show ?thesis using d f ms assms(7,8) by (auto simp: sends_def comp_def)
qed

text \<open>
  A replica stays in step. When it holds the leader's store at the leader's version, then after
  any history of requests, transactions, sweeps and saves on the leader without expiry times, the
  forwarded messages, applied in order, bring it to the leader's new store and version, without a
  panic or a reconnection, its index exact and its cache sound.
\<close>

theorem replica_follows:
  assumes "stream_codec_ok x" "serving UNIV leader" "eternal (abs_store leader)" "list_all replicable as"
    and "perform_all x as leader = Some leader'"
    and "replica_ok x r" "abs_store r = abs_store leader" "sv_global_version r = sv_global_version leader"
    and "unat (sv_global_version leader) + length as < 2 ^ 64"
  shows "\<exists>r'. replica_run x (map (\<lambda>p. (e, p)) (sync_forward x (sv_global_version leader)
        (drop (length (sv_sync leader)) (sv_sync leader')))) r = Some (True, r') \<and>
    replica_ok x r' \<and> abs_store r' = abs_store leader' \<and> sv_global_version r' = sv_global_version leader'"
  using assms by (rule follows_leader)

definition plain_stream :: "nat ext" where
  "plain_stream = plain_ext\<lparr>env_from_str := \<lambda>s. read_env (if s \<noteq> [] \<and> last s = newline then butlast s else s)\<rparr>"

lemma plain_stream_ok: "stream_codec_ok plain_stream"
  using plain_ext_codec(1) by (simp add: stream_codec_ok_def plain_stream_def wal_codec_ok_def)

lemma blank_replica: "replica_ok x (blank_server\<lparr>sv_is_replica := True\<rparr>)"
  using blank_server_ok by (simp add: replica_ok_def cache_ok_def index_ok_def)

theorem replica_follows_witness:
  "\<exists>leader r. perform_all plain_stream
       [Request (at 1) (ReqPut ''a'' [1] None), Request (at 2) (ReqPut ''b'' [2] None), Request (at 3) (ReqDelete ''a'')]
       blank_server = Some leader \<and>
     replica_run plain_stream (map (\<lambda>p. (at 9, p)) (sync_forward plain_stream 0 (sv_sync leader)))
       (blank_server\<lparr>sv_is_replica := True\<rparr>) = Some (True, r) \<and>
     abs_store r = abs_store leader \<and> sv_global_version r = sv_global_version leader"
proof -
  let ?as = "[Request (at 1) (ReqPut ''a'' [1] None), Request (at 2) (ReqPut ''b'' [2] None), Request (at 3) (ReqDelete ''a'')]"
  let ?r = "blank_server\<lparr>sv_is_replica := True\<rparr>"
  have b: "serving UNIV blank_server" "eternal (abs_store blank_server)"
    by (simp_all add: blank_serving eternal_def)
  have a: "list_all replicable ?as" by simp
  obtain leader where l: "perform_all plain_stream ?as blank_server = Some leader"
    using leader_history [OF b a] by blast
  have "abs_store ?r = abs_store blank_server" by (simp add: abs_store_def fun_eq_iff)
  moreover have "sv_sync blank_server = []" "sv_global_version blank_server = 0" by (simp_all add: blank_server_def)
  ultimately show ?thesis using replica_follows [OF plain_stream_ok b a l blank_replica, of "at 9"] l
    by (auto simp del: perform_all.simps)
qed

text \<open>
  At most once: a message whose number the replica already has changes nothing, and one that leaves
  a gap changes nothing and makes the replica connect again, unless it has seen no number yet.
\<close>

lemma replica_step_old: "tx_id \<le> sv_global_version r \<Longrightarrow> replica_step x e (WalRecord tx_id text) r = Some (True, r)"
  by (simp add: replica_step_def Let_def)

lemma replica_step_gap:
  "sv_global_version r < tx_id \<Longrightarrow> tx_id \<noteq> sv_global_version r + 1 \<Longrightarrow> sv_global_version r \<noteq> 0 \<Longrightarrow>
   replica_step x e (WalRecord tx_id text) r = Some (False, r)"
  by (auto simp: replica_step_def Let_def)

lemma numbered_nth:
  "numbered v ms \<Longrightarrow> j < length ms \<Longrightarrow> ms ! j = (v + of_nat (Suc j), snd (ms ! j))"
proof (induction v ms arbitrary: j rule: numbered.induct)
  case (2 v t c ms)
  then show ?case by (cases j) (auto simp: algebra_simps)
qed simp

lemma word_add_below:
  assumes "unat (v :: u64) + n < 2 ^ 64"
  shows "unat (v + of_nat n) = unat v + n"
  using assms by (simp add: unat_word_ariths unat_of_nat)

text \<open>A replica that has the first \<open>n\<close> messages, met by any one of them.\<close>

lemma replica_step_any:
  assumes "carries x m p" "replica_ok x r" "numbered v ms" "v \<noteq> 0" "unat v + length ms < 2 ^ 64"
    and "n \<le> length ms" "sv_global_version r = v + of_nat n" "m \<in> set ms"
  shows "\<exists>go r' n'. replica_step x e p r = Some (go, r') \<and> n' \<le> length ms \<and> replica_ok x r' \<and>
    sv_global_version r' = v + of_nat n' \<and>
    (n' = n \<and> r' = r \<or> n' = Suc n \<and> n < length ms \<and> abs_store r' = apply_logged (snd (ms ! n)) (abs_store r))"
proof -
  obtain j where j: "j < length ms" "m = ms ! j" using assms(8) by (auto simp: in_set_conv_nth)
  have m: "m = (v + of_nat (Suc j), snd m)" using numbered_nth [OF assms(3) j(1)] j(2) by simp
  have u: "unat (v + of_nat i) = unat v + i" if "i \<le> length ms" for i
    using that assms(5) by (intro word_add_below) simp
  have r: "unat (sv_global_version r) = unat v + n" using u [OF assms(6)] assms(7) by simp
  have t: "unat (fst m) = unat v + Suc j" using u [of "Suc j"] j(1) by (subst m) simp
  obtain t' where msg: "p = WalRecord (fst m) t'" using assms(1) by (auto simp: carries_def)
  consider "Suc j \<le> n" | "j = n" | "n < j" by linarith
  then show ?thesis
  proof cases
    case 1
    then have "replica_step x e p r = Some (True, r)"
      unfolding msg by (intro replica_step_old) (simp add: word_le_nat_alt r t)
    then show ?thesis using assms(2,6,7) by blast
  next
    case 2
    have s: "unat (sv_global_version r + 1) = unat (sv_global_version r) + 1"
      using u [of "Suc n"] j(1) 2 r assms(7) by (simp add: algebra_simps)
    have f: "sv_global_version r + 1 = v + of_nat (Suc n)" using assms(7) by (simp add: algebra_simps)
    have m': "(sv_global_version r + 1, snd m) = m" using m 2 unfolding f by simp
    have "sv_global_version r < sv_global_version r + 1" using s by (simp add: word_less_nat_alt)
    have "carries x (sv_global_version r + 1, snd m) p" using assms(1) unfolding m' .
    from replica_step_next [OF this assms(2) \<open>sv_global_version r < sv_global_version r + 1\<close> refl, of e]
    obtain r' where "replica_step x e p r = Some (True, r')" "replica_ok x r'"
      "abs_store r' = apply_logged (snd m) (abs_store r)" "sv_global_version r' = v + of_nat (Suc n)"
      unfolding f by blast
    moreover have "Suc n \<le> length ms" "n < length ms" "snd m = snd (ms ! n)" using j 2 by simp_all
    ultimately show ?thesis by (intro exI [of _ True] exI [of _ r'] exI [of _ "Suc n"]) simp
  next
    case 3
    have "unat (sv_global_version r) \<noteq> 0" using r assms(4) by (simp add: unat_eq_zero)
    then have "sv_global_version r \<noteq> 0" by auto
    moreover have "fst m \<noteq> sv_global_version r + 1"
    proof
      assume "fst m = sv_global_version r + 1"
      then have "unat (fst m) = unat v + Suc n"
        using u [of "Suc n"] j(1) 3 assms(7) by (simp add: algebra_simps)
      then show False using t 3 by simp
    qed
    ultimately have "replica_step x e p r = Some (False, r)"
      unfolding msg by (intro replica_step_gap) (use 3 in \<open>simp_all add: word_less_nat_alt r t\<close>)
    then show ?thesis using assms(2,6,7) by blast
  qed
qed

lemma replica_run_any:
  assumes "numbered v ms" "v \<noteq> 0" "unat v + length ms < 2 ^ 64"
  shows "replica_ok x r \<Longrightarrow> n \<le> length ms \<Longrightarrow> sv_global_version r = v + of_nat n \<Longrightarrow>
    abs_store r = fold apply_logged (map snd (take n ms)) m0 \<Longrightarrow> \<forall>p \<in> snd ` set ps. \<exists>m \<in> set ms. carries x m p \<Longrightarrow>
    \<exists>go r' n'. replica_run x ps r = Some (go, r') \<and> replica_ok x r' \<and> n' \<le> length ms \<and>
      sv_global_version r' = v + of_nat n' \<and> abs_store r' = fold apply_logged (map snd (take n' ms)) m0"
proof (induction ps arbitrary: r n)
  case Nil
  then show ?case by auto
next
  case (Cons p ps)
  obtain e q m where p: "p = (e, q)" "m \<in> set ms" "carries x m q" using Cons.prems(5) by (cases p) auto
  obtain go r1 n1 where s: "replica_step x e q r = Some (go, r1)" "n1 \<le> length ms" "replica_ok x r1"
    "sv_global_version r1 = v + of_nat n1"
    "n1 = n \<and> r1 = r \<or> n1 = Suc n \<and> n < length ms \<and> abs_store r1 = apply_logged (snd (ms ! n)) (abs_store r)"
    using replica_step_any [OF p(3) Cons.prems(1) assms Cons.prems(2,3) p(2), of e] by blast
  have a: "abs_store r1 = fold apply_logged (map snd (take n1 ms)) m0"
    using s(5) Cons.prems(4) by (auto simp: take_Suc_conv_app_nth)
  show ?case
  proof (cases go)
    case True
    then show ?thesis using Cons.IH [OF s(3,2,4) a] Cons.prems(5) s(1) p(1) by simp
  next
    case False
    then show ?thesis using s a p(1) by auto
  qed
qed

text \<open>Every number of messages was the whole of what the leader had sent at some point of its history.\<close>

lemma leader_prefixes:
  "serving UNIV sv \<Longrightarrow> eternal (abs_store sv) \<Longrightarrow> list_all replicable as \<Longrightarrow> perform_all x as sv = Some sv' \<Longrightarrow>
   sends sv sv' ms \<Longrightarrow> n \<le> length ms \<Longrightarrow>
   \<exists>j mid. j \<le> length as \<and> perform_all x (take j as) sv = Some mid \<and> sends sv mid (take n ms)"
proof (induction as arbitrary: sv ms n)
  case Nil
  then have "ms = []" by (simp add: sends_def)
  then show ?case using Nil by (auto simp: sends_def)
next
  case (Cons a as)
  obtain sv1 ms1 where s: "perform x a sv = Some sv1" "serving UNIV sv1" "eternal (abs_store sv1)" "sends sv sv1 ms1" "length ms1 \<le> 1"
    using leader_step [OF Cons.prems(1,2), of a x] Cons.prems(3) by auto
  have p: "perform_all x as sv1 = Some sv'" using Cons.prems(4) s(1) by simp
  obtain ms2 where t: "sends sv1 sv' ms2"
    using leader_history [OF s(2,3), of as x] Cons.prems(3) p by auto
  have ms: "ms = ms1 @ ms2" using Cons.prems(5) s(4) t by (simp add: sends_def)
  show ?case
  proof (cases "n < length ms1")
    case True
    then have "n = 0" using s(5) by simp
    moreover have "sends sv sv []" by (simp add: sends_def)
    ultimately show ?thesis by (intro exI [of _ 0] exI [of _ sv]) simp
  next
    case False
    have "\<exists>j mid. j \<le> length as \<and> perform_all x (take j as) sv1 = Some mid \<and> sends sv1 mid (take (n - length ms1) ms2)"
      using Cons.prems(3,6) ms by (intro Cons.IH [OF s(2,3) _ p t]) auto
    then obtain j mid where j: "j \<le> length as" "perform_all x (take j as) sv1 = Some mid"
      "sends sv1 mid (take (n - length ms1) ms2)" by blast
    moreover have "take n ms = ms1 @ take (n - length ms1) ms2" using False ms by simp
    ultimately show ?thesis
      using s(1) sends_trans [OF s(4) j(3)] by (intro exI [of _ "Suc j"] exI [of _ mid]) simp
  qed
qed

text \<open>
  A replica is always in a past state of the leader. It starts in step with the leader, at a
  version other than 0, and then receives forwarded messages in any order, repeated, delayed or
  lost, until it leaves the stream or there are no more: it does not panic, and it holds exactly the
  store and version that the leader had after some part of its history.
\<close>

theorem replica_past_state:
  assumes "stream_codec_ok x" "serving UNIV leader" "eternal (abs_store leader)" "list_all replicable as"
    and "perform_all x as leader = Some leader'" "unat (sv_global_version leader) + length as < 2 ^ 64"
    and "replica_ok x r" "abs_store r = abs_store leader" "sv_global_version r = sv_global_version leader"
    and "sv_global_version leader \<noteq> 0"
    and "snd ` set ps \<subseteq> set (sync_forward x (sv_global_version leader) (drop (length (sv_sync leader)) (sv_sync leader')))"
  shows "\<exists>go r' j mid. replica_run x ps r = Some (go, r') \<and> replica_ok x r' \<and>
    j \<le> length as \<and> perform_all x (take j as) leader = Some mid \<and>
    abs_store r' = abs_store mid \<and> sv_global_version r' = sv_global_version mid"
proof -
  let ?v = "sv_global_version leader"
  obtain ms where ms: "sends leader leader' ms" "length ms \<le> length as"
    using leader_history [OF assms(2-4), of x] assms(5) by auto
  have n: "numbered ?v ms" and d: "drop (length (sv_sync leader)) (sv_sync leader') = ms"
    using ms(1) by (simp_all add: sends_def)
  have l: "unat ?v + length ms < 2 ^ 64" using assms(6) ms(2) by linarith
  have "\<forall>(t, c) \<in> set ms. ?v < t" using numbered_above [OF n l] by blast
  then have i: "snd ` set ps \<subseteq> message x ` set ms" using assms(11) d sync_forward_all [of ms ?v x] by simp
  have p: "\<forall>p \<in> snd ` set ps. \<exists>m \<in> set ms. carries x m p"
  proof
    fix p
    assume "p \<in> snd ` set ps"
    then obtain m where "m \<in> set ms" "p = message x m" using i by blast
    then show "\<exists>m \<in> set ms. carries x m p" using message_carries [OF assms(1), of m] by auto
  qed
  obtain go r' n' where r: "replica_run x ps r = Some (go, r')" "replica_ok x r'" "n' \<le> length ms"
    "sv_global_version r' = ?v + of_nat n'" "abs_store r' = fold apply_logged (map snd (take n' ms)) (abs_store leader)"
    using replica_run_any [OF n assms(10) l assms(7) le0 _ _ p, of "abs_store leader"] assms(8,9) by auto
  obtain j mid where "j \<le> length as" "perform_all x (take j as) leader = Some mid" "sends leader mid (take n' ms)"
    using leader_prefixes [OF assms(2-5) ms(1) r(3)] by blast
  then show ?thesis using r by (auto simp: sends_def min_absorb2)
qed

theorem replica_past_state_witness:
  "\<exists>leader' go r' j mid.
     perform_all plain_stream [Request (at 1) (ReqPut ''a'' [1] None), Request (at 2) (ReqPut ''b'' [2] None)]
       (blank_server\<lparr>sv_global_version := 1\<rparr>) = Some leader' \<and>
     replica_run plain_stream
       (map (Pair (at 9)) (sync_forward plain_stream 1 (sv_sync leader') @ rev (sync_forward plain_stream 1 (sv_sync leader'))))
       (blank_server\<lparr>sv_global_version := 1, sv_is_replica := True\<rparr>) = Some (go, r') \<and>
     perform_all plain_stream (take j [Request (at 1) (ReqPut ''a'' [1] None), Request (at 2) (ReqPut ''b'' [2] None)])
       (blank_server\<lparr>sv_global_version := 1\<rparr>) = Some mid \<and>
     abs_store r' = abs_store mid"
proof -
  let ?as = "[Request (at 1) (ReqPut ''a'' [1] None), Request (at 2) (ReqPut ''b'' [2] None)]"
  let ?l = "blank_server\<lparr>sv_global_version := 1\<rparr>"
  let ?r = "blank_server\<lparr>sv_global_version := 1, sv_is_replica := True\<rparr>"
  have b: "serving UNIV ?l" "eternal (abs_store ?l)"
    using blank_serving(1) [of UNIV] blank_serving(2) by (simp_all add: eternal_def serving_def cache_ok_def)
  have a: "list_all replicable ?as" by simp
  obtain leader' where l: "perform_all plain_stream ?as ?l = Some leader'"
    using leader_history [OF b a] by blast
  let ?ps = "sync_forward plain_stream 1 (sv_sync leader')"
  have r: "replica_ok plain_stream ?r" using blank_server_ok by (simp add: replica_ok_def cache_ok_def index_ok_def)
  have o: "abs_store ?r = abs_store ?l" by (simp add: abs_store_def fun_eq_iff)
  have d: "drop (length (sv_sync ?l)) (sv_sync leader') = sv_sync leader'" "sv_global_version ?l = 1"
    by (simp_all add: blank_server_def)
  have p: "snd ` set (map (Pair (at 9)) (?ps @ rev ?ps)) \<subseteq>
      set (sync_forward plain_stream (sv_global_version ?l) (drop (length (sv_sync ?l)) (sv_sync leader')))"
    unfolding d by auto
  show ?thesis
    using replica_past_state [OF plain_stream_ok b a l _ r o _ _ p] l by (simp add: d(2) del: perform_all.simps) blast
qed

text \<open>
  A replica at version 0 has no such protection: it takes whatever number comes first for the next one.
\<close>

lemma replica_zero_accepts_gap:
  assumes "stream_codec_ok x" "replica_ok x r" "sv_global_version r = 0" "t \<noteq> 0"
  shows "\<exists>r'. replica_step x e (message x (t, c)) r = Some (True, r') \<and>
    abs_store r' = apply_logged c (abs_store r) \<and> sv_global_version r' = t"
proof -
  obtain r' where "apply_command x e t c r = Some r'" "abs_store r' = apply_logged c (abs_store r)" "sv_global_version r' = t"
    using apply_command_ok [OF assms(2), of e t c] by blast
  then show ?thesis
    using assms(1,3,4) by (simp add: replica_step_def message_def stream_codec_ok_def Let_def)
qed

end
