(* ===== verification/Resync_Properties.thy ===== *)
theory Resync_Properties
  imports Replication_Properties
begin

text \<open>
  Bringing up a replica from a snapshot: what the chunks of \<open>sync\<close> do to whatever the replica
  held, that they make an empty replica equal to the leader's live store, and the leader state
  from which a replica that is behind never catches up.
\<close>

section \<open>Installing chunks\<close>

lemma install_record_simps [simp]:
  "sv_tree (install_record x v rec sv) =
     fmupd (kv_key rec) \<lparr>rec_value = kv_value rec, rec_expires = kv_expires rec, rec_version = v\<rparr> (sv_tree sv)"
  "sv_indexes (install_record x v rec sv) =
     index_add x (sv_schema_registry sv) (kv_key rec) (kv_value rec) (sv_indexes sv)"
  "sv_cache (install_record x v rec sv) = sv_cache sv"
  "sv_schema_registry (install_record x v rec sv) = sv_schema_registry sv"
  "sv_global_version (install_record x v rec sv) = sv_global_version sv"
  "sv_wal_poisoned (install_record x v rec sv) = sv_wal_poisoned sv"
  by (simp_all add: install_record_def step_defs)

lemma install_record_version:
  "install_record x v rec (sv\<lparr>sv_global_version := w\<rparr>) = (install_record x v rec sv)\<lparr>sv_global_version := w\<rparr>"
  by (simp add: install_record_def step_defs)

lemma install_records_version:
  "fold (install_record x v) recs (sv\<lparr>sv_global_version := w\<rparr>) = (fold (install_record x v) recs sv)\<lparr>sv_global_version := w\<rparr>"
  by (induction recs arbitrary: sv) (simp_all add: install_record_version)

lemma install_records_other:
  "sv_cache (fold (install_record x v) recs sv) = sv_cache sv"
  "sv_schema_registry (fold (install_record x v) recs sv) = sv_schema_registry sv"
  "sv_wal_poisoned (fold (install_record x v) recs sv) = sv_wal_poisoned sv"
  "sv_global_version (fold (install_record x v) recs sv) = sv_global_version sv"
  by (induction recs arbitrary: sv) simp_all

lemma install_chunks:
  "fold (\<lambda>c. install_chunk x c v) cs sv =
     (if cs = [] then sv else (fold (install_record x v) (concat cs) sv)\<lparr>sv_global_version := v\<rparr>)"
  by (induction cs arbitrary: sv) (simp_all add: install_chunk_def install_records_version)

lemma replica_run_snapshots:
  "replica_run x (map (Pair e) (map (\<lambda>c. Snapshot c v) cs)) r = Some (True, fold (\<lambda>c. install_chunk x c v) cs r)"
  by (induction cs arbitrary: r) (simp_all add: replica_step_def)

section \<open>The snapshot's contents\<close>

text \<open>The store without the records that have expired.\<close>

definition live_store :: "nat option \<Rightarrow> server \<Rightarrow> store" where
  "live_store now sv k = (case abs_store sv k of
     Some (v, ex) \<Rightarrow> if is_expired now ex then None else Some (v, ex) | None \<Rightarrow> None)"

definition binding :: "kv_record \<Rightarrow> str \<times> (bytes \<times> u64 option)" where
  "binding r = (kv_key r, (kv_value r, kv_expires r))"

lemma live_records_keys: "distinct (map kv_key (live_records now sv))"
proof -
  have "map kv_key (live_records now sv) = map fst (filter (\<lambda>(k, r). live now r) (sorted_entries (sv_tree sv)))"
    by (simp add: live_records_def answer_def comp_def)
  then show ?thesis by (simp add: distinct_map_filter sorted_entries_distinct del: map_fst_sorted_entries)
qed

lemma in_live_records:
  "rec \<in> set (live_records now sv) \<longleftrightarrow>
    (\<exists>k r. fmlookup (sv_tree sv) k = Some r \<and> live now r \<and> rec = answer (k, r))"
  by (auto simp: live_records_def in_sorted_entries image_iff)

lemma map_of_live_records: "map_of (map binding (live_records now sv)) = live_store now sv"
proof
  fix k
  let ?bs = "map binding (live_records now sv)"
  have d: "distinct (map fst ?bs)" using live_records_keys [of now sv] by (simp add: binding_def comp_def)
  have "map_of ?bs k = Some c \<longleftrightarrow> live_store now sv k = Some c" for c
    unfolding map_of_eq_Some_iff [OF d]
    by (cases c; cases "fmlookup (sv_tree sv) k")
      (auto simp: in_live_records binding_def answer_def live_store_def abs_store_def live_def
        intro!: rev_image_eqI [of "answer (k, the (fmlookup (sv_tree sv) k))"] split: if_splits)
  then show "map_of ?bs k = live_store now sv k" by (metis option.exhaust)
qed

lemma abs_store_install: "abs_store (install_record x v rec sv) = (abs_store sv)(kv_key rec \<mapsto> (kv_value rec, kv_expires rec))"
  by (auto simp: abs_store_def fun_eq_iff)

lemma abs_store_installs:
  "distinct (map kv_key recs) \<Longrightarrow>
   abs_store (fold (install_record x v) recs sv) = abs_store sv ++ map_of (map binding recs)"
proof (induction recs arbitrary: sv)
  case Nil
  then show ?case by simp
next
  case (Cons rec recs)
  have b: "binding rec = (kv_key rec, kv_value rec, kv_expires rec)" by (simp add: binding_def)
  have "map_of (map binding recs) (kv_key rec) = None"
    using Cons.prems by (simp add: map_of_eq_None_iff binding_def image_image)
  then show ?case
    using Cons by (auto simp: abs_store_install b map_add_def fun_eq_iff split: option.split)
qed

lemma sync_snapshot_chunks:
  "\<exists>cs. sync_snapshot now sv = map (\<lambda>c. Snapshot c (sv_global_version sv)) cs \<and>
     concat cs = live_records now sv \<and> list_all (\<lambda>c. length c \<le> 100) cs \<and>
     (cs = [] \<longleftrightarrow> live_records now sv = [] \<and> sv_global_version sv \<noteq> 0)"
proof -
  obtain full rest where c: "cut_chunks [] (live_records now sv) = (full, rest)" by (cases "cut_chunks [] (live_records now sv)")
  let ?cs = "full @ (if rest \<noteq> [] \<or> sv_global_version sv = 0 then [rest] else [])"
  have l: "\<forall>c \<in> set full. length c = 100" "length rest < 100" using cut_chunks_length [OF c] by simp_all
  have "full = []" if "live_records now sv = []" using c that by simp
  moreover have "concat full @ rest = live_records now sv" using cut_chunks_concat [OF c] by simp
  ultimately show ?thesis
    using l by (intro exI [of _ ?cs]) (auto simp: sync_snapshot_def Let_def c list_all_iff)
qed

lemma overlays:
  "\<exists>r'. replica_run x (map (Pair e) (sync_snapshot now leader)) r = Some (True, r') \<and>
    abs_store r' = abs_store r ++ live_store now leader \<and>
    sv_global_version r' =
      (if live_records now leader = [] \<and> sv_global_version leader \<noteq> 0 then sv_global_version r
       else sv_global_version leader)"
proof -
  obtain cs where cs: "sync_snapshot now leader = map (\<lambda>c. Snapshot c (sv_global_version leader)) cs"
    "concat cs = live_records now leader" "cs = [] \<longleftrightarrow> live_records now leader = [] \<and> sv_global_version leader \<noteq> 0"
    using sync_snapshot_chunks [of now leader] by blast
  let ?r = "fold (\<lambda>c. install_chunk x c (sv_global_version leader)) cs r"
  have "abs_store ?r = abs_store r ++ map_of (map binding (live_records now leader))"
    using cs(2) by (auto simp: install_chunks abs_store_installs live_records_keys)
  then have "abs_store ?r = abs_store r ++ live_store now leader" by (simp add: map_of_live_records)
  then show ?thesis
    using cs(3) replica_run_snapshots [of x e "sv_global_version leader" cs r]
    by (auto simp: cs(1) install_chunks)
qed

text \<open>
  What a snapshot does to a replica. Whatever the replica holds, the chunks go through without
  a panic or a reconnection and lay the leader's live records over what is there: nothing the leader
  no longer has is removed. The replica then has the leader's version, unless the leader has no live
  record and a version other than 0: then not one chunk is sent and nothing changes at all.
\<close>

theorem snapshot_overlays:
  "\<exists>r'. replica_run x (map (Pair e) (sync_snapshot now leader)) r = Some (True, r') \<and>
    abs_store r' = abs_store r ++ live_store now leader \<and>
    sv_global_version r' =
      (if live_records now leader = [] \<and> sv_global_version leader \<noteq> 0 then sv_global_version r
       else sv_global_version leader)"
  by (rule overlays)

section \<open>An empty replica\<close>

lemma index_ok_installs:
  "index_ok x sv \<Longrightarrow> distinct (map kv_key recs) \<Longrightarrow> \<forall>rec \<in> set recs. fmlookup (sv_tree sv) (kv_key rec) = None \<Longrightarrow>
   index_ok x (fold (install_record x v) recs sv)"
proof (induction recs arbitrary: sv)
  case Nil
  then show ?case by simp
next
  case (Cons rec recs)
  have "tree_values (sv_tree sv) (kv_key rec) = None" using Cons.prems(3) by (simp add: tree_values_def)
  then have "index_ok x (install_record x v rec sv)"
    using ix.agrees_insert [OF Cons.prems(1) [unfolded index_ok_def]] by (simp add: index_ok_def)
  moreover have "\<forall>rec' \<in> set recs. fmlookup (sv_tree (install_record x v rec sv)) (kv_key rec') = None"
    using Cons.prems(2,3) by auto
  ultimately show ?case using Cons.IH Cons.prems(2) by simp
qed

lemma bootstraps:
  assumes "replica_ok x r" "sv_global_version r = 0" "sv_tree r = fmempty"
    and "live_records now leader \<noteq> [] \<or> sv_global_version leader = 0"
  shows "\<exists>ps r'. sync_initial x now (sv_global_version r) leader = (ps, sv_global_version leader) \<and>
    list_all (\<lambda>p. case p of Snapshot recs _ \<Rightarrow> length recs \<le> 100 | WalRecord _ _ \<Rightarrow> False) ps \<and>
    replica_run x (map (Pair e) ps) r = Some (True, r') \<and> replica_ok x r' \<and>
    abs_store r' = live_store now leader \<and> sv_global_version r' = sv_global_version leader"
proof -
  obtain cs where cs: "sync_snapshot now leader = map (\<lambda>c. Snapshot c (sv_global_version leader)) cs"
    "concat cs = live_records now leader" "list_all (\<lambda>c. length c \<le> 100) cs"
    using sync_snapshot_chunks [of now leader] by blast
  obtain r' where r': "replica_run x (map (Pair e) (sync_snapshot now leader)) r = Some (True, r')"
    "abs_store r' = abs_store r ++ live_store now leader" "sv_global_version r' = sv_global_version leader"
    using overlays [of x e now leader r] assms(4) by auto
  have m: "fmlookup (sv_tree r) k = None" for k using assms(3) by simp
  have "lru_abs (sv_cache r) = Map.empty" using assms(1) m by (force simp: replica_ok_def cache_ok_def)
  moreover have "r' = fold (\<lambda>c. install_chunk x c (sv_global_version leader)) cs r"
    using r'(1) replica_run_snapshots [of x e "sv_global_version leader" cs r] cs(1) by simp
  moreover have "index_ok x (fold (install_record x (sv_global_version leader)) (live_records now leader) r)"
    using assms(1) live_records_keys m by (intro index_ok_installs) (simp_all add: replica_ok_def)
  ultimately have "replica_ok x r'"
    using assms(1) cs(2) by (auto simp: install_chunks replica_ok_def cache_ok_def index_ok_def install_records_other)
  moreover have "abs_store r = Map.empty" using m by (simp add: abs_store_def fun_eq_iff)
  moreover have "list_all (\<lambda>p. case p of Snapshot recs _ \<Rightarrow> length recs \<le> 100 | WalRecord _ _ \<Rightarrow> False) (sync_snapshot now leader)"
    using cs(1,3) by (simp add: list_all_iff)
  ultimately show ?thesis using r' assms(2) by (simp add: sync_initial_def sync_plan_def)
qed

text \<open>
  A new replica is brought up. When an empty replica at version 0 connects to a leader that has a
  live record, or is at version 0 itself, the first messages are chunks of at most 100 records; they
  give the replica exactly the leader's live store and version, with an exact index.
\<close>

theorem bootstrap_replica:
  assumes "replica_ok x r" "sv_global_version r = 0" "sv_tree r = fmempty"
    and "live_records now leader \<noteq> [] \<or> sv_global_version leader = 0"
  shows "\<exists>ps r'. sync_initial x now (sv_global_version r) leader = (ps, sv_global_version leader) \<and>
    list_all (\<lambda>p. case p of Snapshot recs _ \<Rightarrow> length recs \<le> 100 | WalRecord _ _ \<Rightarrow> False) ps \<and>
    replica_run x (map (Pair e) ps) r = Some (True, r') \<and> replica_ok x r' \<and>
    abs_store r' = live_store now leader \<and> sv_global_version r' = sv_global_version leader"
  using assms by (rule bootstraps)

lemma replica_run_append:
  "replica_run x ps r = Some (True, r1) \<Longrightarrow> replica_run x (ps @ qs) r = replica_run x qs r1"
  by (induction ps arbitrary: r) (auto simp: bind_eq_Some_conv split: if_splits Option.bind_splits)

lemma live_store_eternal: "eternal (abs_store sv) \<Longrightarrow> live_store now sv = abs_store sv"
  by (fastforce simp: eternal_def live_store_def fun_eq_iff split: option.splits)

text \<open>
  C5: From nothing to in step. A new replica connects to a leader that has a live record or is at
  version 0, and in whose store nothing expires; the leader writes nothing between the reading of its
  tree and the subscription to the broadcast, and then goes through any history of requests,
  transactions, sweeps and saves without expiry times. After the snapshot and the forwarded messages,
  in order, the replica has the leader's store and version, an exact index and a sound cache, and has
  not left the stream.
\<close>

theorem replica_joins:
  assumes "stream_codec_ok x" "serving UNIV leader" "eternal (abs_store leader)" "list_all replicable as"
    and "perform_all x as leader = Some leader'" "unat (sv_global_version leader) + length as < 2 ^ 64"
    and "replica_ok x r" "sv_global_version r = 0" "sv_tree r = fmempty"
    and "live_records now leader \<noteq> [] \<or> sv_global_version leader = 0"
  shows "\<exists>ps start r'. sync_initial x now 0 leader = (ps, start) \<and>
    replica_run x (map (Pair e) (ps @ sync_forward x start (drop (length (sv_sync leader)) (sv_sync leader')))) r = Some (True, r') \<and>
    replica_ok x r' \<and> abs_store r' = abs_store leader' \<and> sv_global_version r' = sv_global_version leader'"
proof -
  obtain ps r1 where b: "sync_initial x now 0 leader = (ps, sv_global_version leader)"
    "replica_run x (map (Pair e) ps) r = Some (True, r1)" "replica_ok x r1"
    "abs_store r1 = live_store now leader" "sv_global_version r1 = sv_global_version leader"
    using bootstraps [OF assms(7-10), of e] assms(8) by auto
  have "abs_store r1 = abs_store leader" using b(4) live_store_eternal [OF assms(3)] by simp
  from follows_leader [OF assms(1-5) b(3) this b(5) assms(6), of e]
  show ?thesis using b(1) replica_run_append [OF b(2)] by auto
qed

section \<open>A replica that does not catch up\<close>

text \<open>
  A leader whose records are all gone and whose log has been truncated sends a replica that is
  behind nothing at all: neither records nor an empty snapshot. The first message forwarded later
  is a gap for the replica, so it leaves the stream to connect again, without any change. As long
  as the leader has no live record, the replica goes on serving the records that are gone.
\<close>

theorem replica_stuck:
  assumes "sv_wal_path leader = Some w" "read_from_tx_id x (sv_disk leader w) (sv_global_version r + 1) = Inr []"
    and "live_records now leader = []" "sv_global_version r \<noteq> 0" "sv_global_version r < sv_global_version leader"
  shows "sync_initial x now (sv_global_version r) leader = ([], sv_global_version leader) \<and>
    replica_run x (map (Pair e) (sync_forward x (sv_global_version leader) ms)) r =
      Some (sync_forward x (sv_global_version leader) ms = [], r)"
proof
  show "sync_initial x now (sv_global_version r) leader = ([], sv_global_version leader)"
    using assms by (auto simp: sync_initial_def sync_plan_def sync_snapshot_def Let_def)
  show "replica_run x (map (Pair e) (sync_forward x (sv_global_version leader) ms)) r =
      Some (sync_forward x (sv_global_version leader) ms = [], r)"
  proof (cases "filter (\<lambda>(tx_id, cmd). sv_global_version leader < tx_id) ms")
    case Nil
    then show ?thesis by (simp add: sync_forward_def)
  next
    case (Cons m ms')
    then have "m \<in> set (filter (\<lambda>(tx_id, cmd). sv_global_version leader < tx_id) ms)" by simp
    then have l: "sv_global_version leader < fst m" by auto
    have "sv_global_version r + 1 \<le> sv_global_version leader" using assms(5) by (rule inc_le)
    then have "fst m \<noteq> sv_global_version r + 1" using l by auto
    then have "replica_step x e (WalRecord (fst m) s) r = Some (False, r)" for s
      using replica_step_gap assms(4,5) l less_trans by metis
    then show ?thesis using Cons by (simp add: sync_forward_def case_prod_beta)
  qed
qed

section \<open>Instances\<close>

lemma one_record_leader:
  "\<exists>l. put plain_stream (at 1) ''a'' [1] None blank_server = Some (Inr True, l) \<and> serving UNIV l \<and>
     abs_store l = [''a'' \<mapsto> ([1], None)] \<and> sv_global_version l = 1 \<and> live_records (Some 5) l \<noteq> []"
proof -
  have inv: "lru_inv (sv_cache blank_server)" "\<not> sv_is_replica blank_server" by (simp_all add: blank_server_def)
  obtain l where p: "put plain_stream (at 1) ''a'' [1] None blank_server = Some (Inr True, l)"
    "sv_tree l = fmupd ''a'' \<lparr>rec_value = [1], rec_expires = None, rec_version = sv_global_version blank_server + 1\<rparr> (sv_tree blank_server)"
    "sv_global_version l = sv_global_version blank_server + 1"
    using put_spec [OF inv ttl_expiry_None, where x = plain_stream and k = "''a''" and v = "[1]" and e = "at 1"] by auto
  have "serving UNIV l"
    using serve_put [OF blank_serving(1), where P = UNIV and k = "''a''" and v = "[1]" and ttl = None and e = "at 1" and x = plain_stream] p(1)
    by (simp add: reply_with_def)
  moreover have a: "abs_store l = [''a'' \<mapsto> ([1], None)]" using abs_store_upd(1) [OF p(2)] blank_serving(2) by simp
  moreover have "live_records (Some 5) l \<noteq> []"
  proof
    assume "live_records (Some 5) l = []"
    then have "live_store (Some 5) l ''a'' = None" using map_of_live_records [of "Some 5" l, symmetric] by simp
    then show False by (simp add: live_store_def a)
  qed
  ultimately show ?thesis using p(1,3) by (simp add: blank_server_def)
qed

theorem bootstrap_replica_witness:
  "\<exists>l ps r'. put plain_stream (at 1) ''a'' [1] None blank_server = Some (Inr True, l) \<and>
     sync_initial plain_stream (Some 5) 0 l = (ps, 1) \<and>
     replica_run plain_stream (map (Pair (at 6)) ps) (blank_server\<lparr>sv_is_replica := True\<rparr>) = Some (True, r') \<and>
     abs_store r' ''a'' = Some ([1], None)"
proof -
  let ?r = "blank_server\<lparr>sv_is_replica := True\<rparr>"
  obtain l where l: "put plain_stream (at 1) ''a'' [1] None blank_server = Some (Inr True, l)"
    "abs_store l = [''a'' \<mapsto> ([1], None)]" "sv_global_version l = 1" "live_records (Some 5) l \<noteq> []"
    using one_record_leader by blast
  have r: "sv_global_version ?r = 0" "sv_tree ?r = fmempty" by (simp_all add: blank_server_def)
  show ?thesis
    using bootstrap_replica [OF blank_replica r, of "Some 5" l plain_stream "at 6"] l r(1) by (auto simp: live_store_def)
qed

theorem replica_joins_witness:
  "\<exists>l l' ps start r'. put plain_stream (at 1) ''a'' [1] None blank_server = Some (Inr True, l) \<and>
     perform_all plain_stream [Request (at 2) (ReqPut ''b'' [2] None), Request (at 3) (ReqDelete ''a'')] l = Some l' \<and>
     sync_initial plain_stream (Some 5) 0 l = (ps, start) \<and>
     replica_run plain_stream (map (Pair (at 6)) (ps @ sync_forward plain_stream start (drop (length (sv_sync l)) (sv_sync l'))))
       (blank_server\<lparr>sv_is_replica := True\<rparr>) = Some (True, r') \<and>
     abs_store r' = abs_store l'"
proof -
  let ?r = "blank_server\<lparr>sv_is_replica := True\<rparr>"
  let ?as = "[Request (at 2) (ReqPut ''b'' [2] None), Request (at 3) (ReqDelete ''a'')]"
  obtain l where l: "put plain_stream (at 1) ''a'' [1] None blank_server = Some (Inr True, l)" "serving UNIV l"
    "abs_store l = [''a'' \<mapsto> ([1], None)]" "sv_global_version l = 1" "live_records (Some 5) l \<noteq> []"
    using one_record_leader by blast
  have e: "eternal (abs_store l)" by (auto simp: eternal_def l(3))
  have a: "list_all replicable ?as" by simp
  obtain l' where l': "perform_all plain_stream ?as l = Some l'" using leader_history [OF l(2) e a] by blast
  have r: "sv_global_version ?r = 0" "sv_tree ?r = fmempty" by (simp_all add: blank_server_def)
  have b: "unat (sv_global_version l) + length ?as < 2 ^ 64" by (simp add: l(4))
  show ?thesis
    using replica_joins [OF plain_stream_ok l(2) e a l' b blank_replica r, of "Some 5" "at 6"] l(1,5) l'
    by (simp del: perform_all.simps) blast
qed

theorem replica_stuck_witness:
  "\<exists>leader r. abs_store leader = Map.empty \<and> abs_store r = [''a'' \<mapsto> ([1], None)] \<and>
     sync_initial plain_stream (Some 5) (sv_global_version r) leader = ([], sv_global_version leader) \<and>
     replica_run plain_stream (map (Pair (at 6)) (sync_forward plain_stream (sv_global_version leader) [(3, Delete ''b'')])) r =
       Some (False, r)"
proof -
  let ?leader = "blank_server\<lparr>sv_global_version := 2, sv_wal_path := Some ''log'', sv_disk := files(''log'' := Content [])\<rparr>"
  let ?r = "blank_server\<lparr>sv_global_version := 1, sv_is_replica := True,
      sv_tree := fmupd ''a'' \<lparr>rec_value = [1], rec_expires = None, rec_version = 1\<rparr> fmempty\<rparr>"
  have w: "sv_wal_path ?leader = Some ''log''" by simp
  have "read_from_tx_id plain_stream (Content []) n = Inr []" for n
    by (simp add: read_from_tx_id_def map_filter_simps)
  then have f: "read_from_tx_id plain_stream (sv_disk ?leader ''log'') (sv_global_version ?r + 1) = Inr []" by simp
  have n: "live_records (Some 5) ?leader = []" by (simp add: live_records_def blank_server_def sorted_entries_def)
  have v: "sv_global_version ?r \<noteq> 0" "sv_global_version ?r < sv_global_version ?leader" by (simp_all add: word_less_nat_alt)
  have m: "sync_forward plain_stream (sv_global_version ?leader) [(3, Delete ''b'')] \<noteq> []"
    by (simp add: sync_forward_def word_less_nat_alt)
  have "abs_store ?leader = Map.empty" using blank_serving(2) by (simp add: abs_store_def fun_eq_iff)
  moreover have "abs_store ?r = [''a'' \<mapsto> ([1], None)]" by (simp add: abs_store_def fun_eq_iff)
  ultimately show ?thesis
    using replica_stuck [OF w f n v, of "at 6" "[(3, Delete ''b'')]"] m
    by (intro exI [of _ ?leader] exI [of _ ?r]) simp
qed

end
