(* ===== verification/Concurrent_Ops.thy ===== *)
theory Concurrent_Ops
  imports Durability_Properties
begin

text \<open>
  The handlers of src/server.rs cut into the steps between which other tasks may run: a task is a
  handler with the point it has reached. put, delete, get and the sweep of expired records hold no
  lock from one access of the shared state to the next; put and delete take the lock of the log for
  one append. cas and commit hold that lock from its acquisition to their end. Filing one record in
  the index, or taking it out, counts as one step, and so does a whole save, which holds the lock.
\<close>

section \<open>Where a handler stands\<close>

text \<open>Each constructor names the access that comes next, with the local variables still needed.\<close>

datatype put_phase =
  PutStart
| PutUnindex "u64 option" "bytes option"
| PutIndex "u64 option"
| PutCache "u64 option"
| PutNumber "u64 option"
| PutLog "u64 option" u64
| PutSend "u64 option" u64
| PutStore "u64 option" u64
| PutNotify
| PutEnd "status + bool"

datatype delete_phase =
  DeleteStart
| DeleteUnindex bytes
| DeleteRemove
| DeleteInvalidate
| DeleteNumber
| DeleteLog u64
| DeleteSend u64
| DeleteNotify
| DeleteEnd "status + bool"

datatype get_phase =
  GetStart
| GetLookup
| GetUnindex bytes
| GetRemove
| GetEnd "status + kv_record"

datatype sweep_phase =
  SweepStart "nat option"
| SweepUnindex "(str \<times> bytes) list"
| SweepRemove str "(str \<times> bytes) list"

datatype cas_phase =
  CasStart
| CasLock "u64 option"
| CasCompare "u64 option"
| CasUnindex "u64 option" bytes
| CasIndex "u64 option"
| CasInvalidate "u64 option"
| CasNumber "u64 option"
| CasLog "u64 option" u64
| CasSend "u64 option" u64
| CasStore "u64 option" u64
| CasNotify
| CasEnd "status + bool"

type_synonym write_set = "(str \<times> db_record option) list"

datatype commit_phase =
  CommitStart
| CommitLock
| CommitValidate write_set
| CommitNumber
| CommitLog u64
| CommitSend u64
| CommitApply u64 write_set
| CommitUnindex u64 str "db_record option" "bytes option" write_set
| CommitStore u64 str db_record write_set
| CommitIndex u64 str bytes write_set
| CommitRemove u64 str write_set
| CommitNotify u64 str "bytes option" str write_set
| CommitInvalidate u64 str write_set
| CommitEnd "db_error + unit"

datatype task =
  PutTask env str bytes "u64 option" put_phase
| DeleteTask env str delete_phase
| GetTask env str get_phase
| SweepTask sweep_phase
| CasTask env str bytes bytes "u64 option" cas_phase
| CommitTask env "db_record option map_order" tx_handle commit_phase

section \<open>Steps\<close>

text \<open>\<open>None\<close> is a panic, or that the handler has ended.\<close>

fun put_step ::
  "('n, 'z) wal_ext_scheme \<Rightarrow> env \<Rightarrow> str \<Rightarrow> bytes \<Rightarrow> u64 option \<Rightarrow> put_phase \<Rightarrow> server
   \<Rightarrow> (put_phase \<times> server) option" where
  "put_step x e key val ttl_ms PutStart sv =
     (if sv_is_replica sv then Some (PutEnd (Inl read_only), sv)
      else do {
        expires_at \<leftarrow> ttl_expiry (en_now e) ttl_ms;
        Some (PutUnindex expires_at (map_option rec_value (fmlookup (sv_tree sv) key)), sv)
      })"
| "put_step x e key val ttl_ms (PutUnindex expires_at old) sv = Some (PutIndex expires_at,
     (case old of Some v \<Rightarrow> remove_record_from_index x key v sv | None \<Rightarrow> sv))"
| "put_step x e key val ttl_ms (PutIndex expires_at) sv = Some (PutCache expires_at, index_record x key val sv)"
| "put_step x e key val ttl_ms (PutCache expires_at) sv = do {
     sv1 \<leftarrow> (if expires_at = None then cache_put key val sv else Some sv);
     Some (PutNumber expires_at, sv1)
   }"
| "put_step x e key val ttl_ms (PutNumber expires_at) sv =
     (let (new_version, sv1) = next_version sv in Some (PutLog expires_at new_version, sv1))"
| "put_step x e key val ttl_ms (PutLog expires_at new_version) sv = Some (PutSend expires_at new_version,
     (if sv_wal_poisoned sv then sv else log_command x (en_wal e) new_version (Put key val expires_at) sv))"
| "put_step x e key val ttl_ms (PutSend expires_at new_version) sv = Some (PutStore expires_at new_version,
     send_sync new_version (Put key val expires_at) sv)"
| "put_step x e key val ttl_ms (PutStore expires_at new_version) sv = Some (PutNotify,
     tree_insert key \<lparr>rec_value = val, rec_expires = expires_at, rec_version = new_version\<rparr> sv)"
| "put_step x e key val ttl_ms PutNotify sv = Some (PutEnd (Inr True), send_watch key (Some val) ''PUT'' sv)"
| "put_step x e key val ttl_ms (PutEnd r) sv = None"

fun delete_step ::
  "('n, 'z) wal_ext_scheme \<Rightarrow> env \<Rightarrow> str \<Rightarrow> delete_phase \<Rightarrow> server \<Rightarrow> (delete_phase \<times> server) option" where
  "delete_step x e key DeleteStart sv =
     (if sv_is_replica sv then Some (DeleteEnd (Inl read_only), sv)
      else (case fmlookup (sv_tree sv) key of
              Some old \<Rightarrow> Some (DeleteUnindex (rec_value old), sv)
            | None \<Rightarrow> Some (DeleteEnd (Inr False), sv)))"
| "delete_step x e key (DeleteUnindex old) sv = Some (DeleteRemove, remove_record_from_index x key old sv)"
| "delete_step x e key DeleteRemove sv = Some (DeleteInvalidate, tree_remove key sv)"
| "delete_step x e key DeleteInvalidate sv = map_option (\<lambda>s. (DeleteNumber, s)) (cache_invalidate key sv)"
| "delete_step x e key DeleteNumber sv = (let (new_version, sv1) = next_version sv in Some (DeleteLog new_version, sv1))"
| "delete_step x e key (DeleteLog new_version) sv = Some (DeleteSend new_version,
     (if sv_wal_poisoned sv then sv else log_command x (en_wal e) new_version (Delete key) sv))"
| "delete_step x e key (DeleteSend new_version) sv = Some (DeleteNotify, send_sync new_version (Delete key) sv)"
| "delete_step x e key DeleteNotify sv = Some (DeleteEnd (Inr True), send_watch key None ''DELETE'' sv)"
| "delete_step x e key (DeleteEnd r) sv = None"

fun get_step :: "('n, 'z) serde_scheme \<Rightarrow> env \<Rightarrow> str \<Rightarrow> get_phase \<Rightarrow> server \<Rightarrow> (get_phase \<times> server) option" where
  "get_step x e key GetStart sv = do {
     (hit, c) \<leftarrow> lru_get key (sv_cache sv);
     Some (case hit of
             Some val \<Rightarrow> GetEnd (Inr \<lparr>kv_key = key, kv_value = val, kv_expires = None\<rparr>)
           | None \<Rightarrow> GetLookup, sv\<lparr>sv_cache := c\<rparr>)
   }"
| "get_step x e key GetLookup sv = Some
     (case fmlookup (sv_tree sv) key of
        Some r \<Rightarrow> if is_expired (en_now e) (rec_expires r) then GetUnindex (rec_value r)
                 else GetEnd (Inr (answer (key, r)))
      | None \<Rightarrow> GetEnd (Inl (NotFound ''Key not found'')), sv)"
| "get_step x e key (GetUnindex old) sv = Some (GetRemove, remove_record_from_index x key old sv)"
| "get_step x e key GetRemove sv =
     Some (GetEnd (Inl (NotFound ''Key not found or expired'')), tree_remove key sv)"
| "get_step x e key (GetEnd r) sv = None"

fun sweep_step :: "('n, 'z) serde_scheme \<Rightarrow> sweep_phase \<Rightarrow> server \<Rightarrow> (sweep_phase \<times> server) option" where
  "sweep_step x (SweepStart now) sv = Some (SweepUnindex (expired_entries now sv), sv)"
| "sweep_step x (SweepUnindex []) sv = None"
| "sweep_step x (SweepUnindex ((key, val) # es)) sv =
     Some (SweepRemove key es, remove_record_from_index x key val sv)"
| "sweep_step x (SweepRemove key es) sv = Some (SweepUnindex es, tree_remove key sv)"

fun cas_step ::
  "('n, 'z) wal_ext_scheme \<Rightarrow> env \<Rightarrow> str \<Rightarrow> bytes \<Rightarrow> bytes \<Rightarrow> u64 option \<Rightarrow> cas_phase \<Rightarrow> server
   \<Rightarrow> (cas_phase \<times> server) option" where
  "cas_step x e key expected new_val ttl_ms CasStart sv =
     (if sv_is_replica sv then Some (CasEnd (Inl read_only), sv)
      else map_option (\<lambda>expires_at. (CasLock expires_at, sv)) (ttl_expiry (en_now e) ttl_ms))"
| "cas_step x e key expected new_val ttl_ms (CasLock expires_at) sv =
     Some (if sv_wal_poisoned sv then CasEnd (Inl (Internal ''Lock failed'')) else CasCompare expires_at, sv)"
| "cas_step x e key expected new_val ttl_ms (CasCompare expires_at) sv = Some
     (case fmlookup (sv_tree sv) key of
        Some r \<Rightarrow>
          if is_expired (en_now e) (rec_expires r)
          then (if expected \<noteq> [] then CasEnd (Inr False) else CasIndex expires_at)
          else if rec_value r = expected then CasUnindex expires_at (rec_value r)
          else CasEnd (Inr False)
      | None \<Rightarrow> if expected = [] then CasIndex expires_at else CasEnd (Inr False), sv)"
| "cas_step x e key expected new_val ttl_ms (CasUnindex expires_at old) sv =
     Some (CasIndex expires_at, remove_record_from_index x key old sv)"
| "cas_step x e key expected new_val ttl_ms (CasIndex expires_at) sv =
     Some (CasInvalidate expires_at, index_record x key new_val sv)"
| "cas_step x e key expected new_val ttl_ms (CasInvalidate expires_at) sv =
     map_option (\<lambda>s. (CasNumber expires_at, s)) (cache_invalidate key sv)"
| "cas_step x e key expected new_val ttl_ms (CasNumber expires_at) sv =
     (let (new_version, sv1) = next_version sv in Some (CasLog expires_at new_version, sv1))"
| "cas_step x e key expected new_val ttl_ms (CasLog expires_at new_version) sv = Some (CasSend expires_at new_version,
     log_command x (en_wal e) new_version (Put key new_val expires_at) sv)"
| "cas_step x e key expected new_val ttl_ms (CasSend expires_at new_version) sv = Some (CasStore expires_at new_version,
     send_sync new_version (Put key new_val expires_at) sv)"
| "cas_step x e key expected new_val ttl_ms (CasStore expires_at new_version) sv = Some (CasNotify,
     tree_insert key \<lparr>rec_value = new_val, rec_expires = expires_at, rec_version = new_version\<rparr> sv)"
| "cas_step x e key expected new_val ttl_ms CasNotify sv =
     Some (CasEnd (Inr True), send_watch key (Some new_val) ''PUT'' sv)"
| "cas_step x e key expected new_val ttl_ms (CasEnd r) sv = None"

fun commit_step ::
  "('n, 'z) wal_ext_scheme \<Rightarrow> env \<Rightarrow> db_record option map_order \<Rightarrow> tx_handle \<Rightarrow> commit_phase \<Rightarrow> server
   \<Rightarrow> (commit_phase \<times> server) option" where
  "commit_step x e it tx CommitStart sv = Some
     (if sv_is_replica sv then CommitEnd (Inl (CommitFailed ''Node is a read-only replica'')) else CommitLock, sv)"
| "commit_step x e it tx CommitLock sv = Some
     (if sv_wal_poisoned sv then CommitEnd (Inl (CommitFailed ''Lock poisoned''))
      else CommitValidate (entries it (tx_write_set tx)), sv)"
| "commit_step x e it tx (CommitValidate []) sv = Some (CommitNumber, sv)"
| "commit_step x e it tx (CommitValidate ((k, v) # ws)) sv = Some
     (case fmlookup (sv_tree sv) k of
        Some r \<Rightarrow> if tx_snapshot_version tx < rec_version r then CommitEnd (Inl Conflict) else CommitValidate ws
      | None \<Rightarrow> CommitValidate ws, sv)"
| "commit_step x e it tx CommitNumber sv =
     (let (new_version, sv1) = next_version sv in Some (CommitLog new_version, sv1))"
| "commit_step x e it tx (CommitLog new_version) sv = Some (CommitSend new_version,
     log_command x (en_wal e) new_version (TxCommit (tx_pending (entries it (tx_write_set tx)))) sv)"
| "commit_step x e it tx (CommitSend new_version) sv = Some
     (CommitApply new_version (entries it (tx_write_set tx)),
      send_sync new_version (TxCommit (tx_pending (entries it (tx_write_set tx)))) sv)"
| "commit_step x e it tx (CommitApply new_version []) sv = Some (CommitEnd (Inr ()), sv)"
| "commit_step x e it tx (CommitApply new_version ((k, v) # ws)) sv = Some
     (CommitUnindex new_version k v (map_option rec_value (fmlookup (sv_tree sv) k)) ws, sv)"
| "commit_step x e it tx (CommitUnindex new_version k v old ws) sv = Some
     (case v of Some r \<Rightarrow> CommitStore new_version k r ws | None \<Rightarrow> CommitRemove new_version k ws,
      case old of Some o' \<Rightarrow> remove_record_from_index x k o' sv | None \<Rightarrow> sv)"
| "commit_step x e it tx (CommitStore new_version k r ws) sv = Some
     (CommitIndex new_version k (rec_value r) ws, tree_insert k (r\<lparr>rec_version := new_version\<rparr>) sv)"
| "commit_step x e it tx (CommitIndex new_version k val ws) sv = Some
     (CommitNotify new_version k (Some val) ''PUT'' ws, index_record x k val sv)"
| "commit_step x e it tx (CommitRemove new_version k ws) sv = Some
     (CommitNotify new_version k None ''DELETE'' ws, tree_remove k sv)"
| "commit_step x e it tx (CommitNotify new_version k val operation ws) sv = Some
     (CommitInvalidate new_version k ws, send_watch k val operation sv)"
| "commit_step x e it tx (CommitInvalidate new_version k ws) sv =
     map_option (\<lambda>s. (CommitApply new_version ws, s)) (cache_invalidate k sv)"
| "commit_step x e it tx (CommitEnd r) sv = None"

fun task_step :: "('n, 'z) wal_ext_scheme \<Rightarrow> task \<Rightarrow> server \<Rightarrow> (task \<times> server) option" where
  "task_step x (PutTask e key val ttl_ms p) sv =
     map_option (\<lambda>(p', s). (PutTask e key val ttl_ms p', s)) (put_step x e key val ttl_ms p sv)"
| "task_step x (DeleteTask e key p) sv = map_option (\<lambda>(p', s). (DeleteTask e key p', s)) (delete_step x e key p sv)"
| "task_step x (GetTask e key p) sv = map_option (\<lambda>(p', s). (GetTask e key p', s)) (get_step x e key p sv)"
| "task_step x (SweepTask p) sv = map_option (\<lambda>(p', s). (SweepTask p', s)) (sweep_step x p sv)"
| "task_step x (CasTask e key expected new_val ttl_ms p) sv =
     map_option (\<lambda>(p', s). (CasTask e key expected new_val ttl_ms p', s)) (cas_step x e key expected new_val ttl_ms p sv)"
| "task_step x (CommitTask e it tx p) sv =
     map_option (\<lambda>(p', s). (CommitTask e it tx p', s)) (commit_step x e it tx p sv)"

fun ended :: "task \<Rightarrow> bool" where
  "ended (PutTask e key val ttl_ms (PutEnd r)) \<longleftrightarrow> True"
| "ended (DeleteTask e key (DeleteEnd r)) \<longleftrightarrow> True"
| "ended (GetTask e key (GetEnd r)) \<longleftrightarrow> True"
| "ended (SweepTask (SweepUnindex [])) \<longleftrightarrow> True"
| "ended (CasTask e key expected new_val ttl_ms (CasEnd r)) \<longleftrightarrow> True"
| "ended (CommitTask e it tx (CommitEnd r)) \<longleftrightarrow> True"
| "ended _ \<longleftrightarrow> False"

section \<open>The lock of the log\<close>

text \<open>The tasks that hold the lock between two steps, and those whose next step takes it.\<close>

fun holds_lock :: "task \<Rightarrow> bool" where
  "holds_lock (CasTask e key expected new_val ttl_ms p) \<longleftrightarrow>
     (case p of CasStart \<Rightarrow> False | CasLock _ \<Rightarrow> False | CasEnd _ \<Rightarrow> False | _ \<Rightarrow> True)"
| "holds_lock (CommitTask e it tx p) \<longleftrightarrow>
     (case p of CommitStart \<Rightarrow> False | CommitLock \<Rightarrow> False | CommitEnd _ \<Rightarrow> False | _ \<Rightarrow> True)"
| "holds_lock _ \<longleftrightarrow> False"

fun takes_lock :: "task \<Rightarrow> bool" where
  "takes_lock (PutTask e key val ttl_ms (PutLog ex n)) \<longleftrightarrow> True"
| "takes_lock (DeleteTask e key (DeleteLog n)) \<longleftrightarrow> True"
| "takes_lock (CasTask e key expected new_val ttl_ms (CasLock ex)) \<longleftrightarrow> True"
| "takes_lock (CommitTask e it tx CommitLock) \<longleftrightarrow> True"
| "takes_lock _ \<longleftrightarrow> False"

definition lock_free :: "task list \<Rightarrow> bool" where
  "lock_free ts \<longleftrightarrow> list_all (\<lambda>t. \<not> holds_lock t) ts"

lemma lock_free_simps [simp]:
  "lock_free []" "lock_free (t # ts) \<longleftrightarrow> \<not> holds_lock t \<and> lock_free ts"
  "lock_free (ts @ us) \<longleftrightarrow> lock_free ts \<and> lock_free us"
  by (simp_all add: lock_free_def)

section \<open>Interleaving\<close>

text \<open>
  Any task that has not ended may take the next step, unless that takes the lock and another task
  holds it; a save may come whenever the lock is free.
\<close>

inductive interleave ::
  "('n, 'z) ext_scheme \<Rightarrow> task list \<times> server \<Rightarrow> task list \<times> server \<Rightarrow> bool" for x where
  turn: "task_step x t sv = Some (t', sv') \<Longrightarrow> takes_lock t \<longrightarrow> lock_free (ts @ us) \<Longrightarrow>
    interleave x (ts @ t # us, sv) (ts @ t' # us, sv')"
| save: "lock_free ts \<Longrightarrow> save_snapshot_and_truncate_wal x now se sv = Some sv' \<Longrightarrow> interleave x (ts, sv) (ts, sv')"

text \<open>Executions by a schedule: the index of the task whose turn it is, or a save.\<close>

datatype turn = Turn nat | SaveTurn "nat option" save_env

fun play :: "('n, 'z) ext_scheme \<Rightarrow> turn list \<Rightarrow> task list \<times> server \<Rightarrow> (task list \<times> server) option" where
  "play x [] c = Some c"
| "play x (Turn i # sch) (ts, sv) =
     (if i < length ts \<and> (takes_lock (ts ! i) \<longrightarrow> lock_free (take i ts @ drop (Suc i) ts))
      then do { (t, sv1) \<leftarrow> task_step x (ts ! i) sv; play x sch (ts[i := t], sv1) }
      else None)"
| "play x (SaveTurn now se # sch) (ts, sv) =
     (if lock_free ts
      then do { sv1 \<leftarrow> save_snapshot_and_truncate_wal x now se sv; play x sch (ts, sv1) }
      else None)"

lemma interleave_nth:
  "i < length ts \<Longrightarrow> task_step x (ts ! i) sv = Some (t, sv') \<Longrightarrow>
   takes_lock (ts ! i) \<longrightarrow> lock_free (take i ts @ drop (Suc i) ts) \<Longrightarrow> interleave x (ts, sv) (ts[i := t], sv')"
  using interleave.turn [of x "ts ! i" sv t sv' "take i ts" "drop (Suc i) ts"]
  by (simp add: id_take_nth_drop [symmetric] upd_conv_take_nth_drop)

lemma play_reaches: "play x sch c = Some c' \<Longrightarrow> rtranclp (interleave x) c c'"
proof (induction x sch c rule: play.induct)
  case (2 x i sch ts sv)
  then obtain t sv1 where "i < length ts" "task_step x (ts ! i) sv = Some (t, sv1)" "play x sch (ts[i := t], sv1) = Some c'"
    "takes_lock (ts ! i) \<longrightarrow> lock_free (take i ts @ drop (Suc i) ts)"
    by (auto simp: bind_eq_Some_conv split: if_splits)
  then show ?case using 2 interleave_nth by (metis (no_types, lifting) converse_rtranclp_into_rtranclp)
next
  case (3 x now se sch ts sv)
  then obtain sv1 where "save_snapshot_and_truncate_wal x now se sv = Some sv1" "play x sch (ts, sv1) = Some c'" "lock_free ts"
    by (auto simp: bind_eq_Some_conv split: if_splits)
  then show ?case using 3 interleave.save by (metis converse_rtranclp_into_rtranclp)
qed simp

section \<open>A task alone\<close>

fun run_task :: "('n, 'z) wal_ext_scheme \<Rightarrow> nat \<Rightarrow> task \<Rightarrow> server \<Rightarrow> (task \<times> server) option" where
  "run_task x 0 t sv = Some (t, sv)"
| "run_task x (Suc n) t sv =
     (if ended t then Some (t, sv)
      else do { (t', sv1) \<leftarrow> task_step x t sv; run_task x n t' sv1 })"

lemma ended_run_task: "ended t \<Longrightarrow> run_task x n t sv = Some (t, sv)"
  by (cases n) simp_all

lemma run_put_tail:
  "run_task x 5 (PutTask e k v ttl (PutNumber ex)) sv =
     Some (PutTask e k v ttl (PutEnd (Inr True)), store_write x (en_wal e) (\<not> sv_wal_poisoned sv) k v ex sv)"
  by (simp add: eval_nat_numeral store_write_def next_version_def Let_def)

lemma run_put_head:
  assumes "\<not> sv_is_replica sv" "ttl_expiry (en_now e) ttl = Some ex"
  shows "run_task x (Suc (Suc (Suc (Suc n)))) (PutTask e k v ttl PutStart) sv = do {
    sv2 \<leftarrow> (if ex = None then cache_put k v (index_record x k v (unindex_old x k sv))
            else Some (index_record x k v (unindex_old x k sv)));
    run_task x n (PutTask e k v ttl (PutNumber ex)) sv2
  }"
proof -
  have "unindex_old x k sv = (case map_option rec_value (fmlookup (sv_tree sv) k) of
      Some old \<Rightarrow> remove_record_from_index x k old sv | None \<Rightarrow> sv)"
    by (simp add: unindex_old_def split: option.split)
  then show ?thesis using assms by (cases ex; cases "cache_put k v (index_record x k v (unindex_old x k sv))") simp_all
qed

lemma run_put:
  "run_task x 9 (PutTask e k v ttl PutStart) sv =
     map_option (\<lambda>(r, s). (PutTask e k v ttl (PutEnd r), s)) (put x e k v ttl sv)"
proof -
  have n: "(9 :: nat) = Suc (Suc (Suc (Suc 5)))" by simp
  consider "sv_is_replica sv" | "\<not> sv_is_replica sv" "ttl_expiry (en_now e) ttl = None"
    | ex where "\<not> sv_is_replica sv" "ttl_expiry (en_now e) ttl = Some ex" by fastforce
  then show ?thesis
  proof cases
    case 1
    then show ?thesis unfolding n by (simp add: put_def ended_run_task del: Suc_numeral)
  next
    case 2
    then show ?thesis unfolding n by (simp add: put_def del: Suc_numeral)
  next
    case 3
    let ?r = "if ex = None then cache_put k v (index_record x k v (unindex_old x k sv))
       else Some (index_record x k v (unindex_old x k sv))"
    show ?thesis
    proof (cases ?r)
      case None
      then show ?thesis unfolding n run_put_head [OF 3] using 3 by (simp add: put_def Let_def)
    next
      case (Some sv2)
      then have "sv_wal_poisoned sv2 = sv_wal_poisoned sv"
        by (auto simp: cache_put_def bind_eq_Some_conv split: if_splits)
      then show ?thesis
        unfolding n run_put_head [OF 3] using 3 Some by (simp add: run_put_tail put_def Let_def)
    qed
  qed
qed

lemma run_delete:
  "run_task x 8 (DeleteTask e k DeleteStart) sv =
     map_option (\<lambda>(r, s). (DeleteTask e k (DeleteEnd r), s)) (delete x e k sv)"
proof -
  have n: "(8 :: nat) = Suc (Suc (Suc (Suc (Suc (Suc (Suc (Suc 0)))))))" by simp
  let ?s = "\<lambda>old. tree_remove k (remove_record_from_index x k (rec_value old) sv)"
  have p: "sv_wal_poisoned s = sv_wal_poisoned sv" if "cache_invalidate k (?s old) = Some s" for s old
    using that by (auto simp: cache_invalidate_def bind_eq_Some_conv step_defs)
  consider "sv_is_replica sv" | "\<not> sv_is_replica sv" "fmlookup (sv_tree sv) k = None"
    | old where "\<not> sv_is_replica sv" "fmlookup (sv_tree sv) k = Some old" by fastforce
  then show ?thesis
  proof cases
    case (3 old)
    show ?thesis
    proof (cases "cache_invalidate k (?s old)")
      case None
      then show ?thesis unfolding n using 3 by (simp add: delete_def Let_def)
    next
      case (Some s)
      then show ?thesis unfolding n using 3 p [OF Some] by (simp add: delete_def Let_def next_version_def)
    qed
  qed (unfold n, simp_all add: delete_def)
qed

lemma run_get:
  "run_task x 4 (GetTask e k GetStart) sv = map_option (\<lambda>(r, s). (GetTask e k (GetEnd r), s)) (get x e k sv)"
proof -
  have n: "(4 :: nat) = Suc (Suc (Suc (Suc 0)))" by simp
  show ?thesis
  proof (cases "lru_get k (sv_cache sv)")
    case (Some hc)
    then obtain hit c where "lru_get k (sv_cache sv) = Some (hit, c)" by (cases hc) auto
    then show ?thesis
      unfolding n by (cases hit; cases "fmlookup (sv_tree sv) k") (simp_all add: get_def Let_def ended_run_task)
  qed (unfold n, simp add: get_def)
qed

lemma run_sweep_entries:
  "run_task x (2 * length es) (SweepTask (SweepUnindex es)) sv =
     Some (SweepTask (SweepUnindex []), fold (\<lambda>(key, val) s. tree_remove key (remove_record_from_index x key val s)) es sv)"
  by (induction es arbitrary: sv) auto

lemma run_sweep:
  "run_task x (Suc (2 * length (expired_entries now sv))) (SweepTask (SweepStart now)) sv =
     Some (SweepTask (SweepUnindex []), evict_expired x now sv)"
  by (simp add: run_sweep_entries evict_expired_def)

lemma run_cas_tail:
  "run_task x (Suc (Suc (Suc (Suc (Suc (Suc (Suc m))))))) (CasTask e k old new ttl (CasIndex ex)) sv =
     map_option (\<lambda>(r, s). (CasTask e k old new ttl (CasEnd r), s)) (cas_write x e k new ex sv)"
  by (cases "cache_invalidate k (index_record x k new sv)")
    (simp_all add: cas_write_def store_write_def next_version_def Let_def ended_run_task)

lemma run_cas_compare:
  "run_task x (Suc (Suc (Suc (Suc (Suc (Suc (Suc (Suc (Suc m))))))))) (CasTask e k old new ttl (CasCompare ex)) sv =
     map_option (\<lambda>(r, s). (CasTask e k old new ttl (CasEnd r), s))
       (case fmlookup (sv_tree sv) k of
          Some r \<Rightarrow>
            if is_expired (en_now e) (rec_expires r)
            then (if old \<noteq> [] then Some (Inr False, sv) else cas_write x e k new ex sv)
            else if rec_value r = old then cas_write x e k new ex (remove_record_from_index x k (rec_value r) sv)
            else Some (Inr False, sv)
        | None \<Rightarrow> if old = [] then cas_write x e k new ex sv else Some (Inr False, sv))"
proof -
  let ?t = "CasTask e k old new ttl"
  have c: "run_task x (Suc n) (?t (CasCompare ex)) sv =
      (case fmlookup (sv_tree sv) k of
         Some r \<Rightarrow>
           if is_expired (en_now e) (rec_expires r)
           then (if old \<noteq> [] then Some (?t (CasEnd (Inr False)), sv) else run_task x n (?t (CasIndex ex)) sv)
           else if rec_value r = old then run_task x n (?t (CasUnindex ex (rec_value r))) sv
           else Some (?t (CasEnd (Inr False)), sv)
       | None \<Rightarrow> if old = [] then run_task x n (?t (CasIndex ex)) sv else Some (?t (CasEnd (Inr False)), sv))" for n
    by (cases "fmlookup (sv_tree sv) k") (simp_all add: ended_run_task)
  have u: "run_task x (Suc n) (?t (CasUnindex ex v)) sv = run_task x n (?t (CasIndex ex)) (remove_record_from_index x k v sv)" for n v
    by simp
  show ?thesis unfolding c u run_cas_tail by (simp split: option.split)
qed

lemma run_cas:
  "run_task x 11 (CasTask e k old new ttl CasStart) sv =
     map_option (\<lambda>(r, s). (CasTask e k old new ttl (CasEnd r), s)) (cas x e k old new ttl sv)"
proof -
  have n: "(11 :: nat) = Suc (Suc (Suc (Suc (Suc (Suc (Suc (Suc (Suc (Suc (Suc 0))))))))))" by simp
  consider "sv_is_replica sv" | "\<not> sv_is_replica sv" "ttl_expiry (en_now e) ttl = None"
    | ex where "\<not> sv_is_replica sv" "ttl_expiry (en_now e) ttl = Some ex" by fastforce
  then show ?thesis
  proof cases
    case 1
    then show ?thesis unfolding n by (simp add: cas_def)
  next
    case 2
    then show ?thesis unfolding n by (simp add: cas_def)
  next
    case (3 ex)
    show ?thesis
    proof (cases "sv_wal_poisoned sv")
      case True
      then show ?thesis unfolding n using 3 by (simp add: cas_def Let_def)
    next
      case False
      have h: "run_task x (Suc (Suc n)) (CasTask e k old new ttl CasStart) sv =
          run_task x n (CasTask e k old new ttl (CasCompare ex)) sv" for n
        using 3 False by simp
      show ?thesis
        unfolding n h run_cas_compare using 3 False by (simp add: cas_def Let_def split: option.split)
    qed
  qed
qed

lemma run_commit_validate:
  "run_task x (Suc (length ws) + m) (CommitTask e it tx (CommitValidate ws)) sv =
     (if tx_conflicts (tx_snapshot_version tx) ws sv then Some (CommitTask e it tx (CommitEnd (Inl Conflict)), sv)
      else run_task x m (CommitTask e it tx CommitNumber) sv)"
proof (induction ws)
  case Nil
  then show ?case by (simp add: tx_conflicts_def)
next
  case (Cons kv ws)
  then show ?case
    by (cases kv; cases "fmlookup (sv_tree sv) (fst kv)") (auto simp: tx_conflicts_def ended_run_task)
qed

lemma run_commit_entry:
  "run_task x (Suc (Suc (Suc (Suc (Suc (Suc n)))))) (CommitTask e it tx (CommitApply v ((k, w) # ws))) sv =
     Option.bind (tx_apply x v k w sv)
       (run_task x (case w of Some r \<Rightarrow> n | None \<Rightarrow> Suc n) (CommitTask e it tx (CommitApply v ws)))"
proof -
  have u: "unindex_old x k sv = (case map_option rec_value (fmlookup (sv_tree sv) k) of
      Some old \<Rightarrow> remove_record_from_index x k old sv | None \<Rightarrow> sv)"
    by (simp add: unindex_old_def split: option.split)
  show ?thesis
  proof (cases w)
    case None
    let ?s = "send_watch k None ''DELETE'' (tree_remove k (unindex_old x k sv))"
    show ?thesis using None by (cases "cache_invalidate k ?s") (simp_all add: tx_apply_def u)
  next
    case (Some r)
    let ?s = "send_watch k (Some (rec_value r)) ''PUT'' (index_record x k (rec_value r)
        (tree_insert k (r\<lparr>rec_version := v\<rparr>) (unindex_old x k sv)))"
    show ?thesis using Some by (cases "cache_invalidate k ?s") (simp_all add: tx_apply_def u Let_def)
  qed
qed

lemma run_commit_apply:
  "6 * length ws + 1 \<le> n \<Longrightarrow> run_task x n (CommitTask e it tx (CommitApply v ws)) sv =
     map_option (\<lambda>s. (CommitTask e it tx (CommitEnd (Inr ())), s)) (tx_apply_all x v ws sv)"
proof (induction ws arbitrary: n sv)
  case Nil
  then obtain m where "n = Suc m" by (cases n) auto
  then show ?case by (simp add: ended_run_task)
next
  case (Cons kw ws)
  obtain k w where kw: "kw = (k, w)" by (cases kw)
  obtain d where "n = 6 * length (kw # ws) + 1 + d" using Cons.prems le_Suc_ex by blast
  then have m: "n = Suc (Suc (Suc (Suc (Suc (Suc (6 * length ws + 1 + d))))))" by simp
  let ?m = "6 * length ws + 1 + d"
  show ?case
    unfolding m kw run_commit_entry
    using Cons.IH [of ?m] Cons.IH [of "Suc ?m"] by (cases "tx_apply x v k w sv"; cases w) simp_all
qed

lemma run_commit:
  "run_task x (7 * length (entries it (tx_write_set tx)) + 7) (CommitTask e it tx CommitStart) sv =
     map_option (\<lambda>(r, s). (CommitTask e it tx (CommitEnd r), s)) (commit x e it tx sv)"
proof -
  let ?ws = "entries it (tx_write_set tx)"
  have n: "7 * length ?ws + 7 = Suc (Suc (Suc (length ?ws) + Suc (Suc (Suc (6 * length ?ws + 1)))))" by simp
  consider "sv_is_replica sv" | "\<not> sv_is_replica sv" "sv_wal_poisoned sv"
    | "\<not> sv_is_replica sv" "\<not> sv_wal_poisoned sv" by blast
  then show ?thesis
  proof cases
    case 3
    let ?n = "sv_global_version sv + 1" and ?c = "TxCommit (tx_pending ?ws)"
    have h: "run_task x (Suc (Suc m)) (CommitTask e it tx CommitStart) sv =
        run_task x m (CommitTask e it tx (CommitValidate ?ws)) sv" for m
      using 3 by simp
    have l: "run_task x (Suc (Suc (Suc m))) (CommitTask e it tx CommitNumber) sv =
        run_task x m (CommitTask e it tx (CommitApply ?n ?ws))
          (send_sync ?n ?c (log_command x (en_wal e) ?n ?c (snd (next_version sv))))" for m
      by (simp add: next_version_def Let_def)
    show ?thesis
      unfolding n h run_commit_validate l run_commit_apply [OF order.refl] using 3
      by (cases "tx_apply_all x ?n ?ws (send_sync ?n ?c (log_command x (en_wal e) ?n ?c (snd (next_version sv))))")
        (simp_all add: commit_def Let_def next_version_def)
  qed (simp_all add: n commit_def Let_def ended_run_task)
qed

text \<open>
  The steps make up the handlers. A put, delete, get, cas, commit or sweep that runs without
  interruption takes at most the given number of steps and leaves the same answer and state as the handler
  described in one piece; it panics when that does.
\<close>

theorem steps_make_handlers:
  "run_task x 9 (PutTask e k v ttl PutStart) sv =
     map_option (\<lambda>(r, s). (PutTask e k v ttl (PutEnd r), s)) (put x e k v ttl sv) \<and>
   run_task x 8 (DeleteTask e k DeleteStart) sv =
     map_option (\<lambda>(r, s). (DeleteTask e k (DeleteEnd r), s)) (delete x e k sv) \<and>
   run_task x 4 (GetTask e k GetStart) sv = map_option (\<lambda>(r, s). (GetTask e k (GetEnd r), s)) (get x e k sv) \<and>
   run_task x 11 (CasTask e k old new ttl CasStart) sv =
     map_option (\<lambda>(r, s). (CasTask e k old new ttl (CasEnd r), s)) (cas x e k old new ttl sv) \<and>
   run_task x (7 * length (entries it (tx_write_set tx)) + 7) (CommitTask e it tx CommitStart) sv =
     map_option (\<lambda>(r, s). (CommitTask e it tx (CommitEnd r), s)) (commit x e it tx sv) \<and>
   run_task x (1 + 2 * length (expired_entries now sv)) (SweepTask (SweepStart now)) sv =
     Some (SweepTask (SweepUnindex []), evict_expired x now sv)"
  by (intro conjI run_put run_delete run_get run_cas run_commit run_sweep [folded plus_1_eq_Suc])

end
