(* ===== verification/Concurrency_Properties.thy ===== *)
theory Concurrency_Properties
  imports Concurrent_Ops
begin

text \<open>
  What holds for every interleaving of handlers, by induction over reachable configurations:
  no version number is used twice.
\<close>

section \<open>Invariants of a step relation\<close>

locale step_invariant =
  fixes step :: "'s \<Rightarrow> 's \<Rightarrow> bool"
    and ok :: "'s \<Rightarrow> bool"
  assumes ok_step: "step c c' \<Longrightarrow> ok c \<Longrightarrow> ok c'"
begin

lemma ok_reachable: "rtranclp step c c' \<Longrightarrow> ok c \<Longrightarrow> ok c'"
  by (induction rule: rtranclp_induct) (auto intro: ok_step)

end

text \<open>
  If, in every such state that is not final, some step leads downwards in a well-founded relation,
  then a final state can be reached from each of them.
\<close>

locale step_progress = step_invariant step ok
  for step :: "'s \<Rightarrow> 's \<Rightarrow> bool" and ok :: "'s \<Rightarrow> bool" +
  fixes final :: "'s \<Rightarrow> bool"
    and lower :: "('s \<times> 's) set"
  assumes wf_lower: "wf lower"
    and progress: "ok c \<Longrightarrow> \<not> final c \<Longrightarrow> \<exists>c'. step c c' \<and> (c', c) \<in> lower"
begin

lemma reaches_final: "ok c \<Longrightarrow> \<exists>c'. rtranclp step c c' \<and> final c'"
proof (induction c rule: wf_induct_rule [OF wf_lower])
  case (1 c)
  show ?case
  proof (cases "final c")
    case False
    then obtain c1 where c1: "step c c1" "(c1, c) \<in> lower" using progress 1(2) by blast
    then obtain c' where "rtranclp step c1 c'" "final c'" using 1(1) ok_step [OF c1(1) 1(2)] by blast
    then show ?thesis using c1(1) by (meson converse_rtranclp_into_rtranclp)
  qed auto
qed

lemma reachable_reaches_final: "ok c \<Longrightarrow> rtranclp step c c' \<Longrightarrow> \<exists>c''. rtranclp step c' c'' \<and> final c''"
  using reaches_final ok_reachable by blast

end

section \<open>Version numbers\<close>

text \<open>The number a task has drawn and not sent yet; the numbers it may still draw.\<close>

fun held :: "task \<Rightarrow> u64 list" where
  "held (PutTask e k v ttl (PutLog ex n)) = [n]"
| "held (PutTask e k v ttl (PutSend ex n)) = [n]"
| "held (DeleteTask e k (DeleteLog n)) = [n]"
| "held (DeleteTask e k (DeleteSend n)) = [n]"
| "held (CasTask e k old new ttl (CasLog ex n)) = [n]"
| "held (CasTask e k old new ttl (CasSend ex n)) = [n]"
| "held (CommitTask e it tx (CommitLog n)) = [n]"
| "held (CommitTask e it tx (CommitSend n)) = [n]"
| "held _ = []"

fun to_draw :: "task \<Rightarrow> nat" where
  "to_draw (PutTask e k v ttl p) =
     (case p of PutStart \<Rightarrow> 1 | PutUnindex _ _ \<Rightarrow> 1 | PutIndex _ \<Rightarrow> 1 | PutCache _ \<Rightarrow> 1 | PutNumber _ \<Rightarrow> 1 | _ \<Rightarrow> 0)"
| "to_draw (DeleteTask e k p) =
     (case p of DeleteStart \<Rightarrow> 1 | DeleteUnindex _ \<Rightarrow> 1 | DeleteRemove \<Rightarrow> 1 | DeleteInvalidate \<Rightarrow> 1 | DeleteNumber \<Rightarrow> 1 | _ \<Rightarrow> 0)"
| "to_draw (CasTask e k old new ttl p) =
     (case p of CasStart \<Rightarrow> 1 | CasLock _ \<Rightarrow> 1 | CasCompare _ \<Rightarrow> 1 | CasUnindex _ _ \<Rightarrow> 1 | CasIndex _ \<Rightarrow> 1
        | CasInvalidate _ \<Rightarrow> 1 | CasNumber _ \<Rightarrow> 1 | _ \<Rightarrow> 0)"
| "to_draw (CommitTask e it tx p) =
     (case p of CommitStart \<Rightarrow> 1 | CommitLock \<Rightarrow> 1 | CommitValidate _ \<Rightarrow> 1 | CommitNumber \<Rightarrow> 1 | _ \<Rightarrow> 0)"
| "to_draw (GetTask e k p) = 0"
| "to_draw (SweepTask p) = 0"

text \<open>A step draws a number, sends the one it holds, or does neither.\<close>

definition quiet :: "task \<Rightarrow> task \<Rightarrow> server \<Rightarrow> server \<Rightarrow> bool" where
  "quiet t t' sv sv' \<longleftrightarrow> sv_sync sv' = sv_sync sv \<and> sv_global_version sv' = sv_global_version sv \<and>
     held t' = held t \<and> to_draw t' \<le> to_draw t"

definition draws :: "task \<Rightarrow> task \<Rightarrow> server \<Rightarrow> server \<Rightarrow> bool" where
  "draws t t' sv sv' \<longleftrightarrow> sv_sync sv' = sv_sync sv \<and> sv_global_version sv' = sv_global_version sv + 1 \<and>
     held t = [] \<and> held t' = [sv_global_version sv + 1] \<and> to_draw t = 1 \<and> to_draw t' = 0"

definition sends_held :: "task \<Rightarrow> task \<Rightarrow> server \<Rightarrow> server \<Rightarrow> bool" where
  "sends_held t t' sv sv' \<longleftrightarrow> map fst (sv_sync sv') = map fst (sv_sync sv) @ held t \<and>
     sv_global_version sv' = sv_global_version sv \<and> held t' = [] \<and> to_draw t' = to_draw t"

lemma helper_numbers [simp]:
  "sv_sync (remove_record_from_index x k v sv) = sv_sync sv"
  "sv_global_version (remove_record_from_index x k v sv) = sv_global_version sv"
  "sv_sync (tree_insert k r sv) = sv_sync sv" "sv_global_version (tree_insert k r sv) = sv_global_version sv"
  "sv_sync (tree_remove k sv) = sv_sync sv" "sv_global_version (tree_remove k sv) = sv_global_version sv"
  "sv_sync (send_watch k w op sv) = sv_sync sv" "sv_global_version (send_watch k w op sv) = sv_global_version sv"
  "sv_sync (if b then sv else log_command x out n c sv) = sv_sync sv"
  "sv_global_version (if b then sv else log_command x out n c sv) = sv_global_version sv"
  "sv_sync (send_sync n c sv) = sv_sync sv @ [(n, c)]" "sv_global_version (send_sync n c sv) = sv_global_version sv"
  by (simp_all add: step_defs)

lemma cache_numbers:
  "cache_put k v sv = Some sv' \<Longrightarrow> sv_sync sv' = sv_sync sv \<and> sv_global_version sv' = sv_global_version sv"
  "cache_invalidate k sv = Some sv' \<Longrightarrow> sv_sync sv' = sv_sync sv \<and> sv_global_version sv' = sv_global_version sv"
  by (auto simp: cache_put_def cache_invalidate_def bind_eq_Some_conv)

lemmas number_defs = quiet_def draws_def sends_held_def

lemma put_step_numbers:
  assumes "put_step x e k v ttl p sv = Some (p', sv')"
  defines "t \<equiv> PutTask e k v ttl p" and "t' \<equiv> PutTask e k v ttl p'"
  shows "quiet t t' sv sv' \<or> draws t t' sv sv' \<or> sends_held t t' sv sv'"
  using assms
proof (cases p)
  case PutStart
  then show ?thesis
    using assms by (cases "ttl_expiry (en_now e) ttl") (auto simp: quiet_def split: if_splits)
next
  case (PutUnindex ex old)
  then show ?thesis using assms by (cases old) (auto simp: quiet_def)
next
  case (PutCache ex)
  then show ?thesis
    using assms cache_numbers(1) [of k v sv sv'] by (auto simp: quiet_def bind_eq_Some_conv split: if_splits)
next
  case (PutNumber ex)
  then show ?thesis using assms by (auto simp: draws_def next_version_def Let_def)
qed (use assms in \<open>auto simp: quiet_def sends_held_def\<close>)

lemma delete_step_numbers:
  assumes "delete_step x e k p sv = Some (p', sv')"
  defines "t \<equiv> DeleteTask e k p" and "t' \<equiv> DeleteTask e k p'"
  shows "quiet t t' sv sv' \<or> draws t t' sv sv' \<or> sends_held t t' sv sv'"
  using assms
proof (cases p)
  case DeleteStart
  then show ?thesis
    using assms by (cases "fmlookup (sv_tree sv) k") (auto simp: quiet_def split: if_splits)
next
  case DeleteInvalidate
  then show ?thesis using assms cache_numbers(2) [of k sv sv'] by (auto simp: quiet_def)
next
  case DeleteNumber
  then show ?thesis using assms by (auto simp: draws_def next_version_def Let_def)
qed (use assms in \<open>auto simp: quiet_def sends_held_def\<close>)

lemma cas_step_numbers:
  assumes "cas_step x e k old new ttl p sv = Some (p', sv')"
  defines "t \<equiv> CasTask e k old new ttl p" and "t' \<equiv> CasTask e k old new ttl p'"
  shows "quiet t t' sv sv' \<or> draws t t' sv sv' \<or> sends_held t t' sv sv'"
  using assms
proof (cases p)
  case CasStart
  then show ?thesis using assms by (auto simp: quiet_def split: if_splits)
next
  case (CasCompare ex)
  then show ?thesis
    using assms by (cases "fmlookup (sv_tree sv) k") (auto simp: quiet_def split: if_splits)
next
  case (CasInvalidate ex)
  then show ?thesis using assms cache_numbers(2) [of k sv sv'] by (auto simp: quiet_def)
next
  case (CasNumber ex)
  then show ?thesis using assms by (auto simp: draws_def next_version_def Let_def)
qed (use assms in \<open>auto simp: quiet_def sends_held_def split: if_splits\<close>)

lemma commit_step_numbers:
  assumes "commit_step x e it tx p sv = Some (p', sv')"
  defines "t \<equiv> CommitTask e it tx p" and "t' \<equiv> CommitTask e it tx p'"
  shows "quiet t t' sv sv' \<or> draws t t' sv sv' \<or> sends_held t t' sv sv'"
  using assms
proof (cases p)
  case (CommitValidate ws)
  then show ?thesis
    using assms by (cases "(x, e, it, tx, p, sv)" rule: commit_step.cases) (auto simp: quiet_def split: option.splits if_splits)
next
  case (CommitApply n ws)
  then show ?thesis
    using assms by (cases ws) (auto simp: quiet_def)
next
  case (CommitUnindex n k v old ws)
  then show ?thesis using assms by (cases v; cases old) (auto simp: quiet_def)
next
  case (CommitInvalidate n k ws)
  then show ?thesis using assms cache_numbers(2) [of k sv sv'] by (auto simp: quiet_def)
next
  case CommitNumber
  then show ?thesis using assms by (auto simp: draws_def next_version_def Let_def)
qed (use assms in \<open>auto simp: quiet_def sends_held_def split: if_splits\<close>)

lemma task_step_numbers:
  assumes "task_step x t sv = Some (t', sv')"
  shows "quiet t t' sv sv' \<or> draws t t' sv sv' \<or> sends_held t t' sv sv'"
proof (cases t)
  case (PutTask e k v ttl p)
  then show ?thesis using assms put_step_numbers by fastforce
next
  case (DeleteTask e k p)
  then show ?thesis using assms delete_step_numbers by fastforce
next
  case (GetTask e k p)
  then obtain p' where p': "get_step x e k p sv = Some (p', sv')" "t' = GetTask e k p'" using assms by auto
  have "sv_sync sv' = sv_sync sv \<and> sv_global_version sv' = sv_global_version sv"
    using p'(1) by (cases p) (auto simp: bind_eq_Some_conv)
  then show ?thesis using GetTask p'(2) by (simp add: quiet_def)
next
  case (SweepTask p)
  then show ?thesis using assms by (cases "(x, p, sv)" rule: sweep_step.cases) (auto simp: quiet_def)
next
  case (CasTask e k old new ttl p)
  then show ?thesis using assms cas_step_numbers by fastforce
next
  case (CommitTask e it tx p)
  then show ?thesis using assms commit_step_numbers by fastforce
qed

definition numbers_ok :: "task list \<times> server \<Rightarrow> bool" where
  "numbers_ok c \<longleftrightarrow> (let (ts, sv) = c; ns = map fst (sv_sync sv) @ concat (map held ts) in
     distinct ns \<and> (\<forall>n \<in> set ns. n \<le> sv_global_version sv) \<and>
     unat (sv_global_version sv) + sum_list (map to_draw ts) < 2 ^ 64)"

lemma numbers_ok_step:
  assumes "interleave x c c'" "numbers_ok c"
  shows "numbers_ok c'"
  using assms
proof (induction rule: interleave.induct)
  case (turn t sv t' sv' ts us)
  let ?g = "sv_global_version sv"
  let ?a = "map fst (sv_sync sv)" and ?l = "concat (map held ts)" and ?r = "concat (map held us)"
  have ok: "distinct (?a @ ?l @ held t @ ?r)" "\<forall>n \<in> set (?a @ ?l @ held t @ ?r). n \<le> ?g"
    "unat ?g + (sum_list (map to_draw ts) + (to_draw t + sum_list (map to_draw us))) < 2 ^ 64"
    using turn.prems unfolding numbers_ok_def Let_def prod.case by auto
  from task_step_numbers [OF turn.hyps(1)] show ?case
  proof (elim disjE)
    assume "quiet t t' sv sv'"
    then show ?thesis using ok by (auto simp: numbers_ok_def quiet_def)
  next
    assume a: "draws t t' sv sv'"
    have "unat ?g + 1 < 2 ^ 64" using ok(3) a by (simp add: draws_def)
    then have u: "unat (?g + 1) = unat ?g + 1" by (subst unat_add_lem [THEN iffD1]) simp_all
    then have l: "?g < ?g + 1" by (simp add: word_less_nat_alt)
    have old: "n \<le> ?g" if "n \<in> set (?a @ ?l @ ?r)" for n using ok(2) that by auto
    have f: "?g + 1 \<notin> set (?a @ ?l @ ?r)" using old [of "?g + 1"] l by (simp only: not_less [symmetric]) blast
    have "\<forall>n \<in> set (?a @ ?l @ ?r). n \<le> ?g + 1" using old l by (meson less_imp_le order_trans)
    moreover have "distinct (?a @ ?l @ [?g + 1] @ ?r)" using ok(1) f a by (auto simp: draws_def)
    ultimately have "numbers_ok (ts @ t' # us, sv'\<lparr>sv_global_version := ?g + 1\<rparr>)"
      using ok(3) a u l unfolding numbers_ok_def Let_def prod.case by (auto simp: draws_def)
    then show ?thesis using a by (simp add: numbers_ok_def draws_def Let_def)
  next
    assume a: "sends_held t t' sv sv'"
    then have s: "map fst (sv_sync sv') = ?a @ held t" by (simp add: sends_held_def)
    show ?thesis
      unfolding numbers_ok_def Let_def prod.case s using ok a by (auto simp: sends_held_def)
  qed
next
  case (save ts now se sv sv')
  then have "sv_sync sv' = sv_sync sv" "sv_global_version sv' = sv_global_version sv"
    by (auto simp: save_snapshot_and_truncate_wal_def split: option.splits if_splits)
  then have "numbers_ok (ts, sv') = numbers_ok (ts, sv)" by (simp only: numbers_ok_def Let_def prod.case)
  then show ?case using save.prems by simp
qed

interpretation numbers: step_invariant "interleave x" numbers_ok for x
  by unfold_locales (rule numbers_ok_step)

text \<open>
  C20: No version number is given out twice. However puts, deletes, gets, compare-and-swaps,
  transactions, sweeps and saves interleave, from a server whose broadcast numbers are distinct and not above its version, and with room for
  one more number per task, the numbers of the broadcast messages and those still held by handlers
  are all different and none exceeds the version.
\<close>

theorem versions_unique:
  assumes "rtranclp (interleave x) (ts, sv) (ts', sv')"
    and "distinct (map fst (sv_sync sv))" "\<forall>n \<in> set (map fst (sv_sync sv)). n \<le> sv_global_version sv"
    and "list_all (\<lambda>t. held t = []) ts" "unat (sv_global_version sv) + length ts < 2 ^ 64"
  shows "distinct (map fst (sv_sync sv') @ concat (map held ts')) \<and>
    list_all (\<lambda>n. n \<le> sv_global_version sv') (map fst (sv_sync sv') @ concat (map held ts'))"
proof -
  have h: "concat (map held ts) = []" using assms(4) by (simp add: list_all_iff)
  have d: "to_draw t \<le> 1" for t
    by (cases t rule: to_draw.cases) (simp_all split: put_phase.split delete_phase.split cas_phase.split commit_phase.split)
  have "sum_list (map to_draw ts) \<le> length ts"
    using sum_list_mono [of ts to_draw "\<lambda>_. 1"] d by (simp add: sum_list_triv)
  then have "numbers_ok (ts, sv)" using assms(2,3,5) unfolding numbers_ok_def Let_def prod.case h by simp
  from numbers.ok_reachable [OF assms(1) this] show ?thesis by (simp add: numbers_ok_def Let_def list_all_iff)
qed

theorem versions_unique_witness:
  "\<exists>ts' sv'. rtranclp (interleave plain_ext)
      ([PutTask (at 1) ''a'' [1] None PutStart, PutTask (at 2) ''a'' [2] (Some 3) PutStart, DeleteTask (at 3) ''a'' DeleteStart], blank_server)
      (ts', sv') \<and> concat (map held ts') = [1] \<and> distinct (map fst (sv_sync sv') @ concat (map held ts'))"
proof -
  let ?ts = "\<lambda>p. [PutTask (at 1) ''a'' [1] None PutStart, PutTask (at 2) ''a'' [2] (Some 3) p, DeleteTask (at 3) ''a'' DeleteStart]"
  have b: "\<not> sv_is_replica blank_server" "sv_tree blank_server = fmempty" "sv_sync blank_server = []"
    "sv_global_version blank_server = 0" by (simp_all add: blank_server_def)
  have "ttl_expiry (en_now (at 2)) (Some 3) = Some (Some 5)" by (simp add: ttl_expiry_def)
  then obtain sv' where p: "play plain_ext [Turn 1, Turn 1, Turn 1, Turn 1, Turn 1] (?ts PutStart, blank_server) =
      Some (?ts (PutLog (Some 5) 1), sv')"
    using b by (auto simp: next_version_def Let_def)
  have "rtranclp (interleave plain_ext) (?ts PutStart, blank_server) (?ts (PutLog (Some 5) 1), sv')"
    using play_reaches [OF p] .
  moreover from versions_unique [OF this]
  have "distinct (map fst (sv_sync sv') @ concat (map held (?ts (PutLog (Some 5) 1))))"
    using b by simp
  ultimately show ?thesis by (intro exI [of _ "?ts (PutLog (Some 5) 1)"] exI [of _ sv'] conjI) simp_all
qed

end
