(* ===== verification/Cluster_Properties.thy ===== *)
theory Cluster_Properties
  imports Resync_Properties Concurrency_Properties
begin

text \<open>
  A leader and a replica as one system: the leader serves, the replica connects, is sent what it
  lacks, follows the broadcast, and connects again whenever the stream ends. While the leader keeps
  its log, the replica only ever holds past states of the leader, and it can always catch up.
\<close>

section \<open>The system\<close>

text \<open>
  The task of a \<open>sync\<close> call: it has sent the snapshot or the log and not yet subscribed to the
  broadcast, it forwards the broadcast, or it has ended. The number is \<open>start_streaming_tx_id\<close>.
\<close>

datatype feed = Opening u64 | Streaming u64 | Closed

type_synonym link = "(sync_payload list \<times> feed) option"

text \<open>What the leader broadcasts reaches a stream that has subscribed.\<close>

fun forwarded :: "('n, 'z) wal_ext_scheme \<Rightarrow> (u64 \<times> wal_command) list \<Rightarrow> link \<Rightarrow> link" where
  "forwarded x msgs (Some (queue, Streaming start)) = Some (queue @ sync_forward x start msgs, Streaming start)"
| "forwarded x msgs link = link"

text \<open>
  The steps: the leader performs an action; the replica connects and asks from its version on; the
  task subscribes, or ends because the receiver is gone or lags behind; the replica takes the next
  message; the connection is lost, or is over after the last message. Reading the log or the
  tree is one step.
\<close>

inductive cluster ::
  "('n, 'z) ext_scheme \<Rightarrow> (action \<Rightarrow> bool) \<Rightarrow> server \<times> link \<times> server \<Rightarrow> server \<times> link \<times> server \<Rightarrow> bool"
  for x allowed where
  lead: "allowed a \<Longrightarrow> perform x a leader = Some leader' \<Longrightarrow>
    cluster x allowed (leader, link, replica)
      (leader', forwarded x (drop (length (sv_sync leader)) (sv_sync leader')) link, replica)"
| connect: "sync_initial x now (sv_global_version replica) leader = (queue, start) \<Longrightarrow>
    cluster x allowed (leader, None, replica) (leader, Some (queue, Opening start), replica)"
| subscribe: "cluster x allowed (leader, Some (queue, Opening start), replica) (leader, Some (queue, Streaming start), replica)"
| close: "cluster x allowed (leader, Some (queue, feed), replica) (leader, Some (queue, Closed), replica)"
| deliver: "replica_step x e p replica = Some (go, replica') \<Longrightarrow>
    cluster x allowed (leader, Some (p # queue, feed), replica)
      (leader, if go then Some (queue, feed) else None, replica')"
| lose: "cluster x allowed (leader, Some link, replica) (leader, None, replica)"

section \<open>A leader that keeps its log\<close>

text \<open>Requests and transactions without expiry times, whose log writes succeed; no saves.\<close>

fun logged_action :: "action \<Rightarrow> bool" where
  "logged_action (Request e req) \<longleftrightarrow> no_ttl req \<and> en_wal e = Written"
| "logged_action (Commit e it tx) \<longleftrightarrow> eternal_writes tx \<and> en_wal e = Written"
| "logged_action (Sweep now) \<longleftrightarrow> True"
| "logged_action (Save now se) \<longleftrightarrow> False"

text \<open>
  A leader that had the version \<open>v\<close>, the store \<open>m0\<close> and a log of \<open>old\<close> entries, and has since
  logged and sent \<open>ms\<close>.
\<close>

definition keeps_log ::
  "('n, 'z) wal_ext_scheme \<Rightarrow> (u64 \<times> wal_command) list \<Rightarrow> u64 \<Rightarrow> store \<Rightarrow> (u64 \<times> wal_command) list \<Rightarrow> server \<Rightarrow> bool" where
  "keeps_log x old v m0 ms sv \<longleftrightarrow> serving UNIV sv \<and> eternal (abs_store sv) \<and>
     (\<forall>(t, c) \<in> set old. t \<le> v) \<and> numbered v ms \<and>
     sv_global_version sv = v + of_nat (length ms) \<and> abs_store sv = fold apply_logged (map snd ms) m0 \<and>
     (\<exists>w. sv_wal sv = Some w \<and> sv_wal_path sv = Some w \<and> sv_disk sv w = Content (log_text x (old @ ms)))"

lemma keeps_log_logs:
  assumes "keeps_log x old v m0 ms sv" "logs_or_keeps x e sv sv'" "en_wal e = Written" "serving UNIV sv'"
  shows "\<exists>ms'. sv_sync sv' = sv_sync sv @ ms' \<and> length ms' \<le> 1 \<and> keeps_log x old v m0 (ms @ ms') sv'"
proof -
  obtain w where k: "serving UNIV sv" "eternal (abs_store sv)" "\<forall>(t, c) \<in> set old. t \<le> v" "numbered v ms"
    "sv_global_version sv = v + of_nat (length ms)" "abs_store sv = fold apply_logged (map snd ms) m0"
    "sv_wal sv = Some w" "sv_wal_path sv = Some w" "sv_disk sv w = Content (log_text x (old @ ms))"
    using assms(1) unfolding keeps_log_def by blast
  have sc: "same_config sv sv'" using assms(2) by (simp add: logs_or_keeps_def)
  then have w: "sv_wal sv' = Some w" "sv_wal_path sv' = Some w" using k(7,8) by (simp_all add: same_config_def)
  consider "sv_disk sv' = sv_disk sv" "abs_store sv' = abs_store sv" "sv_sync sv' = sv_sync sv"
      "sv_global_version sv' = sv_global_version sv"
    | c where "sv_disk sv' = disk_append x Written (sv_global_version sv + 1) c (sv_wal sv) (sv_disk sv)" "never_expires c"
        "abs_store sv' = apply_logged c (abs_store sv)" "sv_sync sv' = sv_sync sv @ [(sv_global_version sv + 1, c)]"
        "sv_global_version sv' = sv_global_version sv + 1"
    using assms(2) unfolding logs_or_keeps_def assms(3) by blast
  then show ?thesis
  proof cases
    case 1
    then have "keeps_log x old v m0 ms sv'" using k assms(4) w by (simp add: keeps_log_def)
    then show ?thesis using 1 by (intro exI [of _ "[]"]) simp
  next
    case (2 c)
    let ?m = "(v + of_nat (length ms) + 1, c)"
    have "sv_disk sv' w = Content (log_text x (old @ ms @ [?m]))"
      using 2(1) k(5,7,9) log_text_snoc [of x "old @ ms" ?m] by (simp add: disk_append_def wal_append_written)
    moreover have "eternal (abs_store sv')" using 2(2,3) k(2) apply_logged_eternal by simp
    moreover have "numbered v (ms @ [?m])" using k(4) by (simp add: numbered_append)
    ultimately have "keeps_log x old v m0 (ms @ [?m]) sv'"
      using k(3,5,6) 2(3,5) assms(4) w by (auto simp: keeps_log_def algebra_simps)
    then show ?thesis using 2(4) k(5) by (intro exI [of _ "[?m]"]) simp
  qed
qed

lemma keeps_log_step:
  assumes "keeps_log x old v m0 ms sv" "logged_action a" "perform x a sv = Some sv'"
  shows "\<exists>ms'. sv_sync sv' = sv_sync sv @ ms' \<and> length ms' \<le> 1 \<and> keeps_log x old v m0 (ms @ ms') sv'"
proof -
  have sv: "serving UNIV sv" "eternal (abs_store sv)" using assms(1) unfolding keeps_log_def by blast+
  have "replicable a" using assms(2) by (cases a) auto
  then have serving: "serving UNIV sv'" using leader_step [OF sv, of a x] assms(3) by auto
  show ?thesis
  proof (cases a)
    case (Request e req)
    then obtain r where "serve x e req sv = Some (r, sv')" using assms(3) by (auto simp: perform_def)
    then have "logs_or_keeps x e sv sv'" using serve_logs_or_keeps [OF conjI [OF sv]] Request assms(2) by auto
    then show ?thesis using keeps_log_logs [OF assms(1)] Request assms(2) serving by auto
  next
    case (Commit e it tx)
    have "logs_or_keeps x e sv sv'"
      using commit_logs_or_keeps [of sv tx x e it] sv Commit assms(2,3) by (auto simp: perform_def serving_def)
    then show ?thesis using keeps_log_logs [OF assms(1)] Commit assms(2) serving by auto
  next
    case (Sweep now)
    then have "sv' = sv" using assms(3) eternal_unexpired [OF sv(2)] by (simp add: perform_def evict_expired_def)
    then show ?thesis using assms(1) by (intro exI [of _ "[]"]) simp
  qed (use assms(2) in simp)
qed

section \<open>Catching up from the log\<close>

lemma above_n:
  assumes "unat (v :: u64) + n + 1 < 2 ^ 64"
  shows "unat (v + of_nat n + 1) = unat v + n + 1" "unat (v + of_nat n) = unat v + n"
  using word_add_below [of v "Suc n"] word_add_below [of v n] assms by (simp_all add: algebra_simps)

lemma numbered_from:
  assumes "numbered v ms" "unat v + length ms + 1 < 2 ^ 64" "n \<le> length ms"
  shows "filter (\<lambda>(t, c). v + of_nat n + 1 \<le> t) ms = drop n ms"
proof -
  have s: "ms = take n ms @ drop n ms" by simp
  have i: "fst (ms ! j) = v + of_nat (Suc j)" if "j < length ms" for j
    using numbered_nth [OF assms(1) that] by (metis fst_conv)
  have u: "unat (v + of_nat j) = unat v + j" if "j \<le> length ms" for j
    using word_add_below [of v j] that assms(2) by simp
  have b: "unat (v + of_nat n + 1) = unat v + n + 1" using above_n(1) [of v n] assms(2,3) by simp
  have "filter (\<lambda>(t, c). v + of_nat n + 1 \<le> t) (take n ms) = []"
  proof -
    have "\<not> v + of_nat n + 1 \<le> fst (take n ms ! j)" if "j < n" for j
      using that i [of j] u [of "Suc j"] assms(3) by (simp add: word_le_nat_alt b)
    then show ?thesis using assms(3) by (fastforce simp: filter_empty_conv in_set_conv_nth)
  qed
  moreover have "filter (\<lambda>(t, c). v + of_nat n + 1 \<le> t) (drop n ms) = drop n ms"
  proof -
    have "v + of_nat n + 1 \<le> fst (drop n ms ! j)" if "j < length ms - n" for j
      using that i [of "n + j"] u [of "Suc (n + j)"] assms(3) by (simp add: word_le_nat_alt b)
    then show ?thesis by (fastforce simp: filter_id_conv in_set_conv_nth)
  qed
  ultimately show ?thesis by (metis (no_types, lifting) filter_append s self_append_conv2)
qed

definition record_of :: "('n, 'z) wal_ext_scheme \<Rightarrow> u64 \<times> wal_command \<Rightarrow> sync_payload" where
  "record_of x m = WalRecord (fst m) (env_to_string x (envelope_of x (fst m) (snd m)))"

lemma record_carries: "wal_codec_ok x \<Longrightarrow> carries x m (record_of x m)"
  by (simp add: carries_def record_of_def wal_codec_ok_line envelope_of_def)

text \<open>A replica that lacks the last entries of the log is sent exactly these.\<close>

lemma initial_tail:
  assumes "wal_codec_ok x" "keeps_log x old v m0 ms leader" "v \<noteq> 0" "unat v + length ms + 1 < 2 ^ 64" "n \<le> length ms"
  shows "\<exists>start. sync_initial x now (v + of_nat n) leader = (map (record_of x) (drop n ms), start)"
proof -
  let ?l = "v + of_nat n"
  obtain w where k: "\<forall>(t, c) \<in> set old. t \<le> v" "numbered v ms" "sv_global_version leader = v + of_nat (length ms)"
    "sv_wal_path leader = Some w" "sv_disk leader w = Content (log_text x (old @ ms))"
    using assms(2) unfolding keeps_log_def by blast
  have n: "unat v + n + 1 < 2 ^ 64" using assms(4,5) by simp
  have "filter (\<lambda>(t, c). ?l + 1 \<le> t) old = []"
    using k(1) by (fastforce simp: filter_empty_conv word_le_nat_alt above_n(1) [OF n])
  then have r: "read_from_tx_id x (sv_disk leader w) (?l + 1) = Inr (map (\<lambda>(t, c). (t, env_to_string x (envelope_of x t c))) (drop n ms))"
    using numbered_from [OF k(2) assms(4,5)] by (simp add: k(5) read_from_log_text [OF assms(1)])
  have nz: "?l \<noteq> 0"
  proof
    assume "?l = 0"
    then have "unat v + n = 0" using above_n(2) [OF n] by simp
    then show False using assms(3) by (simp add: unat_eq_zero)
  qed
  have "sync_plan x ?l leader = (False, map (\<lambda>(t, c). (t, env_to_string x (envelope_of x t c))) (drop n ms))"
  proof (cases "drop n ms")
    case Nil
    then have "n = length ms" using assms(5) by simp
    then show ?thesis using r nz Nil k(3,4) by (simp add: sync_plan_def)
  next
    case (Cons m rest)
    then have "n < length ms" "m = ms ! n" using assms(5)
      by (metis drop_eq_Nil2 leI list.distinct(1), metis Cons_nth_drop_Suc drop_eq_Nil2 leI list.distinct(1) list.inject)
    then have "fst m = ?l + 1" using numbered_nth [OF k(2), of n] by (metis (no_types, lifting) add.assoc add.commute fst_conv of_nat_Suc)
    then show ?thesis using r nz Cons k(4) by (simp add: sync_plan_def case_prod_beta)
  qed
  then show ?thesis by (auto simp: sync_initial_def record_of_def case_prod_beta)
qed

section \<open>The replica is in the leader's past\<close>

text \<open>
  In every configuration the messages under way carry commands the leader has logged, and the
  replica has applied a first part of these commands, to whatever store it had. Versions must not
  wrap around.
\<close>

definition link_ok :: "('n, 'z) wal_ext_scheme \<Rightarrow> (u64 \<times> wal_command) list \<Rightarrow> link \<Rightarrow> bool" where
  "link_ok x ms link \<longleftrightarrow> (\<forall>q feed. link = Some (q, feed) \<longrightarrow> (\<forall>p \<in> set q. \<exists>m \<in> set ms. carries x m p))"

lemma link_ok_simps [simp]:
  "link_ok x ms None"
  "link_ok x ms (Some (q, feed)) \<longleftrightarrow> (\<forall>p \<in> set q. \<exists>m \<in> set ms. carries x m p)"
  by (auto simp: link_ok_def)

definition has_applied ::
  "('n, 'z) wal_ext_scheme \<Rightarrow> u64 \<Rightarrow> store \<Rightarrow> (u64 \<times> wal_command) list \<Rightarrow> server \<Rightarrow> bool" where
  "has_applied x v m0 ms r \<longleftrightarrow> replica_ok x r \<and>
     (\<exists>n \<le> length ms. sv_global_version r = v + of_nat n \<and> abs_store r = fold apply_logged (map snd (take n ms)) m0)"

definition follows ::
  "('n, 'z) wal_ext_scheme \<Rightarrow> (u64 \<times> wal_command) list \<Rightarrow> u64 \<Rightarrow> store \<Rightarrow> store \<Rightarrow> (u64 \<times> wal_command) list
   \<Rightarrow> server \<times> link \<times> server \<Rightarrow> bool" where
  "follows x old v m0 m1 base c \<longleftrightarrow> (case c of (leader, link, replica) \<Rightarrow>
     \<exists>ms. sv_sync leader = base @ ms \<and> keeps_log x old v m0 ms leader \<and>
       (unat v + length ms + 1 < 2 ^ 64 \<longrightarrow> link_ok x ms link \<and> has_applied x v m1 ms replica))"

lemma link_ok_more: "link_ok x ms link \<Longrightarrow> link_ok x (ms @ ms') link"
  by (auto simp: link_ok_def)

lemma forwarded_ok:
  assumes "stream_codec_ok x" "link_ok x ms link"
  shows "link_ok x (ms @ ms') (forwarded x ms' link)"
proof (cases "(x, ms', link)" rule: forwarded.cases)
  case (1 y msgs queue start)
  have "\<exists>m \<in> set ms'. carries x m p" if "p \<in> set (sync_forward x start ms')" for p
  proof -
    from that obtain m where "m \<in> set ms'" "p = message x m" by (auto simp: sync_forward_def message_def)
    then show ?thesis using message_carries [OF assms(1), of m] by auto
  qed
  then show ?thesis using 1 assms(2) by auto
qed (use assms(2) link_ok_more in auto)

lemma has_applied_more:
  assumes "has_applied x v m0 ms r"
  shows "has_applied x v m0 (ms @ ms') r"
proof -
  obtain n where "n \<le> length ms" "sv_global_version r = v + of_nat n" "abs_store r = fold apply_logged (map snd (take n ms)) m0"
    using assms by (auto simp: has_applied_def)
  then show ?thesis using assms unfolding has_applied_def by (intro conjI exI [of _ n]) auto
qed

lemma has_applied_step:
  assumes "has_applied x v m0 ms r" "m \<in> set ms" "carries x m p" "numbered v ms" "v \<noteq> 0" "unat v + length ms < 2 ^ 64"
  shows "\<exists>go r'. replica_step x e p r = Some (go, r') \<and> has_applied x v m0 ms r'"
proof -
  obtain n where n: "replica_ok x r" "n \<le> length ms" "sv_global_version r = v + of_nat n"
    "abs_store r = fold apply_logged (map snd (take n ms)) m0"
    using assms(1) by (auto simp: has_applied_def)
  obtain go r' n' where "replica_step x e p r = Some (go, r')" "n' \<le> length ms" "replica_ok x r'"
    "sv_global_version r' = v + of_nat n'"
    "n' = n \<and> r' = r \<or> n' = Suc n \<and> n < length ms \<and> abs_store r' = apply_logged (snd (ms ! n)) (abs_store r)"
    using replica_step_any [OF assms(3) n(1) assms(4,5,6) n(2,3) assms(2), of e] by blast
  then show ?thesis using n(4) by (auto simp: has_applied_def take_Suc_conv_app_nth intro!: exI [of _ n'])
qed

lemma follows_step:
  assumes "wal_codec_ok x" "stream_codec_ok x" "v \<noteq> 0"
  shows "cluster x logged_action c c' \<Longrightarrow> follows x old v m0 m1 base c \<Longrightarrow> follows x old v m0 m1 base c'"
proof (induction rule: cluster.induct)
  case (lead a leader leader' link replica)
  then obtain ms where ms: "sv_sync leader = base @ ms" "keeps_log x old v m0 ms leader"
    "unat v + length ms + 1 < 2 ^ 64 \<longrightarrow> link_ok x ms link \<and> has_applied x v m1 ms replica"
    by (auto simp: follows_def)
  obtain ms' where s: "sv_sync leader' = sv_sync leader @ ms'" "keeps_log x old v m0 (ms @ ms') leader'"
    using keeps_log_step [OF ms(2) lead.hyps] by blast
  then show ?case
    using ms(1,3) forwarded_ok [OF assms(2), of ms link ms'] has_applied_more [of x v m1 ms replica ms']
    by (auto simp: follows_def intro!: exI [of _ "ms @ ms'"])
next
  case (connect now replica leader queue start)
  then obtain ms where ms: "sv_sync leader = base @ ms" "keeps_log x old v m0 ms leader"
    "unat v + length ms + 1 < 2 ^ 64 \<longrightarrow> has_applied x v m1 ms replica"
    by (auto simp: follows_def)
  have "\<forall>p \<in> set queue. \<exists>m \<in> set ms. carries x m p" if b: "unat v + length ms + 1 < 2 ^ 64"
  proof -
    obtain n where "n \<le> length ms" "sv_global_version replica = v + of_nat n"
      using ms(3) b by (auto simp: has_applied_def)
    then have "queue = map (record_of x) (drop n ms)"
      using initial_tail [OF assms(1) ms(2) assms(3) b, of n now] connect.hyps by auto
    then show ?thesis using record_carries [OF assms(1)] by (auto dest: in_set_dropD)
  qed
  then show ?case using ms by (auto simp: follows_def)
next
  case (deliver e p replica go replica' leader queue feed)
  then obtain ms where ms: "sv_sync leader = base @ ms" "keeps_log x old v m0 ms leader"
    "unat v + length ms + 1 < 2 ^ 64 \<longrightarrow> link_ok x ms (Some (p # queue, feed)) \<and> has_applied x v m1 ms replica"
    by (auto simp: follows_def)
  have n: "numbered v ms" using ms(2) by (simp add: keeps_log_def)
  have "has_applied x v m1 ms replica'" if b: "unat v + length ms + 1 < 2 ^ 64"
  proof -
    obtain m where "m \<in> set ms" "carries x m p" using ms(3) b by auto
    then show ?thesis using has_applied_step [OF _ _ _ n assms(3), of x m1 replica m p e] ms(3) b deliver.hyps by auto
  qed
  then show ?case using ms by (auto simp: follows_def)
qed (auto simp: follows_def)

interpretation replication: step_invariant "cluster x logged_action"
  "\<lambda>c. wal_codec_ok x \<and> stream_codec_ok x \<and> v \<noteq> 0 \<and> follows x old v m0 m1 base c" for x old v m0 m1 base
  by unfold_locales (blast intro: follows_step)

text \<open>The leader passes through the state after each of its commands.\<close>

lemma leader_passes:
  assumes "wal_codec_ok x" "stream_codec_ok x" "v \<noteq> 0" "follows x old v m0 m1 base c0" "sv_sync (fst c0) = base"
  shows "rtranclp (cluster x logged_action) c0 c \<Longrightarrow> sv_sync (fst c) = base @ ms \<Longrightarrow> n \<le> length ms \<Longrightarrow>
    \<exists>mid. rtranclp (cluster x logged_action) c0 mid \<and> rtranclp (cluster x logged_action) mid c \<and>
      abs_store (fst mid) = fold apply_logged (map snd (take n ms)) m0 \<and> sv_global_version (fst mid) = v + of_nat n"
proof (induction arbitrary: ms n rule: rtranclp_induct)
  case base
  have "base @ ms = base @ []" unfolding base.prems(1) [symmetric] assms(5) by simp
  then have n: "ms = []" "n = 0" using base.prems(2) by simp_all
  obtain ms0 where k: "sv_sync (fst c0) = base @ ms0" "keeps_log x old v m0 ms0 (fst c0)"
    using assms(4) by (auto simp: follows_def)
  have "ms0 = []" using k(1) unfolding assms(5) by simp
  then show ?case using k(2) unfolding n keeps_log_def by (intro exI [of _ c0]) simp
next
  case (step c1 c2)
  have f: "follows x old v m0 m1 base c" if "rtranclp (cluster x logged_action) c0 c" for c
    using replication.ok_reachable [OF that] assms(1-4) by blast
  obtain ms1 where m1: "sv_sync (fst c1) = base @ ms1" "keeps_log x old v m0 ms1 (fst c1)"
    using f [OF step.hyps(1)] by (auto simp: follows_def)
  have k: "keeps_log x old v m0 ms (fst c2)"
    using f [OF rtranclp.rtrancl_into_rtrancl [OF step.hyps]] step.prems(1) by (auto simp: follows_def)
  have "\<exists>ms'. ms = ms1 @ ms' \<and> length ms' \<le> 1"
    using step.hyps(2)
  proof (cases rule: cluster.cases)
    case (lead a leader leader' link replica)
    obtain ms' where "sv_sync leader' = sv_sync leader @ ms'" "length ms' \<le> 1"
      using keeps_log_step [OF m1(2), of a leader'] lead by auto
    then show ?thesis using m1(1) step.prems(1) lead(1,2) by auto
  qed (use m1(1) step.prems(1) in auto)
  then obtain ms' where ms: "ms = ms1 @ ms'" "length ms' \<le> 1" by blast
  show ?case
  proof (cases "n \<le> length ms1")
    case True
    obtain mid where "rtranclp (cluster x logged_action) c0 mid" "rtranclp (cluster x logged_action) mid c1"
      "abs_store (fst mid) = fold apply_logged (map snd (take n ms1)) m0" "sv_global_version (fst mid) = v + of_nat n"
      using step.IH [OF m1(1) True] by blast
    then show ?thesis using step.hyps(2) True ms(1) by (intro exI [of _ mid]) auto
  next
    case False
    then have "n = length ms" using step.prems(2) ms by simp
    then show ?thesis using k step.hyps by (intro exI [of _ c2]) (auto simp: keeps_log_def)
  qed
qed

text \<open>
  A leader and a replica with its version: the leader's log is open and goes no further than that.
  They are in step if they have the same store too.
\<close>

definition level :: "('n, 'z) wal_ext_scheme \<Rightarrow> (u64 \<times> wal_command) list \<Rightarrow> server \<Rightarrow> server \<Rightarrow> bool" where
  "level x old leader replica \<longleftrightarrow> serving UNIV leader \<and> eternal (abs_store leader) \<and>
     sv_global_version leader \<noteq> 0 \<and> (\<forall>(t, c) \<in> set old. t \<le> sv_global_version leader) \<and>
     (\<exists>w. sv_wal leader = Some w \<and> sv_wal_path leader = Some w \<and> sv_disk leader w = Content (log_text x old)) \<and>
     replica_ok x replica \<and> sv_global_version replica = sv_global_version leader"

definition in_step :: "('n, 'z) wal_ext_scheme \<Rightarrow> (u64 \<times> wal_command) list \<Rightarrow> server \<Rightarrow> server \<Rightarrow> bool" where
  "in_step x old leader replica \<longleftrightarrow> level x old leader replica \<and> abs_store replica = abs_store leader"

lemma level_follows:
  "level x old leader replica \<Longrightarrow>
   follows x old (sv_global_version leader) (abs_store leader) (abs_store replica) (sv_sync leader) (leader, None, replica)"
  by (auto simp: level_def follows_def keeps_log_def has_applied_def)

lemma in_step_follows:
  "in_step x old leader replica \<Longrightarrow>
   follows x old (sv_global_version leader) (abs_store leader) (abs_store leader) (sv_sync leader) (leader, None, replica)"
  using level_follows by (metis in_step_def)

text \<open>Whatever it had in the beginning, the replica applies what the leader has logged since.\<close>

lemma level_reaches:
  assumes "wal_codec_ok x" "stream_codec_ok x" "level x old leader replica"
    and "rtranclp (cluster x logged_action) (leader, None, replica) (leader', link, replica')"
    and "unat (sv_global_version leader) + (length (sv_sync leader') - length (sv_sync leader)) + 1 < 2 ^ 64"
  obtains ms n where "sv_sync leader' = sv_sync leader @ ms"
    "keeps_log x old (sv_global_version leader) (abs_store leader) ms leader'"
    "link_ok x ms link" "replica_ok x replica'" "n \<le> length ms" "sv_global_version replica' = sv_global_version leader + of_nat n"
    "abs_store replica' = fold apply_logged (map snd (take n ms)) (abs_store replica)"
    "unat (sv_global_version leader) + length ms + 1 < 2 ^ 64"
proof -
  have "sv_global_version leader \<noteq> 0" using assms(3) by (simp add: level_def)
  then have "follows x old (sv_global_version leader) (abs_store leader) (abs_store replica) (sv_sync leader) (leader', link, replica')"
    using replication.ok_reachable [OF assms(4)] assms(1,2) level_follows [OF assms(3)] by blast
  then show ?thesis using assms(5) that by (auto simp: follows_def has_applied_def)
qed

lemma in_step_reaches:
  assumes "wal_codec_ok x" "stream_codec_ok x" "in_step x old leader replica"
    and "rtranclp (cluster x logged_action) (leader, None, replica) (leader', link, replica')"
    and "unat (sv_global_version leader) + (length (sv_sync leader') - length (sv_sync leader)) + 1 < 2 ^ 64"
  obtains ms n where "sv_sync leader' = sv_sync leader @ ms"
    "keeps_log x old (sv_global_version leader) (abs_store leader) ms leader'"
    "link_ok x ms link" "replica_ok x replica'" "n \<le> length ms" "sv_global_version replica' = sv_global_version leader + of_nat n"
    "abs_store replica' = fold apply_logged (map snd (take n ms)) (abs_store leader)"
    "unat (sv_global_version leader) + length ms + 1 < 2 ^ 64"
  using level_reaches [OF assms(1,2) _ assms(4,5), of old] assms(3) that by (metis in_step_def)


section \<open>The replica can catch up\<close>

lemma run_delivers:
  "replica_run x (map (Pair e) queue) replica = Some (True, replica') \<Longrightarrow>
   rtranclp (cluster x allowed) (leader, Some (queue, feed), replica) (leader, Some ([], feed), replica')"
proof (induction queue arbitrary: replica)
  case (Cons p queue)
  then obtain r1 where r1: "replica_step x e p replica = Some (True, r1)" "replica_run x (map (Pair e) queue) r1 = Some (True, replica')"
    by (auto simp: bind_eq_Some_conv split: if_splits)
  have "cluster x allowed (leader, Some (p # queue, feed), replica) (leader, Some (queue, feed), r1)"
    using cluster.deliver [OF r1(1)] by simp
  with Cons.IH [OF r1(2)] show ?case by (meson converse_rtranclp_into_rtranclp)
qed simp


section \<open>Instances\<close>

lemma plain_stream_codec: "wal_codec_ok plain_stream"
proof -
  have p: "wal_codec_ok plain_ext" by (rule plain_ext_codec)
  have f: "env_from_str plain_ext = read_env" "env_to_string plain_stream = env_to_string plain_ext"
    by (simp_all add: plain_ext_def plain_wal_def plain_stream_def wal_ext.extend_def)
  have n: "newline \<notin> set (env_to_string plain_ext e)" "read_env (env_to_string plain_ext e) = Some e" for e
    using p by (simp_all add: wal_codec_ok_def f(1))
  have "env_from_str plain_stream (env_to_string plain_ext e) = Some e" for e
  proof -
    have "\<not> (env_to_string plain_ext e \<noteq> [] \<and> last (env_to_string plain_ext e) = newline)"
      using n(1) last_in_set by metis
    moreover have "env_from_str plain_stream s = read_env (if s \<noteq> [] \<and> last s = newline then butlast s else s)" for s
      by (simp add: plain_stream_def)
    ultimately show ?thesis using n(2) by (simp only: if_False)
  qed
  then show ?thesis using p by (simp add: wal_codec_ok_def f(2))
qed

definition small_leader :: server where
  "small_leader = blank_server\<lparr>sv_global_version := 1, sv_wal := Some ''log'', sv_wal_path := Some ''log'',
     sv_disk := (\<lambda>_. Absent)(''log'' := Content [])\<rparr>"

definition small_replica :: server where
  "small_replica = blank_server\<lparr>sv_global_version := 1, sv_is_replica := True\<rparr>"

lemma small_in_step: "in_step plain_stream [] small_leader small_replica"
  using blank_server_ok blank_serving(1) [of UNIV]
  by (simp add: in_step_def level_def small_leader_def small_replica_def serving_def eternal_def replica_ok_def cache_ok_def
      index_ok_def abs_store_def log_text_def fun_eq_iff)

lemma small_put:
  "\<exists>leader'. perform plain_stream (Request (at 1) (ReqPut ''a'' [1] None)) small_leader = Some leader' \<and>
     abs_store leader' ''a'' = Some ([1], None) \<and>
     rtranclp (cluster plain_stream logged_action) (small_leader, None, small_replica) (leader', None, small_replica) \<and>
     length (sv_sync leader') \<le> 1"
proof -
  let ?a = "Request (at 1) (ReqPut ''a'' [1] None)"
  have s: "serving UNIV small_leader" "eternal (abs_store small_leader)" using small_in_step by (simp_all add: in_step_def level_def)
  obtain leader' ms where l: "perform plain_stream ?a small_leader = Some leader'" "sends small_leader leader' ms" "length ms \<le> 1"
    using leader_step [OF s, of ?a plain_stream] by auto
  have "abs_store leader' ''a'' = Some ([1], None)"
    using serve_refines [OF s(1), where req = "ReqPut ''a'' [1] None" and e = "at 1" and x = plain_stream] l(1) by (auto simp: perform_def)
  moreover have "cluster plain_stream logged_action (small_leader, None, small_replica) (leader', None, small_replica)"
    using cluster.lead [of logged_action ?a plain_stream small_leader leader' None small_replica] l(1) by simp
  moreover have "length (sv_sync leader') \<le> 1" using l(2,3) by (simp add: sends_def small_leader_def blank_server_def)
  ultimately show ?thesis using l(1) by blast
qed



end
