(* ===== verification/Race_Properties.thy ===== *)
theory Race_Properties
  imports Concurrency_Properties
begin

text \<open>
  Interleavings in which an acknowledged write is lost or the copies of a value drift apart: a put
  that a save overtakes, two puts of one key, a put that meets the sweep or a compare-and-swap, and
  gets between two entries of a commit. Each is given by its schedule.
\<close>

section \<open>Parts of an execution\<close>

lemma play_append: "play x (a @ b) c = Option.bind (play x a c) (play x b)"
  by (induction x a c rule: play.induct) (auto split: Option.bind_splits)

text \<open>A put without a time to live up to the point where it has its number and nothing is stored.\<close>

lemma put_until_log:
  assumes "i < length ts" "ts ! i = PutTask e k v None PutStart" "\<not> sv_is_replica sv" "lru_inv (sv_cache sv)"
  shows "\<exists>s. play x (Turn i # Turn i # Turn i # Turn i # Turn i # sch) (ts, sv) =
      play x sch (ts[i := PutTask e k v None (PutLog None (sv_global_version sv + 1))], s) \<and>
    same_config sv s \<and> sv_tree s = sv_tree sv \<and> sv_disk s = sv_disk sv \<and> sv_sync s = sv_sync sv \<and>
    sv_global_version s = sv_global_version sv + 1 \<and> lru_inv (sv_cache s) \<and> lru_abs (sv_cache s) k = Some v"
proof -
  let ?u = "case map_option rec_value (fmlookup (sv_tree sv) k) of
      Some o' \<Rightarrow> remove_record_from_index x k o' sv | None \<Rightarrow> sv"
  let ?s = "index_record x k v ?u"
  have f: "same_config sv ?s" "sv_tree ?s = sv_tree sv" "sv_disk ?s = sv_disk sv" "sv_sync ?s = sv_sync sv"
    "sv_global_version ?s = sv_global_version sv" "sv_cache ?s = sv_cache sv"
    by (simp_all add: step_defs same_config_def split: option.split)
  obtain c where c: "cache_put k v ?s = Some (?s\<lparr>sv_cache := c\<rparr>)" "lru_inv c" "lru_abs c k = Some v"
    using cache_put_spec [of ?s k v] assms(4) f(6) by auto
  let ?s' = "?s\<lparr>sv_cache := c, sv_global_version := sv_global_version sv + 1\<rparr>"
  have "play x (Turn i # Turn i # Turn i # Turn i # Turn i # sch) (ts, sv) =
      play x sch (ts[i := PutTask e k v None (PutLog None (sv_global_version sv + 1))], ?s')"
    using assms(1-3) c(1) f(5) by (simp add: next_version_def Let_def)
  moreover have "same_config sv ?s'" using f(1) by (simp add: same_config_def)
  ultimately show ?thesis using f c(2,3) by (intro exI [of _ ?s']) simp
qed

section \<open>A put and a save\<close>

text \<open>The snapshot of a save that comes after the put's entry in the log and before its entry in the tree.\<close>

lemma save_after_log:
  assumes "snap_codec_ok x" "durable x sv" "sv_snapshot_path sv = Some p"
    and "sn_create_ok se" "sn_rename_ok se" "sn_truncate_ok se" "sn_drop_ok se"
    and "same_config sv s" "sv_tree s = sv_tree sv" "sv_disk s = disk_append x Written n c (sv_wal sv) (sv_disk sv)"
  shows "\<exists>d. save_snapshot_and_truncate_wal x now se s = Some (s\<lparr>sv_disk := d\<rparr>) \<and>
    (\<forall>now' reg. rv_store (recover x now' reg (sv_snapshot_path sv) (sv_wal_path sv) d) = abs_store sv)"
proof -
  obtain w t where w: "sv_wal sv = Some w" "sv_wal_path sv = Some w" "sv_disk sv w = Content t" "p \<noteq> w" "temp_path p \<noteq> w"
    "eternal (abs_store sv)" "serving UNIV sv"
    using assms(2,3) by (auto simp: durable_def)
  have cfg: "sv_wal s = Some w" "sv_snapshot_path s = Some p" "\<not> sv_wal_poisoned s"
    using assms(3,8) w(1,7) by (simp_all add: same_config_def serving_def)
  have sd: "sv_disk s w = Content (t @ entry_line x (n, c))"
    using assms(10) w(1,3) by (simp add: disk_append_def wal_append_written)
  let ?d = "(sv_disk s)(p := Content (snapshot_text x now s), temp_path p := Absent, w := Content [])"
  have "last (save_disks x now se p s) = ?d"
    using last_save_disk [OF cfg(1) sd w(4,5) assms(4,5,7), of x now] assms(6) by simp
  then have "save_snapshot_and_truncate_wal x now se s = Some (s\<lparr>sv_disk := ?d\<rparr>)"
    using cfg by (simp add: save_snapshot_and_truncate_wal_def)
  moreover have "?d p = Content (snapshot_text x now sv)" "?d w = Content []"
    using w(4) by (simp_all add: snapshot_text_def assms(9))
  then have "rv_store (recover x now' reg (sv_snapshot_path sv) (sv_wal_path sv) ?d) = abs_store sv" for now' reg
    using snapshot_holds_saved [where p = p and d = ?d, OF assms(1) w(6)] assms(3) w(2)
    by (simp add: recover_def replay_log_empty snapshot_holds_def)
  ultimately show ?thesis by blast
qed

text \<open>
  C29: A save may swallow a put. The put writes its command to the log and then, without a lock,
  enters it in the tree; a save in between writes a snapshot without it and truncates the log. The
  put is acknowledged and the server has the value, but after a restart the store is what it was
  before the put. This holds on every durable server, for every key and value.
\<close>

theorem put_save_race:
  assumes "snap_codec_ok x" "durable x sv" "sv_snapshot_path sv = Some p" "en_wal e = Written"
    and "sn_create_ok se" "sn_rename_ok se" "sn_truncate_ok se" "sn_drop_ok se"
  shows "\<exists>sch sv'. play x sch ([PutTask e k v None PutStart], sv) = Some ([PutTask e k v None (PutEnd (Inr True))], sv') \<and>
    sch = replicate 6 (Turn 0) @ [SaveTurn now se] @ replicate 3 (Turn 0) \<and>
    abs_store sv' = (abs_store sv)(k \<mapsto> (v, None)) \<and>
    (\<forall>now' reg. restart_store x now' reg sv' (sv_disk sv') = abs_store sv)"
proof -
  let ?n = "sv_global_version sv + 1" and ?t = "\<lambda>p. [PutTask e k v None p]"
  have sv: "\<not> sv_is_replica sv" "\<not> sv_wal_poisoned sv" "lru_inv (sv_cache sv)"
    using assms(2) by (simp_all add: durable_def serving_def cache_ok_def)
  let ?sch = "Turn 0 # SaveTurn now se # Turn 0 # Turn 0 # Turn 0 # []"
  obtain s where s: "play x (Turn 0 # Turn 0 # Turn 0 # Turn 0 # Turn 0 # ?sch) (?t PutStart, sv) =
      play x ?sch (?t (PutLog None ?n), s)"
    "same_config sv s" "sv_tree s = sv_tree sv" "sv_disk s = sv_disk sv"
    using put_until_log [of 0 "?t PutStart" e k v sv x ?sch] sv by auto
  let ?s1 = "log_command x (en_wal e) ?n (Put k v None) s"
  have np: "\<not> sv_wal_poisoned s" using s(2) sv(2) by (simp add: same_config_def)
  have s1: "same_config sv ?s1" "sv_tree ?s1 = sv_tree sv"
    "sv_disk ?s1 = disk_append x Written ?n (Put k v None) (sv_wal sv) (sv_disk sv)"
    using s(2-4) assms(4) by (simp_all add: same_config_def)
  obtain d where d: "save_snapshot_and_truncate_wal x now se ?s1 = Some (?s1\<lparr>sv_disk := d\<rparr>)"
    "\<And>now' reg. rv_store (recover x now' reg (sv_snapshot_path sv) (sv_wal_path sv) d) = abs_store sv"
    using save_after_log [OF assms(1-3,5-8) s1, of now] by blast
  let ?s2 = "tree_insert k \<lparr>rec_value = v, rec_expires = None, rec_version = ?n\<rparr> (send_sync ?n (Put k v None) (?s1\<lparr>sv_disk := d\<rparr>))"
  let ?s3 = "send_watch k (Some v) ''PUT'' ?s2"
  have "play x ?sch (?t (PutLog None ?n), s) = Some (?t (PutEnd (Inr True)), ?s3)"
    using np d(1) by simp
  moreover have "replicate 6 (Turn 0) @ [SaveTurn now se] @ replicate 3 (Turn 0) =
      Turn 0 # Turn 0 # Turn 0 # Turn 0 # Turn 0 # ?sch"
    by (simp add: eval_nat_numeral)
  moreover have t: "sv_tree ?s3 = fmupd k \<lparr>rec_value = v, rec_expires = None, rec_version = ?n\<rparr> (sv_tree sv)"
    by (simp add: step_defs s(3))
  moreover have "sv_snapshot_path ?s3 = sv_snapshot_path sv" "sv_wal_path ?s3 = sv_wal_path sv" "sv_disk ?s3 = d"
    using s1(1) by (simp_all add: step_defs same_config_def)
  ultimately show ?thesis
    using s(1) d(2) abs_store_upd(1) [OF t] by (intro exI [of _ "Turn 0 # Turn 0 # Turn 0 # Turn 0 # Turn 0 # ?sch"] exI [of _ ?s3])
      (simp add: restart_store_def)
qed

section \<open>Two puts of one key\<close>

text \<open>
  Two concurrent puts of one key may leave three different answers to what it holds. Both are
  acknowledged; the tree has the one with the lower version, the cache the other one, and the
  messages to the replicas end with the other one as well. A get answers from the cache until the
  entry is evicted, and from the tree afterwards.
\<close>

theorem put_put_race:
  assumes "cache_ok sv" "\<not> sv_is_replica sv"
  shows "\<exists>sch sv' s. play x sch ([PutTask e k a None PutStart, PutTask e' k b None PutStart], sv) =
      Some ([PutTask e k a None (PutEnd (Inr True)), PutTask e' k b None (PutEnd (Inr True))], sv') \<and>
    fmlookup (sv_tree sv') k = Some \<lparr>rec_value = a, rec_expires = None, rec_version = sv_global_version sv + 1\<rparr> \<and>
    get x e'' k sv' = Some (Inr \<lparr>kv_key = k, kv_value = b, kv_expires = None\<rparr>, s) \<and>
    sv_sync sv' = sv_sync sv @ [(sv_global_version sv + 1, Put k a None), (sv_global_version sv + 2, Put k b None)]"
proof -
  let ?n = "sv_global_version sv + 1" and ?m = "sv_global_version sv + 2"
  let ?ts = "\<lambda>p q. [PutTask e k a None p, PutTask e' k b None q]"
  let ?sch2 = "[Turn 0, Turn 0, Turn 1, Turn 1, Turn 1, Turn 1, Turn 0, Turn 0]"
  let ?sch1 = "Turn 1 # Turn 1 # Turn 1 # Turn 1 # Turn 1 # ?sch2"
  have inv: "lru_inv (sv_cache sv)" using assms(1) by (simp add: cache_ok_def)
  obtain s1 where s1: "play x (Turn 0 # Turn 0 # Turn 0 # Turn 0 # Turn 0 # ?sch1) (?ts PutStart PutStart, sv) =
      play x ?sch1 (?ts (PutLog None ?n) PutStart, s1)"
    "same_config sv s1" "sv_tree s1 = sv_tree sv" "sv_sync s1 = sv_sync sv" "sv_global_version s1 = ?n" "lru_inv (sv_cache s1)"
    using put_until_log [of 0 "?ts PutStart PutStart" e k a sv x ?sch1] inv assms(2) by auto
  have r1: "\<not> sv_is_replica s1" using s1(2) assms(2) by (simp add: same_config_def)
  have g: "?n + 1 = ?m" by (simp add: algebra_simps)
  obtain s2 where s2: "play x ?sch1 (?ts (PutLog None ?n) PutStart, s1) =
      play x ?sch2 (?ts (PutLog None ?n) (PutLog None ?m), s2)"
    "sv_tree s2 = sv_tree sv" "sv_sync s2 = sv_sync sv" "lru_inv (sv_cache s2)" "lru_abs (sv_cache s2) k = Some b"
    using put_until_log [of 1 "?ts (PutLog None ?n) PutStart" e' k b s1 x ?sch2] r1 s1(3-6) g by auto
  obtain sv' where p: "play x ?sch2 (?ts (PutLog None ?n) (PutLog None ?m), s2) =
      Some (?ts (PutEnd (Inr True)) (PutEnd (Inr True)), sv')"
    "sv_tree sv' = fmupd k \<lparr>rec_value = a, rec_expires = None, rec_version = ?n\<rparr>
       (fmupd k \<lparr>rec_value = b, rec_expires = None, rec_version = ?m\<rparr> (sv_tree sv))"
    "sv_sync sv' = sv_sync sv @ [(?n, Put k a None), (?m, Put k b None)]" "sv_cache sv' = sv_cache s2"
    using s2(2,3) by (auto simp: step_defs)
  obtain c where "lru_get k (sv_cache sv') = Some (Some b, c)"
    using cache_hit [of sv' k] s2(4,5) p(4) by auto
  then have "get x e'' k sv' = Some (Inr \<lparr>kv_key = k, kv_value = b, kv_expires = None\<rparr>, sv'\<lparr>sv_cache := c\<rparr>)"
    by (simp add: get_def Let_def)
  then show ?thesis using s1(1) s2(1) p(1-3) by (intro exI [of _ "Turn 0 # Turn 0 # Turn 0 # Turn 0 # Turn 0 # ?sch1"]) auto
qed

section \<open>A put and the sweep\<close>

lemma play_sweep:
  "i < length ts \<Longrightarrow> ts ! i = SweepTask (SweepUnindex es) \<Longrightarrow>
   play x (replicate (2 * length es) (Turn i)) (ts, sv) =
     Some (ts[i := SweepTask (SweepUnindex [])],
           fold (\<lambda>(key, val) s. tree_remove key (remove_record_from_index x key val s)) es sv)"
proof (induction es arbitrary: ts sv)
  case Nil
  then show ?case using list_update_id [of ts i] by simp
next
  case (Cons e es)
  obtain k v where e: "e = (k, v)" by (cases e)
  show ?case
    using Cons.IH [of "ts[i := SweepTask (SweepUnindex es)]" "tree_remove k (remove_record_from_index x k v sv)"] Cons.prems
    by (simp add: e)
qed

lemma sweep_tree:
  "sv_tree (fold (\<lambda>(key, val) s. tree_remove key (remove_record_from_index x key val s)) es sv) =
     fmdrop_set (fst ` set es) (sv_tree sv)"
  "sv_sync (fold (\<lambda>(key, val) s. tree_remove key (remove_record_from_index x key val s)) es sv) = sv_sync sv"
proof (induction es arbitrary: sv)
  case (Cons e es)
  {
    case 1
    show ?case using Cons(1) by (cases e) (auto simp: step_defs intro!: fmap_ext)
  next
    case 2
    show ?case using Cons(2) by (cases e) (simp add: step_defs)
  }
qed simp_all

text \<open>A task runs for a while, beside others that do not hold the lock, or without need of it.\<close>

definition unhindered :: "task \<Rightarrow> nat \<Rightarrow> task list \<Rightarrow> bool" where
  "unhindered t i ts \<longleftrightarrow> lock_free (take i ts @ drop (Suc i) ts) \<or> (\<exists>e k p. t = GetTask e k p)"

lemma run_task_play:
  "i < length ts \<Longrightarrow> ts ! i = t \<Longrightarrow> unhindered t i ts \<Longrightarrow> run_task x n t s = Some (t', s') \<Longrightarrow>
   \<exists>m. play x (replicate m (Turn i)) (ts, s) = Some (ts[i := t'], s')"
proof (induction n arbitrary: ts t s)
  case 0
  then show ?case by (intro exI [of _ 0]) (auto simp: list_update_id)
next
  case (Suc n)
  show ?case
  proof (cases "ended t")
    case True
    then show ?thesis using Suc.prems by (intro exI [of _ 0]) (auto simp: list_update_id)
  next
    case False
    then obtain t1 s1 where t1: "task_step x t s = Some (t1, s1)" "run_task x n t1 s1 = Some (t', s')"
      using Suc.prems(4) by (auto simp: bind_eq_Some_conv)
    have "unhindered t1 i (ts[i := t1])" using Suc.prems(1,3) t1(1) by (auto simp: unhindered_def)
    then obtain m where m: "play x (replicate m (Turn i)) (ts[i := t1], s1) = Some (ts[i := t'], s')"
      using Suc.IH [of "ts[i := t1]" t1 s1] Suc.prems(1) t1(2) by auto
    have "takes_lock t \<longrightarrow> lock_free (take i ts @ drop (Suc i) ts)" using Suc.prems(3) by (auto simp: unhindered_def)
    then show ?thesis using t1(1) m Suc.prems(1,2) by (intro exI [of _ "Suc m"]) (simp del: lock_free_simps)
  qed
qed

text \<open>
  The sweep may remove a record that has just been written. It first collects the expired records
  and then removes them by key; a put of one of these keys in between is acknowledged, logged and
  sent to the replicas, and then removed from the tree with the expired record.
\<close>

theorem put_sweep_race:
  assumes "cache_ok sv" "\<not> sv_is_replica sv" "ttl_expiry (en_now e) ttl = Some ex"
    and "fmlookup (sv_tree sv) k = Some r" "is_expired now (rec_expires r)"
  shows "\<exists>sch sv'. play x sch ([PutTask e k v ttl PutStart, SweepTask (SweepStart now)], sv) =
      Some ([PutTask e k v ttl (PutEnd (Inr True)), SweepTask (SweepUnindex [])], sv') \<and>
    abs_store sv' k = None \<and> sv_sync sv' = sv_sync sv @ [(sv_global_version sv + 1, Put k v ex)]"
proof -
  let ?es = "expired_entries now sv"
  let ?ts = "\<lambda>p. [PutTask e k v ttl p, SweepTask (SweepUnindex ?es)]"
  obtain sv1 where "put x e k v ttl sv = Some (Inr True, sv1)"
    "sv_sync sv1 = sv_sync sv @ [(sv_global_version sv + 1, Put k v ex)]"
    using put_spec [OF _ assms(2,3), of x k v] assms(1) by (auto simp: cache_ok_def)
  then have p: "run_task x 9 (PutTask e k v ttl PutStart) sv = Some (PutTask e k v ttl (PutEnd (Inr True)), sv1)"
    "sv_sync sv1 = sv_sync sv @ [(sv_global_version sv + 1, Put k v ex)]"
    using run_put [of x e k v ttl sv] by auto
  obtain m where m: "play x (replicate m (Turn 0)) (?ts PutStart, sv) = Some (?ts (PutEnd (Inr True)), sv1)"
    using run_task_play [of 0 "?ts PutStart", OF _ _ _ p(1)] by (auto simp: unhindered_def)
  let ?sv' = "fold (\<lambda>(key, val) s. tree_remove key (remove_record_from_index x key val s)) ?es sv1"
  have "play x (replicate (2 * length ?es) (Turn 1)) (?ts (PutEnd (Inr True)), sv1) =
      Some ([PutTask e k v ttl (PutEnd (Inr True)), SweepTask (SweepUnindex [])], ?sv')"
    using play_sweep [of 1 "?ts (PutEnd (Inr True))" ?es x sv1] by simp
  then have "play x (Turn 1 # replicate m (Turn 0) @ replicate (2 * length ?es) (Turn 1))
      ([PutTask e k v ttl PutStart, SweepTask (SweepStart now)], sv) =
      Some ([PutTask e k v ttl (PutEnd (Inr True)), SweepTask (SweepUnindex [])], ?sv')"
    using m by (simp add: play_append)
  moreover have "(k, rec_value r) \<in> set ?es"
    using assms(4,5) by (force simp: expired_entries_def in_sorted_entries)
  then have "k \<in> fst ` set ?es" by force
  then have "abs_store ?sv' k = None" by (simp add: abs_store_def sweep_tree)
  moreover have "sv_sync ?sv' = sv_sync sv @ [(sv_global_version sv + 1, Put k v ex)]" using p(2) by (simp add: sweep_tree)
  ultimately show ?thesis by blast
qed

section \<open>A put and a compare-and-swap\<close>

text \<open>
  A compare-and-swap is not atomic against a put, which stores without the lock. On any leader
  with a live record under a key, a put and a compare-and-swap that expects its value may both be
  acknowledged and leave the swapped-in value, the put's one overwritten unseen: an outcome that
  neither order of the two requests has.
\<close>

theorem cas_put_race:
  assumes "cache_ok sv" "\<not> sv_is_replica sv" "\<not> sv_wal_poisoned sv"
    and "fmlookup (sv_tree sv) k = Some r" "\<not> is_expired (en_now e') (rec_expires r)"
    and "b \<noteq> rec_value r" "b \<noteq> new_val"
  shows "\<exists>sch sv'. play x sch ([PutTask e k b None PutStart, CasTask e' k (rec_value r) new_val None CasStart], sv) =
      Some ([PutTask e k b None (PutEnd (Inr True)), CasTask e' k (rec_value r) new_val None (CasEnd (Inr True))], sv') \<and>
    abs_store sv' = (abs_store sv)(k \<mapsto> (new_val, None)) \<and>
    spec_all [(e, ReqPut k b None), (e', ReqCas k (rec_value r) new_val None)] (abs_store sv)
      \<noteq> Some ([Done True, Done True], abs_store sv') \<and>
    spec_all [(e', ReqCas k (rec_value r) new_val None), (e, ReqPut k b None)] (abs_store sv)
      \<noteq> Some ([Done True, Done True], abs_store sv')"
proof -
  let ?n = "sv_global_version sv + 1" and ?c = "Put k b None"
  let ?ts = "\<lambda>p q. [PutTask e k b None p, CasTask e' k (rec_value r) new_val None q]"
  let ?sch2 = "[Turn 1, Turn 1, Turn 1, Turn 1, Turn 1, Turn 1]"
  let ?sch1 = "Turn 0 # Turn 0 # Turn 1 # Turn 1 # Turn 1 # Turn 0 # Turn 0 # Turn 1 # Turn 1 # ?sch2"
  have inv: "lru_inv (sv_cache sv)" using assms(1) by (simp add: cache_ok_def)
  obtain s1 where s1: "play x (Turn 0 # Turn 0 # Turn 0 # Turn 0 # Turn 0 # ?sch1) (?ts PutStart CasStart, sv) =
      play x ?sch1 (?ts (PutLog None ?n) CasStart, s1)"
    "same_config sv s1" "sv_tree s1 = sv_tree sv" "lru_inv (sv_cache s1)"
    using put_until_log [of 0 "?ts PutStart CasStart" e k b sv x ?sch1] inv assms(2) by auto
  have cfg: "\<not> sv_is_replica s1" "\<not> sv_wal_poisoned s1" using s1(2) assms(2,3) by (simp_all add: same_config_def)
  let ?p = "send_watch k (Some b) ''PUT'' (tree_insert k \<lparr>rec_value = b, rec_expires = None, rec_version = ?n\<rparr>
      (send_sync ?n ?c (log_command x (en_wal e) ?n ?c s1)))"
  let ?s = "index_record x k new_val (remove_record_from_index x k (rec_value r) ?p)"
  have "play x ?sch1 (?ts (PutLog None ?n) CasStart, s1) = play x ?sch2 (?ts (PutEnd (Inr True)) (CasInvalidate None), ?s)"
    using cfg assms(4,5) s1(3) by (simp add: send_sync_def)
  moreover obtain c where c: "cache_invalidate k ?s = Some (?s\<lparr>sv_cache := c\<rparr>)"
    using cache_invalidate_spec [of ?s k] s1(4) by (auto simp: step_defs)
  have t: "sv_tree (?s\<lparr>sv_cache := c\<rparr>) = fmupd k \<lparr>rec_value = b, rec_expires = None, rec_version = ?n\<rparr> (sv_tree sv)"
    by (simp add: step_defs s1(3))
  obtain sv' m where p: "play x ?sch2 (?ts (PutEnd (Inr True)) (CasInvalidate None), ?s) =
      Some (?ts (PutEnd (Inr True)) (CasEnd (Inr True)), sv')"
    "sv_tree sv' = fmupd k \<lparr>rec_value = new_val, rec_expires = None, rec_version = m\<rparr> (sv_tree (?s\<lparr>sv_cache := c\<rparr>))"
    using c by (simp add: next_version_def Let_def send_watch_def tree_insert_def send_sync_def)
  have "abs_store sv' = (abs_store sv)(k \<mapsto> (new_val, None))"
    unfolding abs_store_def p(2) t by (auto simp: fun_eq_iff)
  moreover have "abs_store sv k = Some (rec_value r, rec_expires r)" using assms(4) by (simp add: abs_store_def)
  ultimately show ?thesis
    using s1(1) p(1) assms(5-7)
    by (intro exI [of _ "Turn 0 # Turn 0 # Turn 0 # Turn 0 # Turn 0 # ?sch1"] exI [of _ sv'])
      (auto simp: fun_eq_iff simp del: play.simps)
qed

section \<open>A transaction and readers\<close>

text \<open>A commit up to the point where the first entry of its write set is applied.\<close>

lemma run_commit_first:
  assumes "\<not> sv_is_replica sv" "\<not> sv_wal_poisoned sv"
    and "entries it (tx_write_set tx) = (k, Some r) # ws" "\<not> tx_conflicts (tx_snapshot_version tx) ((k, Some r) # ws) sv"
  defines "n \<equiv> sv_global_version sv + 1"
  shows "\<exists>m. run_task x m (CommitTask e it tx CommitStart) sv =
    Option.bind (tx_apply x n k (Some r) (send_sync n (TxCommit (tx_pending ((k, Some r) # ws)))
        (log_command x (en_wal e) n (TxCommit (tx_pending ((k, Some r) # ws))) (snd (next_version sv)))))
      (\<lambda>s. Some (CommitTask e it tx (CommitApply n ws), s))"
proof -
  let ?ws = "(k, Some r) # ws"
  let ?c = "TxCommit (tx_pending ?ws)"
  have h: "run_task x (Suc (Suc m)) (CommitTask e it tx CommitStart) sv =
      run_task x m (CommitTask e it tx (CommitValidate ?ws)) sv" for m
    using assms(1-3) by simp
  have l: "run_task x (Suc (Suc (Suc m))) (CommitTask e it tx CommitNumber) sv =
      run_task x m (CommitTask e it tx (CommitApply n ?ws))
        (send_sync n ?c (log_command x (en_wal e) n ?c (snd (next_version sv))))" for m
    using assms(3) by (simp add: next_version_def Let_def n_def)
  have z: "run_task x 0 (CommitTask e it tx (CommitApply n ws)) = (\<lambda>s. Some (CommitTask e it tx (CommitApply n ws), s))"
    by (simp add: fun_eq_iff)
  have "run_task x (Suc (Suc (Suc (length ?ws) + Suc (Suc (Suc (Suc (Suc (Suc (Suc (Suc (Suc 0)))))))))))
        (CommitTask e it tx CommitStart) sv =
      Option.bind (tx_apply x n k (Some r) (send_sync n ?c (log_command x (en_wal e) n ?c (snd (next_version sv)))))
        (\<lambda>s. Some (CommitTask e it tx (CommitApply n ws), s))"
    unfolding h run_commit_validate using assms(4) unfolding l run_commit_entry by (simp only: if_False option.case z)
  then show ?thesis by blast
qed

lemma play_get:
  assumes "i < length ts" "ts ! i = GetTask e k GetStart" "get x e k s = Some (r, s')"
  shows "\<exists>m. play x (replicate m (Turn i)) (ts, s) = Some (ts[i := GetTask e k (GetEnd r)], s')"
  using run_task_play [OF assms(1,2), where x = x and n = 4 and s = s] run_get [of x e k s] assms(3)
  by (auto simp: unhindered_def)

text \<open>
  C34: A transaction is applied entry by entry, without a lock that readers take. Between two entries
  of a commit one get may answer the new value of the first key and another, later one the old value
  of the second key.
\<close>

theorem tx_half_visible:
  assumes "cache_ok sv" "\<not> sv_is_replica sv" "\<not> sv_wal_poisoned sv"
    and "entries it (tx_write_set tx) = [(a, Some ra), (b, Some rb)]"
    and "\<not> tx_conflicts (tx_snapshot_version tx) (entries it (tx_write_set tx)) sv"
    and "live (en_now e1) ra" "fmlookup (sv_tree sv) b = Some old" "live (en_now e2) old"
  shows "\<exists>sch sv'. play x sch ([CommitTask e it tx CommitStart, GetTask e1 a GetStart, GetTask e2 b GetStart], sv) =
      Some ([CommitTask e it tx (CommitApply (sv_global_version sv + 1) [(b, Some rb)]),
        GetTask e1 a (GetEnd (Inr (answer (a, ra)))), GetTask e2 b (GetEnd (Inr (answer (b, old))))], sv')"
proof -
  let ?n = "sv_global_version sv + 1" and ?c = "TxCommit (tx_pending [(a, Some ra), (b, Some rb)])"
  let ?s0 = "send_sync ?n ?c (log_command x (en_wal e) ?n ?c (snd (next_version sv)))"
  let ?ts = "\<lambda>p q r. [CommitTask e it tx p, GetTask e1 a q, GetTask e2 b r]"
  have ab: "a \<noteq> b" using entries_distinct [of it "tx_write_set tx"] assms(4) by simp
  have s0: "sv_cache ?s0 = sv_cache sv" "sv_tree ?s0 = sv_tree sv"
    by (simp_all add: step_defs Let_def)
  obtain s where s: "tx_apply x ?n a (Some ra) ?s0 = Some s" "lru_inv (sv_cache s)"
    "lru_abs (sv_cache s) = (lru_abs (sv_cache sv))(a := None)"
    "fmlookup (sv_tree s) = written ?n [a \<mapsto> Some ra] (fmlookup (sv_tree sv))"
    using tx_apply_spec [of ?s0 x ?n a "Some ra"] assms(1) s0 by (auto simp: cache_ok_def)
  have ok: "cache_ok s"
    using assms(1) s(2-4) by (auto simp: cache_ok_def written_def)
  obtain m where "run_task x m (CommitTask e it tx CommitStart) sv =
      Some (CommitTask e it tx (CommitApply ?n [(b, Some rb)]), s)"
    using run_commit_first [OF assms(2,3,4), of x e] assms(4,5) s(1) by auto
  from run_task_play [of 0 "?ts CommitStart GetStart GetStart", OF _ _ _ this]
  obtain m1 where m1: "play x (replicate m1 (Turn 0)) (?ts CommitStart GetStart GetStart, sv) =
      Some (?ts (CommitApply ?n [(b, Some rb)]) GetStart GetStart, s)"
    by (auto simp: unhindered_def)
  have la: "fmlookup (sv_tree s) a = Some (ra\<lparr>rec_version := ?n\<rparr>)" "fmlookup (sv_tree s) b = Some old"
    using ab assms(7) by (simp_all add: s(4) written_def)
  obtain s2 where g1: "get x e1 a s = Some (Inr (answer (a, ra)), s2)" "cache_ok s2" "sv_tree s2 = sv_tree s"
    using get_spec [OF ok, of x e1 a] assms(6) la(1) by (auto simp: live_def answer_def)
  obtain s3 where g2: "get x e2 b s2 = Some (Inr (answer (b, old)), s3)"
    using get_spec [OF g1(2), of x e2 b] assms(8) la(2) g1(3) by auto
  obtain m2 where m2: "play x (replicate m2 (Turn 1)) (?ts (CommitApply ?n [(b, Some rb)]) GetStart GetStart, s) =
      Some (?ts (CommitApply ?n [(b, Some rb)]) (GetEnd (Inr (answer (a, ra)))) GetStart, s2)"
    using play_get [OF _ _ g1(1), of 1 "?ts (CommitApply ?n [(b, Some rb)]) GetStart GetStart"] by auto
  obtain m3 where m3: "play x (replicate m3 (Turn 2))
        (?ts (CommitApply ?n [(b, Some rb)]) (GetEnd (Inr (answer (a, ra)))) GetStart, s2) =
      Some (?ts (CommitApply ?n [(b, Some rb)]) (GetEnd (Inr (answer (a, ra)))) (GetEnd (Inr (answer (b, old)))), s3)"
    using play_get [OF _ _ g2, of 2 "?ts (CommitApply ?n [(b, Some rb)]) (GetEnd (Inr (answer (a, ra)))) GetStart"] by auto
  have "play x (replicate m1 (Turn 0) @ replicate m2 (Turn 1) @ replicate m3 (Turn 2)) (?ts CommitStart GetStart GetStart, sv) =
      Some (?ts (CommitApply ?n [(b, Some rb)]) (GetEnd (Inr (answer (a, ra)))) (GetEnd (Inr (answer (b, old)))), s3)"
    using m1 m2 m3 by (simp add: play_append)
  then show ?thesis by blast
qed

section \<open>Instances\<close>

theorem put_save_race_witness:
  "\<exists>sv sv'. server_new plain_ext None True (Some ''db'') None (Some ''log'') False files = Some sv \<and>
     play plain_ext (replicate 6 (Turn 0) @ [SaveTurn (Some 5) quick_save] @ replicate 3 (Turn 0))
       ([PutTask (at 1) ''a'' [1] None PutStart], sv) =
       Some ([PutTask (at 1) ''a'' [1] None (PutEnd (Inr True))], sv') \<and>
     abs_store sv' ''a'' = Some ([1], None) \<and>
     restart_store plain_ext None registry_new sv' (sv_disk sv') = Map.empty"
proof -
  obtain sv where sv: "server_new plain_ext None True (Some ''db'') None (Some ''log'') False files = Some sv"
    "durable plain_ext sv" "abs_store sv = Map.empty" "sv_snapshot_path sv = Some ''db''"
    using first_start [of "''db''" "''log''" plain_ext None] by (auto simp: temp_path_def)
  have q: "sn_create_ok quick_save" "sn_rename_ok quick_save" "sn_truncate_ok quick_save" "sn_drop_ok quick_save"
    by (simp_all add: quick_save_def)
  show ?thesis
    using put_save_race [OF plain_ext_snap sv(2,4) _ q, of "at 1" "''a''" "[1]" "Some 5"] sv(1,3) by fastforce
qed

theorem put_put_race_witness:
  "\<exists>sch sv' s. play plain_ext sch
       ([PutTask (at 1) ''a'' [1] None PutStart, PutTask (at 2) ''a'' [2] None PutStart], blank_server) =
       Some ([PutTask (at 1) ''a'' [1] None (PutEnd (Inr True)), PutTask (at 2) ''a'' [2] None (PutEnd (Inr True))], sv') \<and>
     fmlookup (sv_tree sv') ''a'' = Some \<lparr>rec_value = [1], rec_expires = None, rec_version = 1\<rparr> \<and>
     get plain_ext (at 3) ''a'' sv' = Some (Inr \<lparr>kv_key = ''a'', kv_value = [2], kv_expires = None\<rparr>, s)"
  using put_put_race [of blank_server plain_ext "at 1" "''a''" "[1]" "at 2" "[2]" "at 3"] blank_server_ok
  by (auto simp: blank_server_def)

theorem put_sweep_race_witness:
  "\<exists>sv sch sv'. abs_store sv ''a'' = Some ([1], Some 5) \<and>
     play plain_ext sch ([PutTask (at 9) ''a'' [2] None PutStart, SweepTask (SweepStart (Some 8))], sv) =
       Some ([PutTask (at 9) ''a'' [2] None (PutEnd (Inr True)), SweepTask (SweepUnindex [])], sv') \<and>
     abs_store sv' ''a'' = None"
proof -
  let ?sv = "blank_server\<lparr>sv_tree := fmupd ''a'' \<lparr>rec_value = [1], rec_expires = Some 5, rec_version = 1\<rparr> fmempty\<rparr>"
  have "cache_ok ?sv" "\<not> sv_is_replica ?sv" using blank_server_ok by (simp_all add: cache_ok_def blank_server_def)
  moreover have "is_expired (Some 8) (Some 5)" by (simp add: is_expired_def word_less_nat_alt)
  ultimately show ?thesis
    using put_sweep_race [of ?sv "at 9" None None "''a''" "\<lparr>rec_value = [1], rec_expires = Some 5, rec_version = 1\<rparr>"
        "Some 8" plain_ext "[2]"]
    by (intro exI [of _ ?sv]) (auto simp: abs_store_def)
qed

lemma plain_record_ok:
  "cache_ok (blank_server\<lparr>sv_tree := t\<rparr>)" "\<not> sv_is_replica (blank_server\<lparr>sv_tree := t\<rparr>)"
  "\<not> sv_wal_poisoned (blank_server\<lparr>sv_tree := t\<rparr>)"
  using blank_server_ok(1) blank_serving(2) by (auto simp: cache_ok_def blank_server_def)

theorem cas_put_race_witness:
  "\<exists>sv sch sv'. abs_store sv = [''a'' \<mapsto> ([1], None)] \<and>
     play plain_ext sch ([PutTask (at 1) ''a'' [2] None PutStart, CasTask (at 2) ''a'' [1] [3] None CasStart], sv) =
       Some ([PutTask (at 1) ''a'' [2] None (PutEnd (Inr True)), CasTask (at 2) ''a'' [1] [3] None (CasEnd (Inr True))], sv') \<and>
     abs_store sv' = [''a'' \<mapsto> ([3], None)]"
proof -
  let ?sv = "blank_server\<lparr>sv_tree := fmupd ''a'' \<lparr>rec_value = [1], rec_expires = None, rec_version = 0\<rparr> fmempty\<rparr>"
  have l: "fmlookup (sv_tree ?sv) ''a'' = Some \<lparr>rec_value = [1], rec_expires = None, rec_version = 0\<rparr>" by simp
  have a: "abs_store ?sv = [''a'' \<mapsto> ([1], None)]" by (auto simp: abs_store_def fun_eq_iff)
  show ?thesis
    using cas_put_race [OF plain_record_ok l, of "at 2" "[2]" "[3]" plain_ext "at 1"] a by (intro exI [of _ ?sv]) auto
qed

definition pair_tx :: tx_handle where
  "pair_tx = \<lparr>tx_write_set = fmupd ''a'' (Some \<lparr>rec_value = [7], rec_expires = None, rec_version = 0\<rparr>)
     (fmupd ''b'' (Some \<lparr>rec_value = [8], rec_expires = None, rec_version = 0\<rparr>) fmempty), tx_snapshot_version = 0\<rparr>"

lemma pair_tx_entries:
  "entries sorted_order (tx_write_set pair_tx) =
     [(''a'', Some \<lparr>rec_value = [7], rec_expires = None, rec_version = 0\<rparr>),
      (''b'', Some \<lparr>rec_value = [8], rec_expires = None, rec_version = 0\<rparr>)]"
  by (simp add: entries_sorted_order pair_tx_def sorted_entries_def sorted_list_of_fset_finsert)

theorem tx_half_visible_witness:
  "\<exists>sv sch sv'. abs_store sv = [''b'' \<mapsto> ([1], None)] \<and>
     play plain_ext sch ([CommitTask (at 1) sorted_order pair_tx CommitStart, GetTask (at 2) ''a'' GetStart,
         GetTask (at 3) ''b'' GetStart], sv) =
       Some ([CommitTask (at 1) sorted_order pair_tx (CommitApply 1 [(''b'', fmlookup (tx_write_set pair_tx) ''b'' \<bind> id)]),
         GetTask (at 2) ''a'' (GetEnd (Inr \<lparr>kv_key = ''a'', kv_value = [7], kv_expires = None\<rparr>)),
         GetTask (at 3) ''b'' (GetEnd (Inr \<lparr>kv_key = ''b'', kv_value = [1], kv_expires = None\<rparr>))], sv')"
proof -
  let ?old = "\<lparr>rec_value = [1], rec_expires = None, rec_version = 0\<rparr>"
  let ?sv = "blank_server\<lparr>sv_tree := fmupd ''b'' ?old fmempty\<rparr>"
  have l: "fmlookup (sv_tree ?sv) ''b'' = Some ?old" by simp
  have c: "\<not> tx_conflicts (tx_snapshot_version pair_tx) (entries sorted_order (tx_write_set pair_tx)) ?sv"
    unfolding pair_tx_entries by (simp add: tx_conflicts_def pair_tx_def)
  have g: "sv_global_version ?sv = 0" by (simp add: blank_server_def)
  have a: "abs_store ?sv = [''b'' \<mapsto> ([1], None)]" by (auto simp: abs_store_def fun_eq_iff)
  show ?thesis
    using tx_half_visible [OF plain_record_ok pair_tx_entries c _ l, of "at 2" "at 3" plain_ext "at 1"] a g
    by (intro exI [of _ ?sv]) (auto simp: live_def answer_def pair_tx_def)
qed

end
