(* ===== verification/Progress_Properties.thy ===== *)
theory Progress_Properties
  imports Concurrency_Properties
begin

text \<open>
  Termination and progress of interleaved handlers: each has a bounded number of steps, no step
  panics, the lock of the log has one holder at most, and no handler waits for ever.
\<close>

section \<open>Steps left\<close>

text \<open>A bound on the steps of a task; for a sweep that has not started there is none yet.\<close>

fun steps_left :: "task \<Rightarrow> nat" where
  "steps_left (PutTask e k v ttl p) =
     (case p of PutStart \<Rightarrow> 9 | PutUnindex _ _ \<Rightarrow> 8 | PutIndex _ \<Rightarrow> 7 | PutCache _ \<Rightarrow> 6 | PutNumber _ \<Rightarrow> 5
        | PutLog _ _ \<Rightarrow> 4 | PutSend _ _ \<Rightarrow> 3 | PutStore _ _ \<Rightarrow> 2 | PutNotify \<Rightarrow> 1 | PutEnd _ \<Rightarrow> 0)"
| "steps_left (DeleteTask e k p) =
     (case p of DeleteStart \<Rightarrow> 8 | DeleteUnindex _ \<Rightarrow> 7 | DeleteRemove \<Rightarrow> 6 | DeleteInvalidate \<Rightarrow> 5 | DeleteNumber \<Rightarrow> 4
        | DeleteLog _ \<Rightarrow> 3 | DeleteSend _ \<Rightarrow> 2 | DeleteNotify \<Rightarrow> 1 | DeleteEnd _ \<Rightarrow> 0)"
| "steps_left (GetTask e k p) =
     (case p of GetStart \<Rightarrow> 4 | GetLookup \<Rightarrow> 3 | GetUnindex _ \<Rightarrow> 2 | GetRemove \<Rightarrow> 1 | GetEnd _ \<Rightarrow> 0)"
| "steps_left (SweepTask p) =
     (case p of SweepStart _ \<Rightarrow> 0 | SweepUnindex es \<Rightarrow> 2 * length es | SweepRemove _ es \<Rightarrow> Suc (2 * length es))"
| "steps_left (CasTask e k old new ttl p) =
     (case p of CasStart \<Rightarrow> 11 | CasLock _ \<Rightarrow> 10 | CasCompare _ \<Rightarrow> 9 | CasUnindex _ _ \<Rightarrow> 8 | CasIndex _ \<Rightarrow> 7
        | CasInvalidate _ \<Rightarrow> 6 | CasNumber _ \<Rightarrow> 5 | CasLog _ _ \<Rightarrow> 4 | CasSend _ _ \<Rightarrow> 3 | CasStore _ _ \<Rightarrow> 2
        | CasNotify \<Rightarrow> 1 | CasEnd _ \<Rightarrow> 0)"
| "steps_left (CommitTask e it tx p) =
     (let n = length (entries it (tx_write_set tx)) in
      case p of CommitStart \<Rightarrow> 7 * n + 7 | CommitLock \<Rightarrow> 7 * n + 6 | CommitValidate ws \<Rightarrow> length ws + 6 * n + 5
        | CommitNumber \<Rightarrow> 6 * n + 4 | CommitLog _ \<Rightarrow> 6 * n + 3 | CommitSend _ \<Rightarrow> 6 * n + 2
        | CommitApply _ ws \<Rightarrow> 6 * length ws + 1 | CommitUnindex _ _ _ _ ws \<Rightarrow> 6 * length ws + 6
        | CommitStore _ _ _ ws \<Rightarrow> 6 * length ws + 5 | CommitIndex _ _ _ ws \<Rightarrow> 6 * length ws + 4
        | CommitRemove _ _ ws \<Rightarrow> 6 * length ws + 4 | CommitNotify _ _ _ _ ws \<Rightarrow> 6 * length ws + 3
        | CommitInvalidate _ _ ws \<Rightarrow> 6 * length ws + 2 | CommitEnd _ \<Rightarrow> 0)"

fun sweeps_left :: "task \<Rightarrow> nat" where
  "sweeps_left (SweepTask (SweepStart now)) = 1"
| "sweeps_left _ = 0"

lemma put_step_left:
  "put_step x e k v ttl p sv = Some (p', sv') \<Longrightarrow> steps_left (PutTask e k v ttl p') < steps_left (PutTask e k v ttl p)"
  by (cases p) (auto simp: Let_def bind_eq_Some_conv split: if_splits prod.splits)

lemma delete_step_left:
  "delete_step x e k p sv = Some (p', sv') \<Longrightarrow> steps_left (DeleteTask e k p') < steps_left (DeleteTask e k p)"
  by (cases p) (auto simp: Let_def split: if_splits option.splits prod.splits)

lemma get_step_left:
  "get_step x e k p sv = Some (p', sv') \<Longrightarrow> steps_left (GetTask e k p') < steps_left (GetTask e k p)"
  by (cases p) (auto simp: bind_eq_Some_conv split: if_splits option.splits)

lemma cas_step_left:
  "cas_step x e k old new ttl p sv = Some (p', sv') \<Longrightarrow>
   steps_left (CasTask e k old new ttl p') < steps_left (CasTask e k old new ttl p)"
  by (cases p) (auto simp: Let_def split: if_splits option.splits prod.splits)

lemma commit_step_left:
  assumes "commit_step x e it tx p sv = Some (p', sv')"
  shows "steps_left (CommitTask e it tx p') < steps_left (CommitTask e it tx p)"
  using assms
  by (cases "(x, e, it, tx, p, sv)" rule: commit_step.cases)
    (auto simp: Let_def split: if_splits option.splits prod.splits)

text \<open>Each step of a task leaves fewer steps, or starts a sweep.\<close>

lemma task_step_left:
  assumes "task_step x t sv = Some (t', sv')"
  shows "sweeps_left t' < sweeps_left t \<or> sweeps_left t' = sweeps_left t \<and> steps_left t' < steps_left t"
proof (cases t)
  case (SweepTask p)
  then show ?thesis using assms by (cases "(x, p, sv)" rule: sweep_step.cases) auto
next
  case (PutTask e k v ttl p)
  then obtain p' where "put_step x e k v ttl p sv = Some (p', sv')" "t' = PutTask e k v ttl p'" using assms by auto
  then show ?thesis using PutTask put_step_left by (metis sweeps_left.simps)
next
  case (DeleteTask e k p)
  then obtain p' where "delete_step x e k p sv = Some (p', sv')" "t' = DeleteTask e k p'" using assms by auto
  then show ?thesis using DeleteTask delete_step_left by (metis sweeps_left.simps)
next
  case (GetTask e k p)
  then obtain p' where "get_step x e k p sv = Some (p', sv')" "t' = GetTask e k p'" using assms by auto
  then show ?thesis using GetTask get_step_left by (metis sweeps_left.simps)
next
  case (CasTask e k old new ttl p)
  then obtain p' where "cas_step x e k old new ttl p sv = Some (p', sv')" "t' = CasTask e k old new ttl p'" using assms by auto
  then show ?thesis using CasTask cas_step_left by (metis sweeps_left.simps)
next
  case (CommitTask e it tx p)
  then obtain p' where "commit_step x e it tx p sv = Some (p', sv')" "t' = CommitTask e it tx p'" using assms by auto
  then show ?thesis using CommitTask commit_step_left by (metis sweeps_left.simps)
qed

definition lower :: "((task list \<times> server) \<times> (task list \<times> server)) set" where
  "lower = inv_image (less_than <*lex*> less_than)
     (\<lambda>c. (sum_list (map sweeps_left (fst c)), sum_list (map steps_left (fst c))))"

lemma wf_lower: "wf lower"
  unfolding lower_def by (intro wf_inv_image wf_lex_prod wf_less_than)

lemma turn_lower:
  "task_step x t sv = Some (t', sv') \<Longrightarrow> ((ts @ t' # us, sv'), (ts @ t # us, sv)) \<in> lower"
  using task_step_left [of x t sv t' sv'] by (auto simp: lower_def)

section \<open>Steps that can be taken\<close>

fun clock_ok :: "task \<Rightarrow> bool" where
  "clock_ok (PutTask e k v ttl p) \<longleftrightarrow> ttl_expiry (en_now e) ttl \<noteq> None"
| "clock_ok (CasTask e k old new ttl p) \<longleftrightarrow> ttl_expiry (en_now e) ttl \<noteq> None"
| "clock_ok _ \<longleftrightarrow> True"

text \<open>A call with a time to live panics if the clock is before the epoch, and its task goes no further.\<close>

fun stopped :: "task \<Rightarrow> bool" where
  "stopped (PutTask e k v ttl PutStart) \<longleftrightarrow> ttl_expiry (en_now e) ttl = None"
| "stopped (CasTask e k old new ttl CasStart) \<longleftrightarrow> ttl_expiry (en_now e) ttl = None"
| "stopped _ \<longleftrightarrow> False"

lemma clock_not_stopped: "clock_ok t \<Longrightarrow> \<not> stopped t"
  by (cases t rule: stopped.cases) simp_all

lemma task_step_clock: "task_step x t sv = Some (t', sv') \<Longrightarrow> clock_ok t' = clock_ok t"
  by (cases t) auto

lemma task_step_lock: "task_step x t sv = Some (t', sv') \<Longrightarrow> holds_lock t' \<Longrightarrow> holds_lock t \<or> takes_lock t"
proof (cases t)
  case (CasTask e k old new ttl p)
  assume "task_step x t sv = Some (t', sv')" "holds_lock t'"
  with CasTask show ?thesis by (cases p) (auto simp: Let_def split: if_splits)
next
  case (CommitTask e it tx p)
  assume "task_step x t sv = Some (t', sv')" "holds_lock t'"
  with CommitTask show ?thesis by (cases p) (auto simp: Let_def split: if_splits)
qed auto

lemma holder_runs: "holds_lock t \<Longrightarrow> \<not> takes_lock t \<and> \<not> ended t"
proof (cases t)
  case (CasTask e k old new ttl p)
  assume "holds_lock t"
  with CasTask show ?thesis by (cases p) auto
next
  case (CommitTask e it tx p)
  assume "holds_lock t"
  with CommitTask show ?thesis by (cases p) auto
qed auto

text \<open>A well-formed cache stays so, and with one no step panics.\<close>

lemma helper_cache [simp]:
  "sv_cache (remove_record_from_index x k v sv) = sv_cache sv" "sv_cache (tree_insert k r sv) = sv_cache sv"
  "sv_cache (tree_remove k sv) = sv_cache sv" "sv_cache (send_watch k w op sv) = sv_cache sv"
  "sv_cache (send_sync n c sv) = sv_cache sv" "sv_cache (snd (next_version sv)) = sv_cache sv"
  by (simp_all add: step_defs Let_def)

lemma log_cache [simp]: "sv_cache (if b then sv else log_command x out n c sv) = sv_cache sv"
  by simp

lemma cache_steps:
  assumes "lru_inv (sv_cache sv)"
  shows "\<exists>s. cache_put k v sv = Some s \<and> lru_inv (sv_cache s)" "\<exists>s. cache_invalidate k sv = Some s \<and> lru_inv (sv_cache s)"
    "\<exists>hit c. lru_get k (sv_cache sv) = Some (hit, c) \<and> lru_inv c"
  using cache_put_spec [OF assms, of k v] cache_invalidate_spec [OF assms, of k] cache_hit [OF assms, of k] by auto

definition runs :: "('a \<times> server) option \<Rightarrow> bool" where
  "runs r \<longleftrightarrow> (\<exists>t s. r = Some (t, s) \<and> lru_inv (sv_cache s))"

lemma runs_simps [simp]:
  "runs (Some (t, s)) \<longleftrightarrow> lru_inv (sv_cache s)"
  "runs (map_option (\<lambda>(p, s). (f p, s)) r) \<longleftrightarrow> runs r"
  by (auto simp: runs_def)

lemma put_runs:
  assumes "lru_inv (sv_cache sv)" "p = PutStart \<Longrightarrow> ttl_expiry (en_now e) ttl \<noteq> None" "\<And>r. p \<noteq> PutEnd r"
  shows "runs (put_step x e k v ttl p sv)"
proof (cases p)
  case (PutUnindex ex old)
  then show ?thesis using assms(1) by (cases old) simp_all
next
  case (PutCache ex)
  then show ?thesis using assms(1) cache_steps(1) [OF assms(1), of k v] by auto
next
  case (PutNumber ex)
  then show ?thesis using assms(1) by (simp add: next_version_def Let_def)
qed (use assms in auto)

lemma delete_runs:
  assumes "lru_inv (sv_cache sv)" "\<And>r. p \<noteq> DeleteEnd r"
  shows "runs (delete_step x e k p sv)"
proof (cases p)
  case DeleteStart
  then show ?thesis using assms(1) by (cases "fmlookup (sv_tree sv) k") simp_all
next
  case DeleteInvalidate
  then show ?thesis using cache_steps(2) [OF assms(1), of k] by auto
next
  case DeleteNumber
  then show ?thesis using assms(1) by (simp add: next_version_def Let_def)
qed (use assms in auto)

lemma get_runs:
  assumes "lru_inv (sv_cache sv)" "\<And>r. p \<noteq> GetEnd r"
  shows "runs (get_step x e k p sv)"
proof (cases p)
  case GetStart
  then show ?thesis using cache_steps(3) [OF assms(1), of k] by auto
qed (use assms in auto)

lemma cas_runs:
  assumes "lru_inv (sv_cache sv)" "p = CasStart \<Longrightarrow> ttl_expiry (en_now e) ttl \<noteq> None" "\<And>r. p \<noteq> CasEnd r"
  shows "runs (cas_step x e k old new ttl p sv)"
proof (cases p)
  case (CasInvalidate ex)
  then show ?thesis using cache_steps(2) [OF assms(1), of k] by auto
next
  case (CasNumber ex)
  then show ?thesis using assms(1) by (simp add: next_version_def Let_def)
qed (use assms in auto)

lemma commit_runs:
  assumes "lru_inv (sv_cache sv)" "\<And>r. p \<noteq> CommitEnd r"
  shows "runs (commit_step x e it tx p sv)"
proof (cases p)
  case (CommitValidate ws)
  then show ?thesis using assms(1) by (cases "(x, e, it, tx, p, sv)" rule: commit_step.cases) auto
next
  case (CommitApply n ws)
  then show ?thesis using assms(1) by (cases "(x, e, it, tx, p, sv)" rule: commit_step.cases) auto
next
  case (CommitUnindex n k v old ws)
  then show ?thesis using assms(1) by (cases old) simp_all
next
  case (CommitInvalidate n k ws)
  then show ?thesis using cache_steps(2) [OF assms(1), of k] by auto
next
  case CommitNumber
  then show ?thesis using assms(1) by (simp add: next_version_def Let_def)
qed (use assms in auto)

lemma task_runs:
  assumes "lru_inv (sv_cache sv)" "\<not> stopped t" "\<not> ended t"
  shows "runs (task_step x t sv)"
proof (cases t)
  case (PutTask e k v ttl p)
  then show ?thesis using assms put_runs [of sv p e ttl x k v] by (cases p) auto
next
  case (DeleteTask e k p)
  then show ?thesis using assms delete_runs [of sv p x e k] by (cases p) auto
next
  case (GetTask e k p)
  then show ?thesis using assms get_runs [of sv p x e k] by (cases p) auto
next
  case (SweepTask p)
  then show ?thesis using assms by (cases "(x, p, sv)" rule: sweep_step.cases) auto
next
  case (CasTask e k old new ttl p)
  then show ?thesis using assms cas_runs [of sv p e ttl x k old new] by (cases p) auto
next
  case (CommitTask e it tx p)
  then show ?thesis using assms commit_runs [of sv p x e it tx] by (cases p) auto
qed

section \<open>Progress\<close>

definition sound :: "task list \<times> server \<Rightarrow> bool" where
  "sound c \<longleftrightarrow> lru_inv (sv_cache (snd c)) \<and> list_all clock_ok (fst c) \<and> length (filter holds_lock (fst c)) \<le> 1"

lemma lock_free_filter: "lock_free ts \<longleftrightarrow> filter holds_lock ts = []"
  by (induction ts) simp_all

lemma save_disk_only:
  "save_snapshot_and_truncate_wal x now se sv = Some sv' \<Longrightarrow> \<exists>d. sv' = sv\<lparr>sv_disk := d\<rparr>"
  by (auto simp: save_snapshot_and_truncate_wal_def split: option.splits if_splits intro: exI [of _ "sv_disk sv"])

lemma step_not_ended: "task_step x t sv = Some r \<Longrightarrow> \<not> ended t"
  by (cases t rule: ended.cases) auto

text \<open>At most one task holds the lock.\<close>

lemma one_holder:
  "interleave x c c' \<Longrightarrow> length (filter holds_lock (fst c)) \<le> 1 \<Longrightarrow> length (filter holds_lock (fst c')) \<le> 1"
proof (induction rule: interleave.induct)
  case (turn t sv t' sv' ts us)
  then have "length (filter holds_lock ts) + (length (filter holds_lock us) + (if holds_lock t then 1 else 0)) \<le> 1"
    by auto
  then have "length (filter holds_lock ts) + (length (filter holds_lock us) + (if holds_lock t' then 1 else 0)) \<le> 1"
    using task_step_lock [OF turn.hyps(1)] turn.hyps(2) by (auto simp: lock_free_filter)
  then show ?case by auto
qed simp

lemma sound_step:
  assumes "interleave x c c'" "sound c"
  shows "sound c'"
proof -
  have "lru_inv (sv_cache (snd c')) \<and> list_all clock_ok (fst c')"
    using assms
  proof (induction rule: interleave.induct)
    case (turn t sv t' sv' ts us)
    then have ok: "lru_inv (sv_cache sv)" "clock_ok t" "list_all clock_ok (ts @ us)" by (auto simp: sound_def)
    have "lru_inv (sv_cache sv')"
      using task_runs [OF ok(1) clock_not_stopped [OF ok(2)] step_not_ended [OF turn.hyps(1)], of x] turn.hyps(1) by (simp add: runs_def)
    then show ?case using ok task_step_clock [OF turn.hyps(1)] by auto
  next
    case (save ts now se sv sv')
    then show ?case using save_disk_only [OF save.hyps(2)] by (auto simp: sound_def)
  qed
  then show ?thesis using one_holder [OF assms(1)] assms(2) by (simp add: sound_def)
qed

text \<open>When a task holds the lock, it can go on; otherwise any task that has not ended can.\<close>

lemma sound_progress:
  assumes "sound c" "\<not> list_all ended (fst c)"
  shows "\<exists>c'. interleave x c c' \<and> (c', c) \<in> lower"
proof -
  obtain ts sv where c: "c = (ts, sv)" by (cases c)
  have go: "\<exists>c'. interleave x c c' \<and> (c', c) \<in> lower"
    if "ts = as @ t # bs" "\<not> ended t" "takes_lock t \<longrightarrow> lock_free (as @ bs)" for as t bs
  proof -
    have "runs (task_step x t sv)" using assms(1) that(1,2) c by (intro task_runs clock_not_stopped) (auto simp: sound_def)
    then obtain t' sv' where "task_step x t sv = Some (t', sv')" by (auto simp: runs_def)
    then show ?thesis using interleave.turn turn_lower that(1,3) c by blast
  qed
  show ?thesis
  proof (cases "\<exists>t \<in> set ts. holds_lock t")
    case True
    then obtain t as bs where "ts = as @ t # bs" "holds_lock t" by (meson split_list)
    then show ?thesis using go holder_runs by blast
  next
    case False
    from assms(2) c obtain t where "t \<in> set ts" "\<not> ended t" by (auto simp: list_all_iff)
    then obtain as bs where s: "ts = as @ t # bs" "\<not> ended t" by (meson split_list)
    have "lock_free (as @ bs)" using False s(1) by (auto simp: lock_free_def list_all_iff)
    then show ?thesis using go s by blast
  qed
qed

interpretation handlers: step_progress "interleave x" sound "\<lambda>c. list_all ended (fst c)" lower for x
proof unfold_locales
  show "sound c'" if "interleave x c c'" "sound c" for c c' using that by (rule sound_step)
  show "\<exists>c'. interleave x c c' \<and> (c', c) \<in> lower" if "sound c" "\<not> list_all ended (fst c)" for c
    using that by (rule sound_progress)
qed (rule wf_lower)

lemma can_end:
  assumes "list_all clock_ok ts" "lock_free ts"
  shows "\<exists>us s. rtranclp (interleave plain_ext) (ts, blank_server) (us, s) \<and> list_all ended us"
proof -
  have "sound (ts, blank_server)"
    using assms blank_server_ok by (simp add: sound_def lock_free_filter cache_ok_def)
  from handlers.reaches_final [OF this] show ?thesis by auto
qed

text \<open>
  No handler waits for ever. However puts, deletes, gets, compare-and-swaps, transactions, sweeps
  and saves have interleaved so far, no step panics, at most one task holds the lock of the log, and
  the run can go on until every handler has ended; without new saves it cannot go on for ever, since
  the steps of handlers are well-founded. The cache must be well-formed at the start, no task may hold
  the lock yet, and the clock must not be before the epoch for a time to live.
\<close>

theorem handlers_finish:
  assumes "lru_inv (sv_cache sv)" "list_all clock_ok ts" "lock_free ts"
    and "rtranclp (interleave x) (ts, sv) (ts', sv')"
  shows "list_all (\<lambda>t. ended t \<or> task_step x t sv' \<noteq> None) ts' \<and> length (filter holds_lock ts') \<le> 1 \<and>
    (\<exists>us s. rtranclp (interleave x) (ts', sv') (us, s) \<and> list_all ended us) \<and>
    wfp (\<lambda>d c. \<exists>as t bs u. fst c = as @ t # bs \<and> fst d = as @ u # bs \<and> task_step x t (snd c) = Some (u, snd d))"
proof -
  have s: "sound (ts, sv)" using assms(1-3) by (simp add: sound_def lock_free_filter)
  have l: "(d, c) \<in> lower"
    if "fst c = as @ t # bs" "fst d = as @ u # bs" "task_step x t (snd c) = Some (u, snd d)"
    for c d :: "task list \<times> server" and as t bs u
    using turn_lower [OF that(3), of as bs] that(1,2) by (metis prod.collapse)
  have s': "sound (ts', sv')" by (rule handlers.ok_reachable [OF assms(4) s])
  have "\<exists>c. rtranclp (interleave x) (ts', sv') c \<and> list_all ended (fst c)"
    by (rule handlers.reachable_reaches_final [OF s assms(4)])
  moreover have "list_all (\<lambda>t. ended t \<or> task_step x t sv' \<noteq> None) ts'"
    using s' task_runs [of sv' _ x] clock_not_stopped by (force simp: sound_def list_all_iff runs_def)
  moreover have "wfp (\<lambda>d c. \<exists>as t bs u. fst c = as @ t # bs \<and> fst d = as @ u # bs \<and> task_step x t (snd c) = Some (u, snd d))"
    unfolding wfp_def by (rule wf_subset [OF wf_lower]) (use l in blast)
  ultimately show ?thesis using s' by (auto simp: sound_def)
qed

theorem handlers_finish_witness:
  "\<exists>us s. rtranclp (interleave plain_ext)
     ([PutTask (at 1) ''a'' [1] (Some 5) PutStart, CasTask (at 2) ''a'' [1] [2] None CasStart,
       CommitTask (at 3) sorted_order sample_tx CommitStart, SweepTask (SweepStart (Some 9))], blank_server) (us, s) \<and>
     list_all ended us"
proof -
  let ?ts = "[PutTask (at 1) ''a'' [1] (Some 5) PutStart, CasTask (at 2) ''a'' [1] [2] None CasStart,
       CommitTask (at 3) sorted_order sample_tx CommitStart, SweepTask (SweepStart (Some 9))]"
  have c: "lru_inv (sv_cache blank_server)" "list_all clock_ok ?ts" "lock_free ?ts"
    using blank_server_ok by (simp_all add: cache_ok_def ttl_expiry_def)
  show ?thesis using handlers_finish [OF c rtranclp.rtrancl_refl] by blast
qed

end
