(* ===== verification/Serial_Properties.thy ===== *)
theory Serial_Properties
  imports Progress_Properties
begin

text \<open>
  Compare-and-swap and commit hold the lock of the log from before they look at the tree until they
  have written it. So however any number of them is interleaved, with saves in between, the outcome
  is that of running them one after the other; and of several compare-and-swaps that compete for one
  key, exactly one succeeds.
\<close>

section \<open>Simulations\<close>

locale step_simulation =
  fixes step :: "'s \<Rightarrow> 's \<Rightarrow> bool"
    and astep :: "'a \<Rightarrow> 'a \<Rightarrow> bool"
    and sim :: "'s \<Rightarrow> 'a \<Rightarrow> bool"
  assumes simulate: "step c c' \<Longrightarrow> sim c a \<Longrightarrow> \<exists>a'. rtranclp astep a a' \<and> sim c' a'"
begin

lemma simulates: "rtranclp step c c' \<Longrightarrow> sim c a \<Longrightarrow> \<exists>a'. rtranclp astep a a' \<and> sim c' a'"
proof (induction rule: rtranclp_induct)
  case (step c1 c2)
  then obtain a1 where a1: "rtranclp astep a a1" "sim c1 a1" by blast
  from simulate [OF step.hyps(2) a1(2)] a1(1) show ?case by (meson rtranclp_trans)
qed auto

end

section \<open>One handler after the other\<close>

text \<open>The handlers that hold the lock throughout, before they start.\<close>

fun exclusive :: "task \<Rightarrow> bool" where
  "exclusive (CasTask e key expected new_val ttl_ms CasStart) \<longleftrightarrow> True"
| "exclusive (CommitTask e it tx CommitStart) \<longleftrightarrow> True"
| "exclusive _ \<longleftrightarrow> False"

text \<open>Such a handler in one piece.\<close>

fun whole :: "('n, 'z) wal_ext_scheme \<Rightarrow> task \<Rightarrow> server \<Rightarrow> (task \<times> server) option" where
  "whole x (CasTask e key expected new_val ttl_ms p) sv =
     map_option (\<lambda>(r, s). (CasTask e key expected new_val ttl_ms (CasEnd r), s)) (cas x e key expected new_val ttl_ms sv)"
| "whole x (CommitTask e it tx p) sv =
     map_option (\<lambda>(r, s). (CommitTask e it tx (CommitEnd r), s)) (commit x e it tx sv)"
| "whole x _ sv = None"

inductive serially ::
  "('n, 'z) ext_scheme \<Rightarrow> task list \<times> server \<Rightarrow> task list \<times> server \<Rightarrow> bool" for x where
  handler: "exclusive t \<Longrightarrow> whole x t sv = Some (t', sv') \<Longrightarrow> serially x (ts @ t # us, sv) (ts @ t' # us, sv')"
| saving: "save_snapshot_and_truncate_wal x now se sv = Some sv' \<Longrightarrow> serially x (ts, sv) (ts, sv')"

text \<open>A handler that has run alone to its end has run in one piece.\<close>

lemma run_task_add:
  "run_task x (m + n) t sv = Option.bind (run_task x m t sv) (\<lambda>(t', s). run_task x n t' s)"
proof (induction m arbitrary: t sv)
  case (Suc m)
  show ?case
  proof (cases "ended t")
    case False
    then show ?thesis using Suc by (cases "task_step x t sv") auto
  qed (simp add: ended_run_task)
qed simp

lemma run_task_result:
  assumes "run_task x n t sv = Some (t', sv')" "ended t'" "run_task x m t sv = r" "\<And>u s. r = Some (u, s) \<Longrightarrow> ended u"
  shows "r = Some (t', sv')"
proof (cases "n \<le> m")
  case True
  then obtain d where "m = n + d" using le_Suc_ex by blast
  then show ?thesis using assms(1-3) by (auto simp: run_task_add ended_run_task)
next
  case False
  then obtain d where d: "n = m + d" using le_Suc_ex nat_le_linear by blast
  then show ?thesis using assms by (cases r) (auto simp: run_task_add ended_run_task)
qed

lemma whole_ended: "whole x t sv = Some (t', sv') \<Longrightarrow> ended t'"
  by (cases t) auto

lemma run_to_whole: "exclusive t \<Longrightarrow> \<exists>m. run_task x m t sv = whole x t sv"
proof (cases t rule: exclusive.cases)
  case (1 e k old new ttl)
  show ?thesis unfolding 1 whole.simps by (rule exI [of _ 11]) (rule run_cas)
next
  case (2 e it tx)
  show ?thesis unfolding 2 whole.simps by (rule exI) (rule run_commit)
qed simp_all

lemma run_whole:
  assumes "exclusive t" "run_task x n t sv = Some (t', sv')" "ended t'"
  shows "whole x t sv = Some (t', sv')"
  using run_to_whole [OF assms(1), of x sv] run_task_result [OF assms(2,3)] whole_ended by blast

section \<open>Steps outside the lock\<close>

fun locking :: "task \<Rightarrow> bool" where
  "locking (CasTask e key expected new_val ttl_ms p) \<longleftrightarrow> True"
| "locking (CommitTask e it tx p) \<longleftrightarrow> True"
| "locking _ \<longleftrightarrow> False"

lemma exclusive_locking: "exclusive t \<Longrightarrow> locking t \<and> \<not> holds_lock t"
  by (cases t rule: exclusive.cases) auto

lemma step_locking: "task_step x t sv = Some (t', sv') \<Longrightarrow> locking t' = locking t"
  by (cases t) auto

text \<open>No step touches the configuration.\<close>

lemma cache_config:
  "cache_invalidate k sv = Some sv' \<Longrightarrow> \<exists>c. sv' = sv\<lparr>sv_cache := c\<rparr>"
  by (auto simp: cache_invalidate_def bind_eq_Some_conv)

lemma step_config:
  assumes "locking t" "task_step x t sv = Some (t', sv')"
  shows "same_config sv sv'"
proof (cases t)
  case (CasTask e k old new ttl p)
  then obtain p' where "cas_step x e k old new ttl p sv = Some (p', sv')" using assms(2) by auto
  then show ?thesis
    by (cases p) (auto dest!: cache_config simp: next_version_def Let_def same_config_def step_defs split: if_splits option.splits)
next
  case (CommitTask e it tx p)
  then obtain p' where "commit_step x e it tx p sv = Some (p', sv')" using assms(2) by auto
  then show ?thesis
    by (cases "(x, e, it, tx, p, sv)" rule: commit_step.cases)
      (auto dest!: cache_config simp: next_version_def Let_def same_config_def step_defs split: if_splits option.splits)
qed (use assms(1) in simp_all)

text \<open>Before and at the lock a step looks at the configuration only and changes nothing.\<close>

lemma unlocked_step:
  assumes "locking t" "\<not> holds_lock t" "task_step x t sv = Some (t', sv')"
  shows "sv' = sv"
    and "\<not> holds_lock t' \<Longrightarrow> same_config sv s \<Longrightarrow> task_step x t s = Some (t', s)"
proof -
  have "sv' = sv \<and> (\<not> holds_lock t' \<longrightarrow> same_config sv s \<longrightarrow> task_step x t s = Some (t', s))" for s
  proof (cases t)
    case (CasTask e k old new ttl p)
    then show ?thesis using assms by (cases p) (auto simp: same_config_def split: if_splits)
  next
    case (CommitTask e it tx p)
    then show ?thesis using assms by (cases p) (auto simp: same_config_def split: if_splits)
  qed (use assms in simp_all)
  then show "sv' = sv" "\<not> holds_lock t' \<Longrightarrow> same_config sv s \<Longrightarrow> task_step x t s = Some (t', s)" by blast+
qed

text \<open>The lock is released at the end.\<close>

lemma release_ends:
  assumes "holds_lock t" "task_step x t sv = Some (t', sv')" "\<not> holds_lock t'"
  shows "ended t'"
proof (cases t)
  case (CasTask e k old new ttl p)
  then show ?thesis using assms by (cases p) (auto simp: Let_def split: if_splits option.splits prod.splits)
next
  case (CommitTask e it tx p)
  then show ?thesis
    using assms by (cases "(x, e, it, tx, p, sv)" rule: commit_step.cases) (auto simp: Let_def split: if_splits option.splits prod.splits)
qed (use assms(1) in simp_all)

section \<open>Serialization\<close>

text \<open>
  A task of an interleaving and the same task of the serial run: both have ended alike; or the serial
  run has not started it, and it waits for the lock, or has it and is as far as it would have come alone.
\<close>

definition waits :: "('n, 'z) wal_ext_scheme \<Rightarrow> server \<Rightarrow> task \<Rightarrow> task \<Rightarrow> bool" where
  "waits x sv a t \<longleftrightarrow> (\<exists>n. \<forall>s. same_config sv s \<longrightarrow> run_task x n a s = Some (t, s))"

definition in_turn :: "('n, 'z) wal_ext_scheme \<Rightarrow> server \<Rightarrow> server \<Rightarrow> task \<Rightarrow> task \<Rightarrow> bool" where
  "in_turn x sv av a t \<longleftrightarrow> a = t \<and> ended t \<or>
     exclusive a \<and> locking t \<and> (if holds_lock t then \<exists>n. run_task x n a av = Some (t, sv) else waits x sv a t)"

definition serialized :: "('n, 'z) wal_ext_scheme \<Rightarrow> task list \<times> server \<Rightarrow> task list \<times> server \<Rightarrow> bool" where
  "serialized x c d \<longleftrightarrow> same_config (snd d) (snd c) \<and> list_all2 (in_turn x (snd c) (snd d)) (fst d) (fst c) \<and>
     length (filter holds_lock (fst c)) \<le> 1 \<and> (lock_free (fst c) \<longrightarrow> snd c = snd d)"

lemma same_config_sym: "same_config sv sv' \<Longrightarrow> same_config sv' sv"
  by (simp add: same_config_def)

lemma in_turn_others:
  assumes "list_all2 (in_turn x sv av) as ts" "lock_free ts" "same_config sv sv'"
  shows "list_all2 (in_turn x sv' av') as ts"
  using assms(1,2)
proof (induction rule: list_all2_induct)
  case (Cons a as t ts)
  have "waits x sv a t \<Longrightarrow> waits x sv' a t"
    using same_config_trans [OF assms(3)] by (auto simp: waits_def)
  then show ?case using Cons by (auto simp: in_turn_def)
qed simp

lemma run_task_step:
  "run_task x n a av = Some (t, sv) \<Longrightarrow> task_step x t sv = Some (t', sv') \<Longrightarrow> run_task x (n + 1) a av = Some (t', sv')"
  unfolding run_task_add using step_not_ended [of x t sv] by simp

lemma waits_here: "waits x sv a t \<Longrightarrow> \<exists>n. run_task x n a sv = Some (t, sv)"
  unfolding waits_def using same_config_refl by blast

lemma waits_step:
  assumes "waits x sv a t" "locking t" "\<not> holds_lock t" "task_step x t sv = Some (t', sv')" "\<not> holds_lock t'"
  shows "waits x sv a t'"
proof -
  obtain n where n: "run_task x n a s = Some (t, s)" if "same_config sv s" for s using assms(1) by (auto simp: waits_def)
  have "run_task x (n + 1) a s = Some (t', s)" if "same_config sv s" for s
    by (rule run_task_step [OF n [OF that] unlocked_step(2) [OF assms(2-5) that]])
  then show ?thesis unfolding waits_def by blast
qed

text \<open>A turn of a handler that does not hold the lock leaves the server as it is.\<close>

lemma turn_waiting:
  assumes "in_turn x sv av a t" "task_step x t sv = Some (t', sv')" "\<not> holds_lock t"
    and "takes_lock t \<longrightarrow> lock_free (ts @ us)" "lock_free (ts @ t # us) \<longrightarrow> sv = av"
  shows "sv' = sv" "in_turn x sv av a t'"
proof -
  have a: "exclusive a" "locking t" "waits x sv a t"
    using assms(1,3) step_not_ended [OF assms(2)] by (auto simp: in_turn_def)
  have t': "locking t'" using a(2) step_locking [OF assms(2)] by simp
  show sv': "sv' = sv" by (rule unlocked_step(1) [OF a(2) assms(3,2)])
  show "in_turn x sv av a t'"
  proof (cases "holds_lock t'")
    case True
    have "lock_free (ts @ t # us)" using task_step_lock [OF assms(2) True] assms(3,4) by simp
    with assms(5) have "sv = av" by simp
    then obtain n where "run_task x n a av = Some (t, sv)" using a(3) waits_here by fastforce
    from run_task_step [OF this assms(2)] have "\<exists>m. run_task x m a av = Some (t', sv)" unfolding sv' by (rule exI)
    then show ?thesis using True a(1) t' by (simp add: in_turn_def)
  next
    case False
    then show ?thesis using waits_step [OF a(3,2) assms(3,2) False] a(1) t' by (simp add: in_turn_def)
  qed
qed

text \<open>A turn of the handler that holds it takes that handler's own run further, or to its end.\<close>

lemma turn_holding:
  assumes "in_turn x sv av a t" "task_step x t sv = Some (t', sv')" "holds_lock t"
  shows "exclusive a" "holds_lock t' \<Longrightarrow> in_turn x sv' av a t'"
    and "\<not> holds_lock t' \<Longrightarrow> ended t' \<and> whole x a av = Some (t', sv')"
proof -
  have a: "exclusive a" "locking t" "\<exists>n. run_task x n a av = Some (t, sv)"
    using assms(1,3) step_not_ended [OF assms(2)] by (auto simp: in_turn_def)
  obtain n where n: "run_task x (n + 1) a av = Some (t', sv')" using a(3) run_task_step [OF _ assms(2)] by auto
  show "exclusive a" by (rule a(1))
  show "in_turn x sv' av a t'" if "holds_lock t'"
    using n a(1,2) step_locking [OF assms(2)] that unfolding in_turn_def by metis
  show "ended t' \<and> whole x a av = Some (t', sv')" if "\<not> holds_lock t'"
    using release_ends [OF assms(3,2) that] run_whole [OF a(1) n] by simp
qed

lemma turn_serialized:
  assumes "task_step x t sv = Some (t', sv')" "takes_lock t \<longrightarrow> lock_free (ts @ us)"
    and "serialized x (ts @ t # us, sv) d"
  shows "\<exists>d'. rtranclp (serially x) d d' \<and> serialized x (ts @ t' # us, sv') d'"
proof -
  obtain as a bs av where d: "d = (as @ a # bs, av)" "list_all2 (in_turn x sv av) as ts"
    "in_turn x sv av a t" "list_all2 (in_turn x sv av) bs us"
    using assms(3) by (cases d) (auto simp: serialized_def list_all2_append2 list_all2_Cons2)
  have cfg: "same_config av sv" and one: "length (filter holds_lock (ts @ t' # us)) \<le> 1"
    and free: "lock_free (ts @ t # us) \<longrightarrow> sv = av"
    using assms(3) one_holder [OF interleave.turn [OF assms(1,2)]] by (auto simp: serialized_def d(1))
  show ?thesis
  proof (cases "holds_lock t")
    case False
    note w = turn_waiting [OF d(3) assms(1) False assms(2) free]
    have "serialized x (ts @ t' # us, sv') d"
      using d w(2) cfg one free False by (auto simp: serialized_def w(1) intro!: list_all2_appendI)
    then show ?thesis by blast
  next
    case True
    note h = turn_holding [OF d(3) assms(1) True]
    have cfg': "same_config sv sv'"
      using d(3) step_not_ended [OF assms(1)] by (intro step_config [OF _ assms(1)]) (auto simp: in_turn_def)
    have "length (filter holds_lock ts) + length (filter holds_lock us) = 0"
      using assms(3) True by (auto simp: serialized_def)
    then have others: "list_all2 (in_turn x sv' av') as ts" "list_all2 (in_turn x sv' av') bs us" for av'
      using in_turn_others [OF d(2) _ cfg'] in_turn_others [OF d(4) _ cfg'] by (simp_all add: lock_free_filter)
    show ?thesis
    proof (cases "holds_lock t'")
      case True
      have "serialized x (ts @ t' # us, sv') d"
        using others h(2) [OF True] one True same_config_trans [OF cfg cfg']
        by (auto simp: serialized_def d(1) intro!: list_all2_appendI)
      then show ?thesis by blast
    next
      case False
      have "serialized x (ts @ t' # us, sv') (as @ t' # bs, sv')"
        using others h(3) [OF False] one by (auto simp: serialized_def in_turn_def [of x sv' sv' t'] intro!: list_all2_appendI)
      then show ?thesis using serially.handler [OF h(1)] h(3) [OF False] unfolding d(1) by blast
    qed
  qed
qed

lemma step_serialized:
  "interleave x c c' \<Longrightarrow> serialized x c d \<Longrightarrow> \<exists>d'. rtranclp (serially x) d d' \<and> serialized x c' d'"
proof (induction rule: interleave.induct)
  case (turn t sv t' sv' ts us)
  then show ?case by (rule turn_serialized)
next
  case (save ts now se sv sv')
  obtain as where d: "d = (as, sv)" "list_all2 (in_turn x sv sv) as ts"
    using save by (cases d) (auto simp: serialized_def)
  have "same_config sv sv'" using save_disk_only [OF save.hyps(2)] by (auto simp: same_config_def)
  then have "serialized x (ts, sv') (as, sv')"
    using in_turn_others [OF d(2) save.hyps(1)] save.hyps(1) by (simp add: serialized_def lock_free_filter)
  then show ?case using serially.saving [OF save.hyps(2)] d(1) by blast
qed

interpretation serial: step_simulation "interleave x" "serially x" "serialized x" for x
  by unfold_locales (rule step_serialized)

text \<open>At the start nothing has happened in either run; at the end the waiting tasks catch up.\<close>

lemma serialized_start:
  assumes "list_all exclusive ts"
  shows "serialized x (ts, sv) (ts, sv)"
proof -
  have "waits x sv t t" for t unfolding waits_def by (rule exI [of _ 0]) simp
  then have "exclusive t \<Longrightarrow> in_turn x sv sv t t" for t using exclusive_locking [of t] by (simp add: in_turn_def)
  moreover have "filter holds_lock ts = []"
    using assms exclusive_locking by (auto simp: filter_empty_conv list_all_iff)
  ultimately show ?thesis
    using assms by (auto simp: serialized_def list_all_iff list_all2_conv_all_nth)
qed

lemma catch_up:
  assumes "list_all2 (in_turn x sv sv) as ts" "list_all ended ts"
  shows "rtranclp (serially x) (bs @ as, sv) (bs @ ts, sv)"
  using assms
proof (induction arbitrary: bs rule: list_all2_induct)
  case (Cons a as t ts)
  have h: "\<not> holds_lock t" using Cons.prems holder_runs [of t] by auto
  have "rtranclp (serially x) (bs @ a # as, sv) (bs @ t # as, sv)"
  proof (cases "a = t")
    case False
    then have w: "exclusive a" "waits x sv a t" using Cons.hyps(1) h by (auto simp: in_turn_def)
    then obtain n where n: "exclusive a" "run_task x n a sv = Some (t, sv)" using waits_here by blast
    have "ended t" using Cons.prems by simp
    from serially.handler [OF n(1) run_whole [OF n this]] show ?thesis by blast
  qed simp
  also have "rtranclp (serially x) (bs @ t # as, sv) (bs @ t # ts, sv)"
    using Cons.IH [of "bs @ [t]"] Cons.prems by simp
  finally (rtranclp_trans) show ?case .
qed simp

lemma serialization:
  assumes "list_all exclusive ts" "rtranclp (interleave x) (ts, sv) (ts', sv')" "list_all ended ts'"
  shows "rtranclp (serially x) (ts, sv) (ts', sv')"
proof -
  obtain as av where a: "rtranclp (serially x) (ts, sv) (as, av)" "serialized x (ts', sv') (as, av)"
    using serial.simulates [OF assms(2) serialized_start [OF assms(1)]] by auto
  have "lock_free ts'" using assms(3) holder_runs by (auto simp: lock_free_def list_all_iff)
  then have "av = sv'" "list_all2 (in_turn x sv' sv') as ts'" using a(2) by (auto simp: serialized_def)
  then have "rtranclp (serially x) (as, av) (ts', sv')" using catch_up [OF _ assms(3), of x sv' as "[]"] by simp
  with a(1) show ?thesis by (rule rtranclp_trans)
qed

text \<open>
  C17: Compare-and-swap and commit are serializable. However any number of them has been interleaved,
  with saves in between, once all have ended there is an order of running them, each in one piece,
  with the same saves, that gives every one the same answer and leaves the same state: tree,
  indexes, cache, log, version counter and messages.
\<close>

theorem locked_handlers_serialize:
  assumes "list_all exclusive ts" "rtranclp (interleave x) (ts, sv) (ts', sv')" "list_all ended ts'"
  shows "rtranclp (serially x) (ts, sv) (ts', sv')"
  by (rule serialization [OF assms])


lemma interleave_length: "rtranclp (interleave x) c c' \<Longrightarrow> length (fst c') = length (fst c)"
  by (induction rule: rtranclp_induct) (auto elim!: interleave.cases)

section \<open>Competing for a key\<close>

text \<open>
  A lock is taken by setting an absent key, as kindctl cas does it with an empty expected value:
  the tasks that try, those that failed, and the one that succeeded.
\<close>

definition tries :: "str \<Rightarrow> task \<Rightarrow> bool" where
  "tries k t \<longleftrightarrow> (\<exists>e new. t = CasTask e k [] new None CasStart \<and> new \<noteq> [])"

definition lost :: "str \<Rightarrow> task \<Rightarrow> bool" where
  "lost k t \<longleftrightarrow> (\<exists>e new. t = CasTask e k [] new None (CasEnd (Inr False)))"

definition won :: "str \<Rightarrow> bytes \<Rightarrow> task \<Rightarrow> bool" where
  "won k new t \<longleftrightarrow> (\<exists>e. t = CasTask e k [] new None (CasEnd (Inr True)))"

lemmas contest_defs = tries_def lost_def won_def

lemma cas_write_result:
  "cas_write x e k new ex sv = Some (r, sv') \<Longrightarrow>
   r = Inr True \<and> same_config sv sv' \<and> map_option (\<lambda>r. (rec_value r, rec_expires r)) (fmlookup (sv_tree sv') k) = Some (new, ex)"
  by (auto simp: cas_write_def Let_def bind_eq_Some_conv dest!: cache_config)
    (simp_all add: same_config_def store_write_def step_defs Let_def)

definition contest :: "str \<Rightarrow> task list \<times> server \<Rightarrow> bool" where
  "contest k c \<longleftrightarrow> (case c of (ts, sv) \<Rightarrow> \<not> sv_is_replica sv \<and> \<not> sv_wal_poisoned sv \<and>
     (abs_store sv k = None \<and> (\<forall>i < length ts. tries k (ts ! i)) \<or>
      (\<exists>i new. i < length ts \<and> won k new (ts ! i) \<and> new \<noteq> [] \<and> abs_store sv k = Some (new, None) \<and>
        (\<forall>j < length ts. j \<noteq> i \<longrightarrow> tries k (ts ! j) \<or> lost k (ts ! j)))))"

lemma save_store:
  assumes "save_snapshot_and_truncate_wal x now se sv = Some sv'"
  shows "abs_store sv' = abs_store sv \<and> same_config sv sv'"
  using save_disk_only [OF assms] by (auto simp: abs_store_def same_config_def)

lemma cas_free:
  assumes "cas x e k [] new None sv = Some (r, sv')" "abs_store sv k = None" "\<not> sv_is_replica sv" "\<not> sv_wal_poisoned sv"
  shows "r = Inr True \<and> same_config sv sv' \<and> abs_store sv' k = Some (new, None)"
proof -
  have "cas_write x e k new None sv = Some (r, sv')" using assms by (simp add: cas_def abs_store_def)
  from cas_write_result [OF this] show ?thesis by (simp add: abs_store_def)
qed

lemma cas_taken:
  assumes "cas x e k [] new None sv = Some (r, sv')" "abs_store sv k = Some (v, None)" "v \<noteq> []"
    and "\<not> sv_is_replica sv" "\<not> sv_wal_poisoned sv"
  shows "r = Inr False \<and> sv' = sv"
  using assms by (auto simp: cas_def abs_store_def split: if_splits)

lemma tries_whole:
  assumes "tries k t" "whole x t sv = Some (t', sv')"
  obtains e new r where "new \<noteq> []" "t' = CasTask e k [] new None (CasEnd r)" "cas x e k [] new None sv = Some (r, sv')"
  using assms by (auto simp: tries_def)

lemma contest_step: "serially x c c' \<Longrightarrow> contest k c \<Longrightarrow> contest k c'"
proof (induction rule: serially.induct)
  case (handler t sv t' sv' ts us)
  let ?ts = "ts @ t # us" and ?i = "length ts"
  have up: "ts @ t' # us = ?ts[?i := t']" "?ts ! ?i = t" "?i < length ?ts" by simp_all
  have cfg: "\<not> sv_is_replica sv" "\<not> sv_wal_poisoned sv" using handler.prems by (simp_all add: contest_def)
  consider "abs_store sv k = None" "\<forall>i < length ?ts. tries k (?ts ! i)"
    | i new where "i < length ?ts" "won k new (?ts ! i)" "new \<noteq> []" "abs_store sv k = Some (new, None)"
        "\<forall>j < length ?ts. j \<noteq> i \<longrightarrow> tries k (?ts ! j) \<or> lost k (?ts ! j)"
    using handler.prems unfolding contest_def by auto
  then show ?case
  proof cases
    case 1
    have "tries k t" using 1(2) up(2,3) by metis
    then obtain e new r where r: "new \<noteq> []" "t' = CasTask e k [] new None (CasEnd r)" "cas x e k [] new None sv = Some (r, sv')"
      using tries_whole [OF _ handler.hyps(2)] by blast
    from cas_free [OF r(3) 1(1) cfg] have w: "won k new t'" "same_config sv sv'" "abs_store sv' k = Some (new, None)"
      using r(2) by (auto simp: won_def)
    have "contest k (?ts[?i := t'], sv')"
      unfolding contest_def prod.case using w r(1) cfg 1(2) up(3)
      by (intro conjI disjI2 exI [of _ ?i] exI [of _ new])
        (auto simp: same_config_def nth_list_update simp del: list_update_length)
    then show ?thesis by simp
  next
    case (2 i new)
    have "i \<noteq> ?i" using 2(2) handler.hyps(1) by (auto simp: won_def)
    moreover have "\<not> lost k t" using handler.hyps(1) by (auto simp: lost_def)
    ultimately have "tries k t" using 2(5) up(2,3) by metis
    then obtain e new' r where r: "t' = CasTask e k [] new' None (CasEnd r)" "cas x e k [] new' None sv = Some (r, sv')"
      using tries_whole [OF _ handler.hyps(2)] by blast
    from cas_taken [OF r(2) 2(4,3) cfg] have w: "lost k t'" "sv' = sv" using r(1) by (auto simp: lost_def)
    have "contest k (?ts[?i := t'], sv')"
      unfolding contest_def prod.case using w(1) 2 cfg \<open>i \<noteq> ?i\<close> unfolding w(2)
      by (intro conjI disjI2 exI [of _ i] exI [of _ new]) (auto simp: nth_list_update simp del: list_update_length)
    then show ?thesis by simp
  qed
next
  case (saving now se sv sv' ts)
  then show ?case using save_store [OF saving.hyps] by (simp add: contest_def same_config_def)
qed

interpretation contest: step_invariant "serially x" "contest k" for x k
  by unfold_locales (rule contest_step)

lemma tries_ended: "tries k t \<Longrightarrow> \<not> ended t \<and> exclusive t"
  by (auto simp: tries_def)

text \<open>
  C18: A compare-and-swap takes a lock. If any number of clients set an absent key to a value of their
  own, which is not empty and has no time to live, by a compare-and-swap that expects nothing, then however they are interleaved, with saves in
  between, exactly one is told that it succeeded, and the key holds its value.
\<close>

theorem one_lock_holder:
  assumes "\<not> sv_is_replica sv" "\<not> sv_wal_poisoned sv" "abs_store sv k = None"
    and "list_all (tries k) ts" "ts \<noteq> []"
    and "rtranclp (interleave x) (ts, sv) (ts', sv')" "list_all ended ts'"
  shows "\<exists>i new. i < length ts' \<and> won k new (ts' ! i) \<and> abs_store sv' k = Some (new, None) \<and>
    (\<forall>j < length ts'. j \<noteq> i \<longrightarrow> lost k (ts' ! j))"
proof -
  have "contest k (ts, sv)" using assms(1-4) by (simp add: contest_def list_all_length)
  moreover have "rtranclp (serially x) (ts, sv) (ts', sv')"
    using assms(4) tries_ended by (intro serialization [OF _ assms(6,7)]) (auto simp: list_all_iff)
  ultimately have c: "contest k (ts', sv')" by (rule contest.ok_reachable [rotated])
  have "length ts' = length ts" using interleave_length [OF assms(6)] by simp
  then have "0 < length ts'" using assms(5) by simp
  moreover have "\<not> tries k (ts' ! i)" if "i < length ts'" for i
    using assms(7) that tries_ended by (metis list_all_length)
  ultimately show ?thesis using c unfolding contest_def by auto
qed

section \<open>Instances\<close>

theorem locked_handlers_serialize_witness:
  "\<exists>us s. rtranclp (interleave plain_ext) ([CasTask (at 1) ''a'' [] [2] (Some 5) CasStart,
       CommitTask (at 2) sorted_order sample_tx CommitStart], blank_server) (us, s) \<and> list_all ended us \<and>
     rtranclp (serially plain_ext) ([CasTask (at 1) ''a'' [] [2] (Some 5) CasStart,
       CommitTask (at 2) sorted_order sample_tx CommitStart], blank_server) (us, s)"
proof -
  let ?ts = "[CasTask (at 1) ''a'' [] [2] (Some 5) CasStart, CommitTask (at 2) sorted_order sample_tx CommitStart]"
  obtain us s where u: "rtranclp (interleave plain_ext) (?ts, blank_server) (us, s)" "list_all ended us"
    using can_end [of ?ts] by (auto simp: ttl_expiry_def)
  moreover have "list_all exclusive ?ts" by simp
  ultimately show ?thesis using locked_handlers_serialize by blast
qed

theorem one_lock_holder_witness:
  "\<exists>t u s. rtranclp (interleave plain_ext) ([CasTask (at 1) ''lock'' [] [1] None CasStart,
       CasTask (at 2) ''lock'' [] [2] None CasStart], blank_server) ([t, u], s) \<and>
     (\<exists>new. won ''lock'' new t \<and> lost ''lock'' u \<and> abs_store s ''lock'' = Some (new, None) \<or>
            won ''lock'' new u \<and> lost ''lock'' t \<and> abs_store s ''lock'' = Some (new, None))"
proof -
  let ?ts = "[CasTask (at 1) ''lock'' [] [1] None CasStart, CasTask (at 2) ''lock'' [] [2] None CasStart]"
  obtain us s where u: "rtranclp (interleave plain_ext) (?ts, blank_server) (us, s)" "list_all ended us"
    using can_end [of ?ts] by auto
  obtain a b where ab: "us = [a, b]" using interleave_length [OF u(1)] by (auto simp: length_Suc_conv)
  have t: "list_all (tries ''lock'') ?ts" by (simp add: tries_def)
  have b: "\<not> sv_is_replica blank_server" "\<not> sv_wal_poisoned blank_server" "abs_store blank_server ''lock'' = None"
    by (simp_all add: blank_server_def abs_store_def)
  obtain i new where w: "i < length us" "won ''lock'' new (us ! i)" "abs_store s ''lock'' = Some (new, None)"
    "\<forall>j < length us. j \<noteq> i \<longrightarrow> lost ''lock'' (us ! j)"
    using one_lock_holder [OF b t _ u] by auto
  have "i = 0 \<or> i = 1" using w(1) ab by auto
  then show ?thesis
  proof
    assume i: "i = 0"
    then have "lost ''lock'' b" using w(4) ab by (auto dest: spec [of _ 1])
    then show ?thesis using w(2,3) i u(1) ab by auto
  next
    assume i: "i = 1"
    then have "lost ''lock'' a" using w(4) ab by (auto dest: spec [of _ 0])
    then show ?thesis using w(2,3) i u(1) ab by auto
  qed
qed

end
