(* ===== verification/Disjoint_Properties.thy ===== *)
theory Disjoint_Properties
  imports Progress_Properties "HOL-Library.Multiset"
begin

text \<open>
  Requests on different keys do not interfere: however puts, deletes, gets and compare-and-swaps on
  pairwise different keys are interleaved, with saves in between, they are answered as by the map of
  the store, one after the other. Each request has an assertion on its key alone, which its own steps
  establish from one point to the next and which no step of another request can break.
\<close>

section \<open>Parallel composition of independent tasks\<close>

text \<open>
  Tasks with assertions indexed by what they were asked. Another task's step may change what an
  assertion speaks about, but the assertion survives it.
\<close>

locale independent_tasks =
  fixes act :: "'t \<Rightarrow> 's \<Rightarrow> ('t \<times> 's) option"
    and common :: "'s \<Rightarrow> bool"
    and at :: "'i \<Rightarrow> 't \<Rightarrow> 's \<Rightarrow> bool"
    and apart :: "'i \<Rightarrow> 'i \<Rightarrow> bool"
  assumes own: "common s \<Longrightarrow> at i t s \<Longrightarrow> act t s = Some (t', s') \<Longrightarrow> common s' \<and> at i t' s'"
    and other: "common s \<Longrightarrow> at i t s \<Longrightarrow> at j u s \<Longrightarrow> apart i j \<Longrightarrow> act t s = Some (t', s') \<Longrightarrow> at j u s'"
begin

definition all_at :: "'i list \<Rightarrow> 't list \<Rightarrow> 's \<Rightarrow> bool" where
  "all_at ns ts s \<longleftrightarrow> common s \<and> list_all2 (\<lambda>i t. at i t s) ns ts"

lemma others_kept:
  assumes "list_all2 (\<lambda>j u. at j u s) js us" "common s" "at i t s" "act t s = Some (t', s')" "\<forall>j \<in> set js. apart i j"
  shows "list_all2 (\<lambda>j u. at j u s') js us"
  using assms(1,5) by (induction rule: list_all2_induct) (auto intro: other [OF assms(2,3) _ _ assms(4)])

lemma all_at_turn:
  assumes "all_at ns (ts @ t # us) s" "act t s = Some (t', s')"
    and "\<And>a b. a < length ns \<Longrightarrow> b < length ns \<Longrightarrow> a \<noteq> b \<Longrightarrow> apart (ns ! a) (ns ! b)"
  shows "all_at ns (ts @ t' # us) s'"
proof -
  obtain js i ks where ns: "ns = js @ i # ks" "length js = length ts" "list_all2 (\<lambda>i t. at i t s) js ts"
    "at i t s" "list_all2 (\<lambda>i t. at i t s) ks us"
    using assms(1) by (auto simp: all_at_def list_all2_append2 list_all2_Cons2)
  have c: "common s" using assms(1) by (simp add: all_at_def)
  have "apart i j" if "j \<in> set js" for j
  proof -
    from that obtain a where "a < length js" "js ! a = j" by (auto simp: in_set_conv_nth)
    then show ?thesis using assms(3) [of "length js" a] by (simp add: ns(1) nth_append)
  qed
  moreover have "apart i j" if "j \<in> set ks" for j
  proof -
    from that obtain a where "a < length ks" "ks ! a = j" by (auto simp: in_set_conv_nth)
    then show ?thesis using assms(3) [of "length js" "Suc (length js + a)"] by (simp add: ns(1) nth_append)
  qed
  ultimately show ?thesis
    using own [OF c ns(4) assms(2)] others_kept [OF ns(3) c ns(4) assms(2)] others_kept [OF ns(5) c ns(4) assms(2)]
    by (simp add: all_at_def ns(1) list_all2_appendI)
qed

end

section \<open>Requests as tasks\<close>

fun client :: "env \<times> request \<Rightarrow> task" where
  "client (e, ReqGet k) = GetTask e k GetStart"
| "client (e, ReqPut k v ttl) = PutTask e k v ttl PutStart"
| "client (e, ReqDelete k) = DeleteTask e k DeleteStart"
| "client (e, ReqCas k old new ttl) = CasTask e k old new ttl CasStart"

fun request_of :: "task \<Rightarrow> (env \<times> request) option" where
  "request_of (GetTask e k p) = Some (e, ReqGet k)"
| "request_of (PutTask e k v ttl p) = Some (e, ReqPut k v ttl)"
| "request_of (DeleteTask e k p) = Some (e, ReqDelete k)"
| "request_of (CasTask e k old new ttl p) = Some (e, ReqCas k old new ttl)"
| "request_of _ = None"

fun key_of :: "request \<Rightarrow> str" where
  "key_of (ReqGet k) = k"
| "key_of (ReqPut k v ttl) = k"
| "key_of (ReqDelete k) = k"
| "key_of (ReqCas k old new ttl) = k"

definition acked :: "status + bool \<Rightarrow> reply" where
  "acked r = (case r of Inl st \<Rightarrow> Failed st | Inr b \<Rightarrow> Done b)"

definition got :: "status + kv_record \<Rightarrow> reply" where
  "got r = (case r of Inl st \<Rightarrow> Failed st | Inr kv \<Rightarrow> Found kv)"

fun result :: "task \<Rightarrow> reply option" where
  "result (GetTask e k (GetEnd r)) = Some (got r)"
| "result (PutTask e k v ttl (PutEnd r)) = Some (acked r)"
| "result (DeleteTask e k (DeleteEnd r)) = Some (acked r)"
| "result (CasTask e k old new ttl (CasEnd r)) = Some (acked r)"
| "result _ = None"

lemma step_request: "task_step x t sv = Some (t', sv') \<Longrightarrow> request_of t' = request_of t"
  by (cases t) auto

lemma client_request: "request_of (client r) = Some r"
  by (cases r rule: client.cases) auto

section \<open>One key\<close>

text \<open>What the store holds under a key, and what a request on the key does to that.\<close>

type_synonym cell = "(bytes \<times> u64 option) option"

definition local_spec :: "env \<Rightarrow> request \<Rightarrow> cell \<Rightarrow> (reply \<times> cell) option" where
  "local_spec e req c = map_option (\<lambda>(r, m). (r, m (key_of req))) (spec_step e req (\<lambda>_. c))"

lemma spec_step_local:
  "spec_step e req m = map_option (\<lambda>(r, c). (r, m(key_of req := c))) (local_spec e req (m (key_of req)))"
  by (cases req) (auto simp: local_spec_def fun_upd_idem option.map_comp comp_def split: option.splits intro!: map_option_cong)

text \<open>The cache agrees with a cell; \<open>P\<close> are the keys put without a time to live.\<close>

definition coherent :: "str set \<Rightarrow> str \<Rightarrow> cell \<Rightarrow> bytes option \<Rightarrow> bool" where
  "coherent P k c h \<longleftrightarrow> h = None \<or> (\<exists>v. h = Some v \<and> c = Some (v, None) \<and> k \<in> P)"

lemma coherent_simps [simp]:
  "coherent P k c None" "coherent P k None h \<longleftrightarrow> h = None"
  "coherent P k (Some (v, ex)) (Some w) \<longleftrightarrow> w = v \<and> ex = None \<and> k \<in> P"
  by (auto simp: coherent_def)

text \<open>The branch in which a compare-and-swap writes.\<close>

definition swaps :: "env \<Rightarrow> bytes \<Rightarrow> cell \<Rightarrow> bool" where
  "swaps e old c \<longleftrightarrow> (case c of None \<Rightarrow> old = []
     | Some (v, ex) \<Rightarrow> if is_expired (en_now e) ex then old = [] else v = old)"

text \<open>
  Where a request stands: the cell it found at its start is \<open>c\<close>, the cell now is \<open>d\<close>, and \<open>h\<close> is
  what the cache has under the key.
\<close>

fun on_key :: "str set \<Rightarrow> cell \<Rightarrow> task \<Rightarrow> cell \<Rightarrow> bytes option \<Rightarrow> bool" where
  "on_key P c (PutTask e k v ttl p) d h \<longleftrightarrow> (k \<in> P \<longleftrightarrow> ttl = None) \<and>
     (let aim = (\<lambda>ex. ttl_expiry (en_now e) ttl = Some ex \<and> d = c \<and> coherent P k (Some (v, ex)) h) in
      case p of
        PutStart \<Rightarrow> d = c \<and> coherent P k c h
      | PutUnindex ex _ \<Rightarrow> ttl_expiry (en_now e) ttl = Some ex \<and> d = c \<and> coherent P k c h
      | PutIndex ex \<Rightarrow> ttl_expiry (en_now e) ttl = Some ex \<and> d = c \<and> coherent P k c h
      | PutCache ex \<Rightarrow> ttl_expiry (en_now e) ttl = Some ex \<and> d = c \<and> coherent P k c h
      | PutNumber ex \<Rightarrow> aim ex
      | PutLog ex _ \<Rightarrow> aim ex
      | PutSend ex _ \<Rightarrow> aim ex
      | PutStore ex _ \<Rightarrow> aim ex
      | PutNotify \<Rightarrow> local_spec e (ReqPut k v ttl) c = Some (Done True, d) \<and> coherent P k d h
      | PutEnd r \<Rightarrow> local_spec e (ReqPut k v ttl) c = Some (acked r, d) \<and> coherent P k d h)"
| "on_key P c (DeleteTask e k p) d h \<longleftrightarrow>
     (case p of
        DeleteStart \<Rightarrow> d = c \<and> coherent P k c h
      | DeleteUnindex _ \<Rightarrow> c \<noteq> None
      | DeleteRemove \<Rightarrow> c \<noteq> None
      | DeleteInvalidate \<Rightarrow> c \<noteq> None \<and> d = None
      | DeleteEnd r \<Rightarrow> local_spec e (ReqDelete k) c = Some (acked r, d) \<and> h = None
      | _ \<Rightarrow> c \<noteq> None \<and> d = None \<and> h = None)"
| "on_key P c (GetTask e k p) d h \<longleftrightarrow>
     (case p of
        GetStart \<Rightarrow> d = c \<and> coherent P k c h
      | GetLookup \<Rightarrow> d = c \<and> h = None
      | GetEnd r \<Rightarrow> local_spec e (ReqGet k) c = Some (got r, d) \<and> coherent P k d h
      | _ \<Rightarrow> (\<exists>v ex. c = Some (v, ex) \<and> is_expired (en_now e) ex) \<and> d = c \<and> h = None)"
| "on_key P c (CasTask e k old new ttl p) d h \<longleftrightarrow>
     (let aim = (\<lambda>ex. ttl_expiry (en_now e) ttl = Some ex \<and> d = c \<and> swaps e old c) in
      case p of
        CasStart \<Rightarrow> d = c \<and> coherent P k c h
      | CasLock ex \<Rightarrow> ttl_expiry (en_now e) ttl = Some ex \<and> d = c \<and> coherent P k c h
      | CasCompare ex \<Rightarrow> ttl_expiry (en_now e) ttl = Some ex \<and> d = c \<and> coherent P k c h
      | CasUnindex ex _ \<Rightarrow> aim ex
      | CasIndex ex \<Rightarrow> aim ex
      | CasInvalidate ex \<Rightarrow> aim ex
      | CasNumber ex \<Rightarrow> aim ex \<and> h = None
      | CasLog ex _ \<Rightarrow> aim ex \<and> h = None
      | CasSend ex _ \<Rightarrow> aim ex \<and> h = None
      | CasStore ex _ \<Rightarrow> aim ex \<and> h = None
      | CasNotify \<Rightarrow> local_spec e (ReqCas k old new ttl) c = Some (Done True, d) \<and> h = None
      | CasEnd r \<Rightarrow> local_spec e (ReqCas k old new ttl) c = Some (acked r, d) \<and> coherent P k d h)"
| "on_key P c _ d h \<longleftrightarrow> False"


section \<open>Steps on the own key\<close>

abbreviation held_by_cache :: "server \<Rightarrow> str \<Rightarrow> bytes option" where
  "held_by_cache sv k \<equiv> lru_abs (sv_cache sv) k"

definition leads :: "server \<Rightarrow> bool" where
  "leads sv \<longleftrightarrow> lru_inv (sv_cache sv) \<and> \<not> sv_is_replica sv \<and> \<not> sv_wal_poisoned sv"

lemma helper_store [simp]:
  "abs_store (remove_record_from_index x k v sv) = abs_store sv"
  "abs_store (index_record x k v sv) = abs_store sv"
  "abs_store (send_watch k w op sv) = abs_store sv"
  "abs_store (send_sync n c sv) = abs_store sv"
  "abs_store (log_command y out n c sv) = abs_store sv"
  "abs_store (sv\<lparr>sv_cache := ca\<rparr>) = abs_store sv"
  "abs_store (sv\<lparr>sv_global_version := n\<rparr>) = abs_store sv"
  "abs_store (tree_insert k r sv) = (abs_store sv)(k \<mapsto> (rec_value r, rec_expires r))"
  "abs_store (tree_remove k sv) = (abs_store sv)(k := None)"
  by (auto simp: abs_store_def step_defs fun_eq_iff)

lemma cache_put_result:
  assumes "cache_put k v sv = Some sv'" "lru_inv (sv_cache sv)"
  shows "\<exists>c. sv' = sv\<lparr>sv_cache := c\<rparr> \<and> lru_inv c \<and> lru_abs c k = Some v \<and>
    lru_abs c \<subseteq>\<^sub>m (lru_abs (sv_cache sv))(k \<mapsto> v)"
  using cache_put_spec [OF assms(2), of k v] assms(1) by auto

lemma cache_invalidate_result:
  assumes "cache_invalidate k sv = Some sv'" "lru_inv (sv_cache sv)"
  shows "\<exists>c. sv' = sv\<lparr>sv_cache := c\<rparr> \<and> lru_inv c \<and> lru_abs c = (lru_abs (sv_cache sv))(k := None)"
  using cache_invalidate_spec [OF assms(2), of k] assms(1) by auto

lemma put_own:
  assumes "leads sv" "put_step x e k v ttl p sv = Some (p', sv')"
    "on_key P c (PutTask e k v ttl p) (abs_store sv k) (held_by_cache sv k)"
  shows "on_key P c (PutTask e k v ttl p') (abs_store sv' k) (held_by_cache sv' k)"
proof (cases p)
  case (PutUnindex ex old)
  then show ?thesis using assms by (cases old) auto
next
  case (PutCache ex)
  show ?thesis
  proof (cases "ex = None")
    case True
    then have "cache_put k v sv = Some sv'" "p' = PutNumber ex" using assms(2) PutCache by (auto simp: bind_eq_Some_conv)
    moreover obtain ca where "sv' = sv\<lparr>sv_cache := ca\<rparr>" "lru_abs ca k = Some v"
      using cache_put_result [of k v sv sv'] calculation(1) assms(1) by (auto simp: leads_def)
    ultimately show ?thesis using assms(3) PutCache True ttl_expiry_Some [of "en_now e" ttl ex] by auto
  next
    case False
    then have "sv' = sv" "p' = PutNumber ex" using assms(2) PutCache by auto
    then show ?thesis using assms(3) PutCache False ttl_expiry_Some [of "en_now e" ttl ex] by (auto simp: coherent_def)
  qed
qed (use assms in \<open>auto simp: leads_def next_version_def Let_def local_spec_def acked_def bind_eq_Some_conv\<close>)

lemma delete_own:
  assumes "leads sv" "delete_step x e k p sv = Some (p', sv')"
    "on_key P c (DeleteTask e k p) (abs_store sv k) (held_by_cache sv k)"
  shows "on_key P c (DeleteTask e k p') (abs_store sv' k) (held_by_cache sv' k)"
proof (cases p)
  case DeleteStart
  then show ?thesis
    using assms by (cases "fmlookup (sv_tree sv) k") (auto simp: leads_def local_spec_def acked_def abs_store_def)
next
  case DeleteInvalidate
  then show ?thesis using assms by (auto simp: leads_def dest!: cache_invalidate_result)
qed (use assms in \<open>auto simp: leads_def next_version_def Let_def local_spec_def acked_def\<close>)

lemma get_own:
  assumes "leads sv" "get_step x e k p sv = Some (p', sv')"
    "on_key P c (GetTask e k p) (abs_store sv k) (held_by_cache sv k)"
  shows "on_key P c (GetTask e k p') (abs_store sv' k) (held_by_cache sv' k)"
proof (cases p)
  case GetStart
  obtain ca where ca: "lru_get k (sv_cache sv) = Some (held_by_cache sv k, ca)" "lru_abs ca = lru_abs (sv_cache sv)"
    using cache_hit [of sv k] assms(1) unfolding leads_def by blast
  then show ?thesis
    using assms(2,3) GetStart
    by (cases "held_by_cache sv k") (auto simp: local_spec_def got_def coherent_def)
next
  case GetLookup
  then show ?thesis
    using assms by (cases "fmlookup (sv_tree sv) k")
      (auto simp: local_spec_def got_def abs_store_def answer_def split: if_splits)
qed (use assms in \<open>auto simp: local_spec_def got_def split: option.splits\<close>)

lemma cas_own:
  assumes "leads sv" "cas_step x e k old new ttl p sv = Some (p', sv')"
    "on_key P c (CasTask e k old new ttl p) (abs_store sv k) (held_by_cache sv k)"
  shows "on_key P c (CasTask e k old new ttl p') (abs_store sv' k) (held_by_cache sv' k)"
proof (cases p)
  case (CasCompare ex)
  then show ?thesis
    using assms by (cases "fmlookup (sv_tree sv) k")
      (auto simp: local_spec_def acked_def abs_store_def swaps_def split: if_splits)
next
  case (CasInvalidate ex)
  then show ?thesis using assms by (auto simp: leads_def dest!: cache_invalidate_result)
next
  case (CasStore ex n)
  then show ?thesis using assms by (auto simp: local_spec_def swaps_def split: option.splits if_splits)
qed (use assms in \<open>auto simp: leads_def next_version_def Let_def local_spec_def acked_def\<close>)

section \<open>Steps on other keys\<close>

text \<open>What a step on the key \<open>k\<close> leaves alone.\<close>

definition only_on :: "str \<Rightarrow> server \<Rightarrow> server \<Rightarrow> bool" where
  "only_on k sv sv' \<longleftrightarrow> leads sv' \<and> (\<forall>j. j \<noteq> k \<longrightarrow> abs_store sv' j = abs_store sv j \<and>
     (held_by_cache sv' j = held_by_cache sv j \<or> held_by_cache sv' j = None))"

lemma cache_put_only:
  assumes "cache_put k v sv = Some sv'" "leads sv"
  shows "only_on k sv sv'"
proof -
  obtain c where c: "sv' = sv\<lparr>sv_cache := c\<rparr>" "lru_inv c" "lru_abs c \<subseteq>\<^sub>m (lru_abs (sv_cache sv))(k \<mapsto> v)"
    using cache_put_result [OF assms(1)] assms(2) by (auto simp: leads_def)
  have "lru_abs c j = lru_abs (sv_cache sv) j \<or> lru_abs c j = None" if "j \<noteq> k" for j
    using map_le_SomeD [OF c(3), of j] that by (cases "lru_abs c j") auto
  then show ?thesis using c(1,2) assms(2) by (auto simp: only_on_def leads_def)
qed

lemma cache_invalidate_only: "cache_invalidate k sv = Some sv' \<Longrightarrow> leads sv \<Longrightarrow> only_on k sv sv'"
  by (auto simp: only_on_def leads_def dest!: cache_invalidate_result)

lemma leads_simps [simp]:
  "leads (remove_record_from_index x k v sv) = leads sv" "leads (index_record x k v sv) = leads sv"
  "leads (send_watch k w op sv) = leads sv" "leads (send_sync n c sv) = leads sv"
  "leads (log_command y out n c sv) = leads sv" "leads (sv\<lparr>sv_global_version := n\<rparr>) = leads sv"
  "leads (tree_insert k r sv) = leads sv" "leads (tree_remove k sv) = leads sv"
  "lru_inv ca \<Longrightarrow> leads sv \<Longrightarrow> leads (sv\<lparr>sv_cache := ca\<rparr>)"
  by (simp_all add: leads_def step_defs)

lemma only_on_simps [simp]:
  assumes "leads sv"
  shows "only_on k sv sv" "only_on k sv (remove_record_from_index x j v sv)" "only_on k sv (index_record x j v sv)"
    "only_on k sv (send_watch j w op sv)" "only_on k sv (send_sync n c sv)" "only_on k sv (log_command y out n c sv)"
    "only_on k sv (sv\<lparr>sv_global_version := n\<rparr>)" "only_on k sv (tree_insert k r sv)" "only_on k sv (tree_remove k sv)"
    "lru_inv ca \<Longrightarrow> lru_abs ca = lru_abs (sv_cache sv) \<Longrightarrow> only_on k sv (sv\<lparr>sv_cache := ca\<rparr>)"
  using assms by (simp_all add: only_on_def)

lemma task_only_on:
  assumes "leads sv" "request_of t = Some (e, req)" "task_step x t sv = Some (t', sv')"
  shows "only_on (key_of req) sv sv'"
proof (cases t)
  case (PutTask e k v ttl p)
  then obtain p' where "put_step x e k v ttl p sv = Some (p', sv')" using assms(3) by auto
  then show ?thesis
    using PutTask assms(1,2)
    by (cases p) (auto simp: next_version_def Let_def bind_eq_Some_conv intro: cache_put_only split: if_splits option.splits)
next
  case (DeleteTask e k p)
  then obtain p' where "delete_step x e k p sv = Some (p', sv')" using assms(3) by auto
  then show ?thesis
    using DeleteTask assms(1,2)
    by (cases p) (auto simp: next_version_def Let_def intro: cache_invalidate_only split: if_splits option.splits)
next
  case (GetTask e k p)
  then obtain p' where g: "get_step x e k p sv = Some (p', sv')" using assms(3) by auto
  obtain c where "lru_get k (sv_cache sv) = Some (held_by_cache sv k, c)" "lru_inv c" "lru_abs c = lru_abs (sv_cache sv)"
    using cache_hit [of sv k] assms(1) unfolding leads_def by blast
  then show ?thesis using g GetTask assms(1,2) by (cases p) (auto split: if_splits option.splits)
next
  case (CasTask e k old new ttl p)
  then obtain p' where "cas_step x e k old new ttl p sv = Some (p', sv')" using assms(3) by auto
  then show ?thesis
    using CasTask assms(1,2)
    by (cases p) (auto simp: next_version_def Let_def intro: cache_invalidate_only split: if_splits option.splits)
qed (use assms(2) in simp_all)

text \<open>An assertion on a key survives that its key leaves the cache.\<close>

lemma on_key_evict: "on_key P c t d h \<Longrightarrow> on_key P c t d None"
proof (cases t)
  case (PutTask e k v ttl p)
  assume "on_key P c t d h"
  with PutTask show ?thesis by (cases p) (auto simp: Let_def)
next
  case (DeleteTask e k p)
  assume "on_key P c t d h"
  with DeleteTask show ?thesis by (cases p) auto
next
  case (GetTask e k p)
  assume "on_key P c t d h"
  with GetTask show ?thesis by (cases p) auto
next
  case (CasTask e k old new ttl p)
  assume "on_key P c t d h"
  with CasTask show ?thesis by (cases p) (auto simp: Let_def)
qed auto

section \<open>Different keys\<close>

abbreviation req_key :: "env \<times> request \<Rightarrow> str" where
  "req_key r \<equiv> key_of (snd r)"

definition within :: "str set \<Rightarrow> store \<Rightarrow> server \<Rightarrow> bool" where
  "within K m sv \<longleftrightarrow> leads sv \<and> (\<forall>k. k \<notin> K \<longrightarrow> abs_store sv k = m k)"

definition at_point :: "str set \<Rightarrow> str set \<Rightarrow> store \<Rightarrow> env \<times> request \<Rightarrow> task \<Rightarrow> server \<Rightarrow> bool" where
  "at_point P K m r t sv \<longleftrightarrow> request_of t = Some r \<and> req_key r \<in> K \<and>
     on_key P (m (req_key r)) t (abs_store sv (req_key r)) (held_by_cache sv (req_key r))"

lemma at_point_only:
  assumes "within K m sv" "at_point P K m r t sv" "task_step x t sv = Some (t', sv')"
  shows "only_on (req_key r) sv sv'"
  using task_only_on [OF _ _ assms(3), of "fst r" "snd r"] assms(1,2) by (simp add: within_def at_point_def)

lemma own_step:
  assumes "within K m sv" "at_point P K m r t sv" "task_step x t sv = Some (t', sv')"
  shows "within K m sv' \<and> at_point P K m r t' sv'"
proof -
  obtain e req where r: "r = (e, req)" by (cases r)
  have l: "leads sv" using assms(1) by (simp add: within_def)
  have "k \<noteq> key_of req" if "k \<notin> K" for k using assms(2) that r by (auto simp: at_point_def)
  then have "within K m sv'"
    using at_point_only [OF assms] assms(1) r by (auto simp: only_on_def within_def)
  moreover have "request_of t' = Some r" using step_request [OF assms(3)] assms(2) by (simp add: at_point_def)
  moreover have "on_key P (m (key_of req)) t' (abs_store sv' (key_of req)) (held_by_cache sv' (key_of req))"
  proof (cases t)
    case (PutTask e k v ttl p)
    then show ?thesis using assms(2,3) put_own [OF l] r by (auto simp: at_point_def simp del: on_key.simps)
  next
    case (DeleteTask e k p)
    then show ?thesis using assms(2,3) delete_own [OF l] r by (auto simp: at_point_def simp del: on_key.simps)
  next
    case (GetTask e k p)
    then show ?thesis using assms(2,3) get_own [OF l] r by (auto simp: at_point_def simp del: on_key.simps)
  next
    case (CasTask e k old new ttl p)
    then show ?thesis using assms(2,3) cas_own [OF l] r by (auto simp: at_point_def simp del: on_key.simps)
  qed (use assms(2) in \<open>simp_all add: at_point_def\<close>)
  ultimately show ?thesis using r assms(2) by (simp add: at_point_def)
qed

lemma other_step:
  assumes "within K m sv" "at_point P K m q t sv" "at_point P K m r u sv" "req_key q \<noteq> req_key r"
    and "task_step x t sv = Some (t', sv')"
  shows "at_point P K m r u sv'"
  using at_point_only [OF assms(1,2,5)] assms(3,4) on_key_evict unfolding only_on_def at_point_def by metis

interpretation keys: independent_tasks "task_step x" "within K m" "at_point P K m" "\<lambda>q r. req_key q \<noteq> req_key r"
  for x P K m
  by unfold_locales (fact own_step, fact other_step)

lemma keys_step:
  assumes "interleave x c c'" "distinct (map req_key reqs)" "keys.all_at K m P reqs (fst c) (snd c)"
  shows "keys.all_at K m P reqs (fst c') (snd c')"
  using assms
proof (induction rule: interleave.induct)
  case (turn t sv t' sv' ts us)
  have "req_key (reqs ! a) \<noteq> req_key (reqs ! b)" if "a < length reqs" "b < length reqs" "a \<noteq> b" for a b
    using nth_eq_iff_index_eq [OF turn.prems(1)] that by simp
  then show ?case using keys.all_at_turn [of K m P reqs ts t us sv x t' sv'] turn.prems(2) turn.hyps(1) by simp
next
  case (save ts now se sv sv')
  then obtain d where d: "sv' = sv\<lparr>sv_disk := d\<rparr>" using save_disk_only by blast
  have "within K m sv' = within K m sv" "at_point P K m r t sv' = at_point P K m r t sv" for r t
    by (simp_all add: d at_point_def within_def leads_def abs_store_def)
  then show ?case using save.prems(2) by (simp add: keys.all_at_def)
qed

definition each_at :: "str set \<Rightarrow> store \<Rightarrow> (env \<times> request) list \<Rightarrow> task list \<times> server \<Rightarrow> bool" where
  "each_at P m reqs c \<longleftrightarrow> distinct (map req_key reqs) \<and>
     keys.all_at (req_key ` set reqs) m P reqs (fst c) (snd c)"

interpretation requests: step_invariant "interleave x" "each_at P m reqs" for x P m reqs
  by unfold_locales (use keys_step in \<open>auto simp: each_at_def\<close>)

lemma client_start:
  assumes "serving P sv" "separate P (snd r)" "req_key r \<in> K"
  shows "at_point P K (abs_store sv) r (client r) sv"
proof -
  have c: "coherent P k (abs_store sv k) (held_by_cache sv k)" for k
    using assms(1) by (cases "held_by_cache sv k") (fastforce simp: coherent_def serving_def cache_ok_def abs_store_def dom_def)+
  show ?thesis
    using assms(2,3) c by (cases r rule: client.cases) (auto simp: at_point_def split: if_splits)
qed

lemma clients_start:
  assumes "serving P sv" "\<forall>(e, req) \<in> set reqs. separate P req" "distinct (map req_key reqs)"
  shows "each_at P (abs_store sv) reqs (map client reqs, sv)"
proof -
  have "leads sv" using assms(1) by (simp add: serving_def cache_ok_def leads_def)
  then show ?thesis
    using assms(2,3) client_start [OF assms(1)]
    by (auto simp: each_at_def keys.all_at_def within_def list_all2_conv_all_nth case_prod_beta)
qed

lemma ended_result:
  assumes "at_point P K m r t sv" "ended t"
  shows "\<exists>q. result t = Some q \<and> local_spec (fst r) (snd r) (m (req_key r)) = Some (q, abs_store sv (req_key r))"
  using assms by (cases t rule: ended.cases) (auto simp: at_point_def)

text \<open>Requests on different keys, one after the other.\<close>

lemma spec_all_local:
  assumes "\<And>r. r \<in> set reqs \<Longrightarrow> local_spec (fst r) (snd r) (m (req_key r)) = Some (answers r, d (req_key r))"
    and "distinct (map req_key reqs)"
  shows "spec_all reqs m = Some (map answers reqs, \<lambda>k. if k \<in> req_key ` set reqs then d k else m k)"
  using assms
proof (induction reqs arbitrary: m)
  case (Cons r reqs)
  obtain e req where r: "r = (e, req)" by (cases r)
  let ?m = "m(key_of req := d (key_of req))"
  have "local_spec (fst q) (snd q) (?m (req_key q)) = Some (answers q, d (req_key q))" if "q \<in> set reqs" for q
  proof -
    have "req_key q \<noteq> key_of req" using Cons.prems(2) that r by force
    then show ?thesis using Cons.prems(1) [of q] that by simp
  qed
  then have "spec_all reqs ?m = Some (map answers reqs, \<lambda>k. if k \<in> req_key ` set reqs then d k else ?m k)"
    using Cons.IH Cons.prems(2) by simp
  moreover have "spec_step e req m = Some (answers r, ?m)"
    using Cons.prems(1) [of r] r by (simp add: spec_step_local [of e req m])
  ultimately show ?case using r Cons.prems(2) by (auto simp: fun_eq_iff)
qed auto

text \<open>
  C19: Requests on different keys are linearizable. On a leader, puts, deletes, gets and
  compare-and-swaps on pairwise different keys may be interleaved in any way, with saves in between:
  once all have ended, every answer is the one the map of the store gives when the requests are
  served one after the other, in the order listed or any other, and the store is the map at the end.
  As for requests in sequence, no key may be put both with and without a time to live.
\<close>

theorem different_keys_linearize:
  assumes "serving P sv" "\<forall>(e, req) \<in> set reqs. separate P req" "distinct (map req_key reqs)"
    and "rtranclp (interleave x) (map client reqs, sv) (ts, sv')" "list_all ended ts"
    and "mset reqs' = mset reqs"
  shows "\<exists>answers. spec_all reqs' (abs_store sv) = Some (map answers reqs', abs_store sv') \<and>
    map result ts = map (Some \<circ> answers) reqs"
proof -
  let ?K = "req_key ` set reqs" and ?m = "abs_store sv"
  have "each_at P ?m reqs (ts, sv')"
    by (rule requests.ok_reachable [OF assms(4) clients_start [OF assms(1-3)]])
  then have a: "list_all2 (\<lambda>r t. at_point P ?K ?m r t sv') reqs ts" "\<forall>k. k \<notin> ?K \<longrightarrow> abs_store sv' k = ?m k"
    and d: "distinct (map req_key reqs)"
    by (auto simp: each_at_def keys.all_at_def within_def)
  define answers where "answers r = fst (the (local_spec (fst r) (snd r) (?m (req_key r))))" for r
  have "result t = Some (answers r) \<and>
      local_spec (fst r) (snd r) (?m (req_key r)) = Some (answers r, abs_store sv' (req_key r))"
    if "at_point P ?K ?m r t sv'" "t \<in> set ts" for r t
    using ended_result [OF that(1)] assms(5) that(2) by (auto simp: answers_def list_all_iff)
  then have r: "list_all2 (\<lambda>r t. result t = Some (answers r) \<and>
      local_spec (fst r) (snd r) (?m (req_key r)) = Some (answers r, abs_store sv' (req_key r))) reqs ts"
    by (rule list.rel_mono_strong [OF a(1)])
  then have "map result ts = map (Some \<circ> answers) reqs"
    by (auto simp: list_all2_conv_all_nth intro!: nth_equalityI)
  moreover have "local_spec (fst r) (snd r) (?m (req_key r)) = Some (answers r, abs_store sv' (req_key r))"
    if "r \<in> set reqs'" for r
    using that r mset_eq_setD [OF assms(6)] by (auto simp: list_all2_conv_all_nth in_set_conv_nth)
  moreover have "mset (map req_key reqs') = mset (map req_key reqs)" using assms(6) by simp
  then have "distinct (map req_key reqs')" using d mset_eq_imp_distinct_iff by blast
  ultimately have "spec_all reqs' ?m = Some (map answers reqs', \<lambda>k. if k \<in> ?K then abs_store sv' k else ?m k)"
    using spec_all_local [of reqs' ?m answers "abs_store sv'"] mset_eq_setD [OF assms(6)] by simp
  moreover have "(\<lambda>k. if k \<in> ?K then abs_store sv' k else ?m k) = abs_store sv'" using a(2) by (simp add: fun_eq_iff)
  ultimately show ?thesis using \<open>map result ts = map (Some \<circ> answers) reqs\<close> by auto
qed

definition four_requests :: "(env \<times> request) list" where
  "four_requests = [(at 1, ReqPut ''a'' [1] None), (at 2, ReqGet ''b''), (at 3, ReqCas ''c'' [] [2] (Some 5)), (at 4, ReqDelete ''d'')]"

theorem different_keys_linearize_witness:
  "\<exists>ts sv'. rtranclp (interleave plain_ext) (map client four_requests, blank_server) (ts, sv') \<and>
     map result ts = [Some (Done True), Some (Failed (NotFound ''Key not found'')), Some (Done True), Some (Done False)] \<and>
     abs_store sv' = [''a'' \<mapsto> ([1], None), ''c'' \<mapsto> ([2], Some 8)]"
proof -
  let ?ts = "map client four_requests"
  have c: "list_all clock_ok ?ts" "lock_free ?ts" by (simp_all add: four_requests_def ttl_expiry_def)
  obtain ts sv' where t: "rtranclp (interleave plain_ext) (?ts, blank_server) (ts, sv')" "list_all ended ts"
    using can_end [OF c] by blast
  have d: "distinct (map req_key four_requests)" "\<forall>(e, req) \<in> set four_requests. separate {''a''} req"
    by (simp_all add: four_requests_def)
  have s: "spec_all four_requests Map.empty =
      Some ([Done True, Failed (NotFound ''Key not found''), Done True, Done False], [''a'' \<mapsto> ([1], None), ''c'' \<mapsto> ([2], Some 8)])"
    by (simp add: four_requests_def ttl_expiry_def fun_upd_idem)
  obtain answers where a: "spec_all four_requests (abs_store blank_server) = Some (map answers four_requests, abs_store sv')"
    "map result ts = map (Some \<circ> answers) four_requests"
    using different_keys_linearize [OF blank_serving(1) d(2,1) t refl] by blast
  have "map answers four_requests = [Done True, Failed (NotFound ''Key not found''), Done True, Done False]"
    "abs_store sv' = [''a'' \<mapsto> ([1], None), ''c'' \<mapsto> ([2], Some 8)]"
    using a(1) s by (simp_all add: blank_serving(2))
  note r = this
  have "map result ts = map Some (map answers four_requests)" using a(2) by simp
  then have "map result ts = [Some (Done True), Some (Failed (NotFound ''Key not found'')), Some (Done True), Some (Done False)]"
    unfolding r(1) by simp
  with t(1) r(2) show ?thesis by (intro exI conjI)
qed

end
