(* ===== verification/Tree_Walk.thy ===== *)
theory Tree_Walk
  imports Server_Ops
begin

text \<open>
  Walking over the entries of a skip list while others change it, as range_scan, prefix_scan, query,
  the save and the eviction task of src/server.rs do: the iterator stands at an entry and looks for
  the least key behind it when it is asked for the next one.
\<close>

section \<open>Where an iteration stands\<close>

datatype cursor = From str | After str

text \<open>The cursors are ordered as they are passed: at a key, behind it, at the next one.\<close>

instantiation cursor :: linorder
begin

fun less_eq_cursor :: "cursor \<Rightarrow> cursor \<Rightarrow> bool" where
  "From a \<le> From b \<longleftrightarrow> a \<le> b"
| "From a \<le> After b \<longleftrightarrow> a \<le> b"
| "After a \<le> From b \<longleftrightarrow> a < b"
| "After a \<le> After b \<longleftrightarrow> a \<le> b"

definition less_cursor :: "cursor \<Rightarrow> cursor \<Rightarrow> bool" where
  "c < d \<longleftrightarrow> c \<le> d \<and> \<not> d \<le> (c :: cursor)"

instance
proof
  fix a b c :: cursor
  show "a < b \<longleftrightarrow> a \<le> b \<and> \<not> b \<le> a" by (rule less_cursor_def)
  show "a \<le> a" by (cases a) simp_all
  show "a \<le> b \<or> b \<le> a" by (cases a; cases b) auto
  show "a \<le> c" if "a \<le> b" "b \<le> c" using that by (cases a; cases b; cases c) auto
  show "a = b" if "a \<le> b" "b \<le> a" using that by (cases a; cases b) auto
qed

end

definition ahead :: "cursor \<Rightarrow> str \<Rightarrow> bool" where
  "ahead c k \<longleftrightarrow> c \<le> From k"

lemma ahead_simps [simp]: "ahead (From a) k \<longleftrightarrow> a \<le> k" "ahead (After a) k \<longleftrightarrow> a < k"
  by (simp_all add: ahead_def)

lemma ahead_mono: "ahead c k \<Longrightarrow> k \<le> k' \<Longrightarrow> ahead c k'"
  by (cases c) auto

lemma ahead_later: "c \<le> d \<Longrightarrow> ahead d k \<Longrightarrow> ahead c k"
  unfolding ahead_def by (rule order_trans)

lemma After_later: "ahead c k \<Longrightarrow> c \<le> After k"
  by (cases c) auto

definition next_key :: "cursor \<Rightarrow> str fset \<Rightarrow> str option" where
  "next_key c S = (case filter (ahead c) (sorted_list_of_fset S) of [] \<Rightarrow> None | k # _ \<Rightarrow> Some k)"

definition next_entry :: "cursor \<Rightarrow> (str, 'v) fmap \<Rightarrow> (str \<times> 'v) option" where
  "next_entry c t = do { k \<leftarrow> next_key c (fmdom t); v \<leftarrow> fmlookup t k; Some (k, v) }"

lemma filter_ahead:
  assumes "sorted ks" "distinct ks" "filter (ahead c) ks = k # rest"
  shows "filter (ahead (After k)) ks = rest"
proof -
  have k: "ahead c k" using assms(3) by (metis filter_eq_Cons_iff)
  have "filter (ahead (After k)) ks = filter (ahead (After k)) (filter (ahead c) ks)"
    unfolding filter_filter by (rule filter_cong) (auto intro: ahead_mono [OF k])
  also have "\<dots> = rest"
  proof -
    have "sorted (k # rest)" "distinct (k # rest)"
      using sorted_filter [of id ks "ahead c"] distinct_filter [OF assms(2), of "ahead c"] assms(1,3) by simp_all
    then show ?thesis unfolding assms(3) by (auto intro!: filter_True simp: order_less_le)
  qed
  finally show ?thesis .
qed

lemma next_key_None: "next_key c S = None \<longleftrightarrow> (\<forall>k. k |\<in>| S \<longrightarrow> \<not> ahead c k)"
proof -
  have "next_key c S = None \<longleftrightarrow> filter (ahead c) (sorted_list_of_fset S) = []"
    by (simp add: next_key_def split: list.split)
  then show ?thesis by (auto simp: filter_empty_conv sorted_list_of_fset.rep_eq)
qed

lemma next_key_Some:
  assumes "next_key c S = Some k"
  shows "k |\<in>| S" "ahead c k" "k' |\<in>| S \<Longrightarrow> ahead c k' \<Longrightarrow> k \<le> k'"
proof -
  obtain rest where r: "filter (ahead c) (sorted_list_of_fset S) = k # rest"
    using assms by (auto simp: next_key_def split: list.splits)
  have m: "k' \<in> set (k # rest) \<longleftrightarrow> k' |\<in>| S \<and> ahead c k'" for k'
    unfolding r [symmetric] by (auto simp: sorted_list_of_fset.rep_eq)
  show "k |\<in>| S" "ahead c k" using m [of k] by simp_all
  have "sorted (k # rest)"
    using sorted_filter [of id "sorted_list_of_fset S" "ahead c"] r by (simp add: sorted_list_of_fset.rep_eq)
  then show "k' |\<in>| S \<Longrightarrow> ahead c k' \<Longrightarrow> k \<le> k'" using m [of k'] by auto
qed

lemma next_key_filter:
  assumes "filter (ahead c) (sorted_list_of_fset S) = ks"
  shows "next_key c S = (case ks of [] \<Rightarrow> None | k # _ \<Rightarrow> Some k)"
    and "ks = k # rest \<Longrightarrow> filter (ahead (After k)) (sorted_list_of_fset S) = rest"
  using assms filter_ahead [of "sorted_list_of_fset S" c]
  by (simp_all add: next_key_def sorted_list_of_fset.rep_eq split: list.split)

lemma next_entry_None: "next_entry c t = None \<longleftrightarrow> (\<forall>k r. fmlookup t k = Some r \<longrightarrow> \<not> ahead c k)"
proof -
  have "next_entry c t = None \<longleftrightarrow> next_key c (fmdom t) = None"
    using next_key_Some(1) [of c "fmdom t"] by (cases "next_key c (fmdom t)") (auto simp: next_entry_def fmlookup_dom_iff)
  then show ?thesis by (auto simp: next_key_None fmlookup_dom_iff)
qed

lemma next_entry_Some:
  assumes "next_entry c t = Some (k, r)"
  shows "fmlookup t k = Some r" "ahead c k" "fmlookup t k' = Some r' \<Longrightarrow> ahead c k' \<Longrightarrow> k \<le> k'"
proof -
  have n: "next_key c (fmdom t) = Some k" "fmlookup t k = Some r"
    using assms by (auto simp: next_entry_def bind_eq_Some_conv)
  show "fmlookup t k = Some r" "ahead c k" "fmlookup t k' = Some r' \<Longrightarrow> ahead c k' \<Longrightarrow> k \<le> k'"
    using n(2) next_key_Some [OF n(1)] by (auto simp: fmdomI)
qed

text \<open>The entries that are still ahead, in order, for a tree that does not change.\<close>

definition entries_ahead :: "cursor \<Rightarrow> (str, 'v) fmap \<Rightarrow> (str \<times> 'v) list" where
  "entries_ahead c t = filter (\<lambda>(k, v). ahead c k) (sorted_entries t)"

lemma entries_ahead_map:
  "entries_ahead c t = map (\<lambda>k. (k, the (fmlookup t k))) (filter (ahead c) (sorted_list_of_fset (fmdom t)))"
  by (simp add: entries_ahead_def sorted_entries_def filter_map comp_def)

lemma entries_ahead_all: "entries_ahead (From []) t = sorted_entries t"
  by (simp add: entries_ahead_def)

lemma entries_ahead_Nil: "entries_ahead c t = [] \<Longrightarrow> next_entry c t = None"
  by (simp add: entries_ahead_map next_entry_def next_key_def)

lemma entries_ahead_Cons:
  assumes "entries_ahead c t = e # es"
  shows "next_entry c t = Some e" "entries_ahead (After (fst e)) t = es"
proof -
  obtain k ks where f: "filter (ahead c) (sorted_list_of_fset (fmdom t)) = k # ks"
    and e: "e = (k, the (fmlookup t k))" "es = map (\<lambda>k. (k, the (fmlookup t k))) ks"
    using assms by (auto simp: entries_ahead_map)
  have "k \<in> set (filter (ahead c) (sorted_list_of_fset (fmdom t)))" by (simp add: f)
  then obtain r where "fmlookup t k = Some r" by (auto simp: sorted_list_of_fset.rep_eq fmlookup_dom_iff)
  then show "next_entry c t = Some e" by (simp add: next_entry_def next_key_def f e)
  show "entries_ahead (After (fst e)) t = es"
    unfolding entries_ahead_map next_key_filter(2) [OF f refl] using e(2)
    by (simp add: e(1) next_key_filter(2) [OF f refl])
qed

section \<open>The keys asked for\<close>

text \<open>The first key of a walk, and when its loop goes on.\<close>

datatype scan_bounds = Closed str str | Prefixed str

fun first_cursor :: "scan_bounds \<Rightarrow> cursor" where
  "first_cursor (Closed lo hi) = From lo"
| "first_cursor (Prefixed pre) = From pre"

fun goes_on :: "scan_bounds \<Rightarrow> str \<Rightarrow> bool" where
  "goes_on (Closed lo hi) k \<longleftrightarrow> k \<le> hi"
| "goes_on (Prefixed pre) k \<longleftrightarrow> starts_with k pre"

definition in_bounds :: "scan_bounds \<Rightarrow> str \<Rightarrow> bool" where
  "in_bounds b k \<longleftrightarrow> ahead (first_cursor b) k \<and> goes_on b k"

lemma in_bounds_everything [simp]: "in_bounds (Prefixed []) k"
  by (simp add: in_bounds_def starts_with_def)

lemma goes_on_below: "goes_on b k' \<Longrightarrow> k \<le> k' \<Longrightarrow> ahead (first_cursor b) k \<Longrightarrow> goes_on b k"
  by (cases b) (auto simp: starts_with_def intro: prefix_interval)

lemma takeWhile_goes_on:
  "sorted ks \<Longrightarrow> \<forall>k \<in> set ks. ahead (first_cursor b) k \<Longrightarrow> takeWhile (goes_on b) ks = filter (goes_on b) ks"
proof (induction ks)
  case (Cons k ks)
  then show ?case using goes_on_below [of b _ k] by (auto intro!: filter_False [symmetric])
qed simp

section \<open>What a walk beside writers has visited\<close>

text \<open>
  Each visit with the reading of the clock at that moment. Of the visits behind the cursor each was
  to an entry of some tree of the run, and an entry that all these trees have is among them.
\<close>

type_synonym visit = "str \<times> db_record \<times> nat option"

definition walked ::
  "nat option set \<Rightarrow> scan_bounds \<Rightarrow> (str \<Rightarrow> bool) \<Rightarrow> (str, db_record) fmap set \<Rightarrow> visit list \<Rightarrow> bool" where
  "walked T b behind M vs \<longleftrightarrow> sorted_wrt (<) (map fst vs) \<and>
     (\<forall>(k, r, now) \<in> set vs. behind k \<and> in_bounds b k \<and> now \<in> T \<and> (\<exists>t \<in> M. fmlookup t k = Some r)) \<and>
     (\<forall>k r. (\<forall>t \<in> M. fmlookup t k = Some r) \<longrightarrow> in_bounds b k \<longrightarrow> behind k \<longrightarrow> (\<exists>now. (k, r, now) \<in> set vs))"

lemma walked_grow: "walked T b behind M vs \<Longrightarrow> M \<subseteq> M' \<Longrightarrow> walked T b behind M' vs"
  unfolding walked_def by fast

lemma walked_start: "walked T b (\<lambda>k. \<not> ahead (first_cursor b) k) M []"
  by (simp add: walked_def in_bounds_def)

lemma walked_visit:
  assumes w: "walked T b (\<lambda>k. \<not> ahead c k) M vs" and "first_cursor b \<le> c"
    and n: "next_entry c t = Some (k, r)" and "goes_on b k" "t \<in> M" "now \<in> T"
  shows "walked T b (\<lambda>k'. \<not> ahead (After k) k') M (vs @ [(k, r, now)])" "first_cursor b \<le> After k"
proof -
  note n = next_entry_Some [OF n]
  have k: "in_bounds b k" using ahead_later [OF assms(2) n(2)] assms(4) by (simp add: in_bounds_def)
  have less: "k' < k" if "\<not> ahead c k'" for k' using that ahead_mono [OF n(2), of k'] by (metis linorder_not_less)
  show "first_cursor b \<le> After k" using assms(2) After_later [OF n(2)] by (rule order_trans)
  show "walked T b (\<lambda>k'. \<not> ahead (After k) k') M (vs @ [(k, r, now)])"
    unfolding walked_def
  proof (intro conjI)
    show "sorted_wrt (<) (map fst (vs @ [(k, r, now)]))"
      using w less by (auto simp: walked_def sorted_wrt_append)
    show "\<forall>(k', r', now') \<in> set (vs @ [(k, r, now)]).
        \<not> ahead (After k) k' \<and> in_bounds b k' \<and> now' \<in> T \<and> (\<exists>t \<in> M. fmlookup t k' = Some r')"
      using w less k n(1) assms(5,6) unfolding walked_def by (fastforce dest: less_imp_not_less)
    show "\<forall>k' r'. (\<forall>t \<in> M. fmlookup t k' = Some r') \<longrightarrow> in_bounds b k' \<longrightarrow> \<not> ahead (After k) k' \<longrightarrow>
        (\<exists>now'. (k', r', now') \<in> set (vs @ [(k, r, now)]))"
    proof (intro allI impI)
      fix k' r'
      assume s: "\<forall>t \<in> M. fmlookup t k' = Some r'" "in_bounds b k'" "\<not> ahead (After k) k'"
      show "\<exists>now'. (k', r', now') \<in> set (vs @ [(k, r, now)])"
      proof (cases "ahead c k'")
        case True
        then have "k' = k" "r' = r" using n(1,3) s(1,3) assms(5) by (fastforce, force)
        then show ?thesis by auto
      next
        case False
        then have "\<exists>now. (k', r', now) \<in> set vs" using w s(1,2) unfolding walked_def by blast
        then show ?thesis by auto
      qed
    qed
  qed
qed

lemma walked_stop:
  assumes "walked T b (\<lambda>k. \<not> ahead c k) M vs" "first_cursor b \<le> c" "t \<in> M"
    and "next_entry c t = None \<or> next_entry c t = Some (k, r) \<and> \<not> goes_on b k"
  shows "walked T b (\<lambda>_. True) M vs"
proof -
  have "\<not> ahead c k'" if "\<forall>t \<in> M. fmlookup t k' = Some r'" "in_bounds b k'" for k' r'
    using assms(4)
  proof
    assume "next_entry c t = None"
    then show ?thesis using that(1) assms(3) by (auto simp: next_entry_None)
  next
    assume n: "next_entry c t = Some (k, r) \<and> \<not> goes_on b k"
    then have "ahead (first_cursor b) k" using ahead_later [OF assms(2)] next_entry_Some(2) [of c t k r] by simp
    then show ?thesis
      using n that assms(3) next_entry_Some(3) [of c t k r k' r'] goes_on_below [of b k' k] by (auto simp: in_bounds_def)
  qed
  then show ?thesis using assms(1) unfolding walked_def by fast
qed

text \<open>A whole walk: what was visited, and what was not missed.\<close>

lemma walked_visited:
  "walked T b P M vs \<Longrightarrow> (k, r, now) \<in> set vs \<Longrightarrow> in_bounds b k \<and> now \<in> T \<and> (\<exists>t \<in> M. fmlookup t k = Some r)"
  unfolding walked_def by fast

lemma walked_all:
  assumes "walked T b (\<lambda>_. True) M vs" "\<And>t. t \<in> M \<Longrightarrow> fmlookup t k = Some r" "in_bounds b k"
  shows "\<exists>now \<in> T. (k, r, now) \<in> set vs"
proof -
  obtain now where "(k, r, now) \<in> set vs" using assms unfolding walked_def by blast
  then show ?thesis using walked_visited [OF assms(1)] by blast
qed

lemma walked_sorted: "walked T b P M vs \<Longrightarrow> sorted_wrt (<) (map fst vs)"
  by (simp add: walked_def)

end
