(* ===== verification/Background_Steps.thy ===== *)
theory Background_Steps
  imports Tree_Walk Recovery
begin

text \<open>
  The two background tasks of \<open>run_server\<close> (src/server.rs) cut into their accesses: the save, which
  holds the lock of the log from its beginning to its end while it walks over the tree, and the
  eviction, which walks over the tree without a lock, collects what has expired and then removes it.
  Both read the clock at every entry.
\<close>

section \<open>The save\<close>

text \<open>
  Where a save stands, with the text in its buffer. What the buffered writer writes to the
  temporary file during the loop counts as written at the end of the loop; what is left is written
  when the writer is dropped, to the file it has open, wherever that has been renamed to.
\<close>

datatype saver =
  SaveIdle
| SaveStart save_env
| SaveVisit save_env str cursor str
| SaveRename save_env str str
| SaveTruncate save_env str str
| SaveDrop save_env str str

definition write_file :: "str \<Rightarrow> str \<Rightarrow> server \<Rightarrow> server" where
  "write_file path s sv = sv\<lparr>sv_disk := (sv_disk sv)(path := Content s)\<rparr>"

definition rename_temp :: "str \<Rightarrow> str \<Rightarrow> server \<Rightarrow> server" where
  "rename_temp path s sv = sv\<lparr>sv_disk := (sv_disk sv)(path := Content s, temp_path path := Absent)\<rparr>"

definition truncate_log :: "server \<Rightarrow> server" where
  "truncate_log sv =
     (case sv_wal sv of
        Some w \<Rightarrow> (case sv_disk sv w of Content s \<Rightarrow> write_file w (snd (wal_truncate s)) sv | _ \<Rightarrow> sv)
      | None \<Rightarrow> sv)"

text \<open>\<open>None\<close> is a panic, or that no save runs.\<close>

fun saver_step :: "('n, 'z) ext_scheme \<Rightarrow> nat option \<Rightarrow> saver \<Rightarrow> server \<Rightarrow> (saver \<times> server) option" where
  "saver_step x now SaveIdle sv = None"
| "saver_step x now (SaveStart se) sv =
     (case sv_snapshot_path sv of
        None \<Rightarrow> Some (SaveIdle, sv)
      | Some path \<Rightarrow>
          if sv_wal_poisoned sv then None
          else Some (if sn_create_ok se then (SaveVisit se path (From []) [], write_file (temp_path path) [] sv)
                     else (SaveIdle, sv)))"
| "saver_step x now (SaveVisit se path c text) sv = Some
     (case next_entry c (sv_tree sv) of
        None \<Rightarrow> (SaveRename se path text, write_file (temp_path path) (take (sn_flushed se) text) sv)
      | Some (k, r) \<Rightarrow>
          (SaveVisit se path (After k)
             (if \<not> is_expired now (rec_expires r) then text @ snapshot_line x (k, r) @ [newline] else text), sv))"
| "saver_step x now (SaveRename se path text) sv = Some
     (if sn_rename_ok se then (SaveTruncate se path text, rename_temp path (take (sn_flushed se) text) sv)
      else (SaveDrop se (temp_path path) text, sv))"
| "saver_step x now (SaveTruncate se path text) sv = Some
     (SaveDrop se path text, if sn_truncate_ok se then truncate_log sv else sv)"
| "saver_step x now (SaveDrop se open_path text) sv = Some
     (SaveIdle, if sn_drop_ok se then write_file open_path text sv else sv)"

text \<open>The steps between which the lock of the log is held; the first one takes it, if there is a path to save to.\<close>

fun saving :: "saver \<Rightarrow> bool" where
  "saving SaveIdle \<longleftrightarrow> False"
| "saving (SaveStart se) \<longleftrightarrow> False"
| "saving _ \<longleftrightarrow> True"

fun run_saver ::
  "('n, 'z) ext_scheme \<Rightarrow> nat option \<Rightarrow> nat \<Rightarrow> saver \<Rightarrow> server \<Rightarrow> (saver \<times> server) option" where
  "run_saver x now 0 s sv = Some (s, sv)"
| "run_saver x now (Suc n) s sv =
     (if s = SaveIdle then Some (s, sv)
      else do { (s', sv1) \<leftarrow> saver_step x now s sv; run_saver x now n s' sv1 })"

lemma file_steps [simp]:
  "sv_tree (write_file p s sv) = sv_tree sv" "sv_tree (rename_temp p s sv) = sv_tree sv" "sv_tree (truncate_log sv) = sv_tree sv"
  "sv_cache (write_file p s sv) = sv_cache sv" "sv_cache (rename_temp p s sv) = sv_cache sv" "sv_cache (truncate_log sv) = sv_cache sv"
  "same_config sv (write_file p s sv)" "same_config sv (rename_temp p s sv)" "same_config sv (truncate_log sv)"
  "sv_wal (write_file p s sv) = sv_wal sv" "sv_wal (rename_temp p s sv) = sv_wal sv"
  "sv_disk (write_file p s sv) = (sv_disk sv)(p := Content s)"
  "sv_disk (rename_temp p s sv) = (sv_disk sv)(p := Content s, temp_path p := Absent)"
  by (simp_all add: write_file_def rename_temp_def truncate_log_def same_config_def split: option.split file_state.split)

lemma saver_step_disk_only: "saver_step x now s sv = Some (s', sv') \<Longrightarrow> \<exists>d. sv' = sv\<lparr>sv_disk := d\<rparr>"
  by (cases s) (auto simp: write_file_def rename_temp_def truncate_log_def
      split: option.splits if_splits file_state.splits intro: exI [of _ "sv_disk sv"])

text \<open>The text that a walk leaves.\<close>

definition text_of :: "('n, 'z) ext_scheme \<Rightarrow> (str \<times> db_record) list \<Rightarrow> str" where
  "text_of x es = concat (map (\<lambda>e. snapshot_line x e @ [newline]) es)"

lemma text_of_simps [simp]:
  "text_of x [] = []" "text_of x (es @ [e]) = text_of x es @ snapshot_line x e @ [newline]"
  "text_of x (e # es) = snapshot_line x e @ newline # text_of x es"
  by (simp_all add: text_of_def)

lemma run_visits:
  "entries_ahead c (sv_tree sv) = es \<Longrightarrow>
   run_saver x now (Suc (length es) + n) (SaveVisit se path c buf) sv =
     (let text1 = buf @ text_of x (filter (\<lambda>(k, r). \<not> is_expired now (rec_expires r)) es)
      in run_saver x now n (SaveRename se path text1) (write_file (temp_path path) (take (sn_flushed se) text1) sv))"
proof (induction es arbitrary: c buf)
  case Nil
  then show ?case by (simp add: entries_ahead_Nil Let_def)
next
  case (Cons e es)
  obtain k r where e: "e = (k, r)" by (cases e)
  show ?case using Cons.IH [of "After k"] entries_ahead_Cons [OF Cons.prems] by (simp add: e Let_def del: take_append)
qed

text \<open>
  A save that runs alone, on one reading of the clock, is the save in one piece.
\<close>

theorem save_steps_make_save:
  "run_saver x now (fcard (fmdom (sv_tree sv)) + 5) (SaveStart se) sv =
     map_option (Pair SaveIdle) (save_snapshot_and_truncate_wal x now se sv)"
proof (cases "sv_snapshot_path sv")
  case None
  then show ?thesis by (simp add: save_snapshot_and_truncate_wal_def numeral_eq_Suc)
next
  case (Some p)
  let ?n = "fcard (fmdom (sv_tree sv))" and ?t = "snapshot_text x now sv"
  define sv1 where "sv1 = write_file (temp_path p) [] sv"
  have l: "length (entries_ahead (From []) (sv_tree sv1)) = ?n"
    by (simp add: sv1_def entries_ahead_all sorted_entries_def sorted_list_of_fset.rep_eq fcard.rep_eq)
  have t: "text_of x (filter (\<lambda>(k, r). \<not> is_expired now (rec_expires r)) (entries_ahead (From []) (sv_tree sv1))) = ?t"
    by (simp add: sv1_def entries_ahead_all text_of_def snapshot_text_def)
  have v: "run_saver x now (?n + 4) (SaveVisit se p (From []) []) sv1 =
      run_saver x now 3 (SaveRename se p ?t) (write_file (temp_path p) (take (sn_flushed se) ?t) sv1)"
    using run_visits [OF refl, of x now "From []" sv1 3 se p "[]"] by (simp add: l t Let_def add.commute)
  have r: "run_saver x now (?n + 5) (SaveStart se) sv = (if sv_wal_poisoned sv then None
      else if sn_create_ok se then run_saver x now (?n + 4) (SaveVisit se p (From []) []) sv1 else Some (SaveIdle, sv))"
    using Some by (simp add: sv1_def numeral_eq_Suc)
  show ?thesis
    unfolding r v save_snapshot_and_truncate_wal_def Some
    by (simp add: save_disks_def sv1_def numeral_eq_Suc write_file_def rename_temp_def truncate_log_def Let_def
        split: option.split file_state.split)
qed

section \<open>The eviction\<close>

datatype evictor =
  EvictIdle
| EvictVisit cursor "(str \<times> bytes) list"
| EvictUnindex "(str \<times> bytes) list"
| EvictRemove str "(str \<times> bytes) list"

fun evictor_step :: "('n, 'z) serde_scheme \<Rightarrow> nat option \<Rightarrow> evictor \<Rightarrow> server \<Rightarrow> (evictor \<times> server) option" where
  "evictor_step x now EvictIdle sv = None"
| "evictor_step x now (EvictVisit c to_remove) sv = Some
     (case next_entry c (sv_tree sv) of
        None \<Rightarrow> EvictUnindex to_remove
      | Some (k, r) \<Rightarrow> EvictVisit (After k)
          (if is_expired now (rec_expires r) then to_remove @ [(k, rec_value r)] else to_remove), sv)"
| "evictor_step x now (EvictUnindex []) sv = Some (EvictIdle, sv)"
| "evictor_step x now (EvictUnindex ((key, val) # es)) sv =
     Some (EvictRemove key es, remove_record_from_index x key val sv)"
| "evictor_step x now (EvictRemove key es) sv = Some (EvictUnindex es, tree_remove key sv)"

fun run_evictor :: "('n, 'z) serde_scheme \<Rightarrow> nat option \<Rightarrow> nat \<Rightarrow> evictor \<Rightarrow> server \<Rightarrow> evictor \<times> server" where
  "run_evictor x now 0 ev sv = (ev, sv)"
| "run_evictor x now (Suc n) ev sv =
     (case evictor_step x now ev sv of Some (ev', sv1) \<Rightarrow> run_evictor x now n ev' sv1 | None \<Rightarrow> (ev, sv))"

lemma run_collecting:
  "entries_ahead c (sv_tree sv) = es \<Longrightarrow>
   run_evictor x now (Suc (length es) + n) (EvictVisit c found) sv =
     run_evictor x now n (EvictUnindex (found @ map (\<lambda>(k, r). (k, rec_value r))
       (filter (\<lambda>(k, r). is_expired now (rec_expires r)) es))) sv"
proof (induction es arbitrary: c found)
  case Nil
  then show ?case by (simp add: entries_ahead_Nil)
next
  case (Cons e es)
  obtain k r where e: "e = (k, r)" by (cases e)
  show ?case using Cons.IH [of "After k"] entries_ahead_Cons [OF Cons.prems] by (simp add: e)
qed

lemma run_removing:
  "run_evictor x now (Suc (2 * length es)) (EvictUnindex es) sv =
     (EvictIdle, fold (\<lambda>(key, val) s. tree_remove key (remove_record_from_index x key val s)) es sv)"
proof (induction es arbitrary: sv)
  case (Cons e es)
  obtain k v where e: "e = (k, v)" by (cases e)
  have n: "Suc (2 * length (e # es)) = Suc (Suc (Suc (2 * length es)))" by simp
  show ?case unfolding n using Cons.IH by (simp add: e del: run_evictor.simps add: run_evictor.simps(2) [of x now "Suc _"])
qed simp

text \<open>A round of the eviction that runs alone, on one reading of the clock, is the sweep in one piece.\<close>

theorem eviction_steps_make_sweep:
  "run_evictor x now (fcard (fmdom (sv_tree sv)) + 2 * length (expired_entries now sv) + 2) (EvictVisit (From []) []) sv =
     (EvictIdle, evict_expired x now sv)"
proof -
  have l: "length (entries_ahead (From []) (sv_tree sv)) = fcard (fmdom (sv_tree sv))"
    by (simp add: entries_ahead_all sorted_entries_def sorted_list_of_fset.rep_eq fcard.rep_eq)
  have f: "map (\<lambda>(k, r). (k, rec_value r)) (filter (\<lambda>(k, r). is_expired now (rec_expires r))
      (entries_ahead (From []) (sv_tree sv))) = expired_entries now sv"
    by (simp add: entries_ahead_all expired_entries_def)
  have n: "fcard (fmdom (sv_tree sv)) + 2 * length (expired_entries now sv) + 2 =
      Suc (fcard (fmdom (sv_tree sv))) + Suc (2 * length (expired_entries now sv))" by simp
  show ?thesis
    using run_collecting [OF refl, of x now "From []" sv "Suc (2 * length (expired_entries now sv))" "[]"]
      run_removing [of x now "expired_entries now sv" sv]
    unfolding l f n by (simp only: append_Nil evict_expired_def)
qed

end
