(* ===== verification/Scan_Steps.thy ===== *)
theory Scan_Steps
  imports Tree_Walk Scan_Properties
begin

text \<open>
  The three handlers that walk over many records (src/server.rs), cut into the visits of single
  entries: range_scan and prefix_scan step through the tree, query through one index set and looks
  each key up in the tree. They hold no lock, so any other task may run between two visits, and they
  read the clock at each.
\<close>

section \<open>Steps\<close>

text \<open>
  A running scan or query: the entry that comes next, and the records pushed so far. A query has
  the numbers of keys that it still skips and takes.
\<close>

datatype reader =
  ScanNext scan_bounds "scan_filter list" cursor "kv_record list"
| QueryStart str "u32 option" "u32 option"
| QueryNext str nat nat cursor "kv_record list"
| QueryLookup str nat str "kv_record list"
| ReaderEnd "kv_record list"

fun reader_step :: "('n, 'z) serde_scheme \<Rightarrow> nat option \<Rightarrow> reader \<Rightarrow> server \<Rightarrow> reader option" where
  "reader_step x now (ScanNext b filters c records) sv = Some
     (case next_entry c (sv_tree sv) of
        None \<Rightarrow> ReaderEnd records
      | Some (k, r) \<Rightarrow>
          if goes_on b k
          then ScanNext b filters (After k)
                 (if \<not> is_expired now (rec_expires r) \<and> matches_filters x (rec_value r) filters
                  then records @ [answer (k, r)] else records)
          else ReaderEnd records)"
| "reader_step x now (QueryStart idx_key limit offset) sv = Some
     (case fmlookup (sv_indexes sv) idx_key of
        None \<Rightarrow> ReaderEnd []
      | Some _ \<Rightarrow> QueryNext idx_key (case offset of Some n \<Rightarrow> unat n | None \<Rightarrow> 0)
                   (case limit of Some n \<Rightarrow> unat n | None \<Rightarrow> 100) (From []) [])"
| "reader_step x now (QueryNext idx_key skip limit c records) sv = Some
     (if limit = 0 then ReaderEnd records
      else (case next_key c (case fmlookup (sv_indexes sv) idx_key of Some skip_set \<Rightarrow> skip_set | None \<Rightarrow> {||}) of
              None \<Rightarrow> ReaderEnd records
            | Some k \<Rightarrow> if 0 < skip then QueryNext idx_key (skip - 1) limit (After k) records
                       else QueryLookup idx_key (limit - 1) k records))"
| "reader_step x now (QueryLookup idx_key limit k records) sv = Some
     (QueryNext idx_key 0 limit (After k)
        (case fmlookup (sv_tree sv) k of
           Some r \<Rightarrow> if \<not> is_expired now (rec_expires r) then records @ [answer (k, r)] else records
         | None \<Rightarrow> records))"
| "reader_step x now (ReaderEnd records) sv = None"

text \<open>A scan that runs alone.\<close>

fun run_reader :: "('n, 'z) serde_scheme \<Rightarrow> nat option \<Rightarrow> nat \<Rightarrow> reader \<Rightarrow> server \<Rightarrow> reader" where
  "run_reader x now 0 rd sv = rd"
| "run_reader x now (Suc n) rd sv = (case reader_step x now rd sv of Some rd' \<Rightarrow> run_reader x now n rd' sv | None \<Rightarrow> rd)"

lemma run_reader_end [simp]: "run_reader x now n (ReaderEnd rs) sv = ReaderEnd rs"
  by (cases n) simp_all

lemma run_reader_Suc: "run_reader x now n rd sv = ReaderEnd rs \<Longrightarrow> run_reader x now (Suc n) rd sv = ReaderEnd rs"
proof (induction n arbitrary: rd)
  case (Suc n)
  then show ?case
    by (cases "reader_step x now rd sv")
      (simp_all only: run_reader.simps(2) [of x now _ rd] option.case run_reader_end)
qed simp

lemma run_reader_le: "run_reader x now n rd sv = ReaderEnd rs \<Longrightarrow> n \<le> m \<Longrightarrow> run_reader x now m rd sv = ReaderEnd rs"
  by (rotate_tac 1, induction m rule: dec_induct) (simp_all only: run_reader_Suc)

lemma run_scan:
  "entries_ahead c (sv_tree sv) = es \<Longrightarrow>
   run_reader x now (Suc (length es)) (ScanNext b filters c records) sv = ReaderEnd (records @
     map answer (filter (\<lambda>(k, r). live now r \<and> matches_filters x (rec_value r) filters)
       (takeWhile (\<lambda>(k, r). goes_on b k) es)))"
proof (induction es arbitrary: c records)
  case Nil
  then show ?case by (simp add: entries_ahead_Nil)
next
  case (Cons e es)
  obtain k r where e: "e = (k, r)" by (cases e)
  show ?case
    using Cons.IH [of "After k"] entries_ahead_Cons [OF Cons.prems] by (simp add: e live_def)
qed

lemma run_query:
  assumes "fmlookup (sv_indexes sv) i = Some S" "filter (ahead c) (sorted_list_of_fset S) = ks"
  shows "run_reader x now (Suc (2 * length ks)) (QueryNext i skip limit c records) sv = ReaderEnd (records @
    map answer (filter (\<lambda>(k, r). live (now) r)
      (List.map_filter (\<lambda>k. map_option (\<lambda>r. (k, r)) (fmlookup (sv_tree sv) k)) (take limit (drop skip ks)))))"
  using assms(2)
proof (induction ks arbitrary: c skip limit records)
  case Nil
  then show ?case by (simp add: assms(1) next_key_filter(1) [OF Nil] map_filter_simps)
next
  case (Cons k ks)
  note n = next_key_filter(1) [OF Cons.prems] and IH = Cons.IH [OF next_key_filter(2) [OF Cons.prems refl]]
  show ?case
  proof (cases limit)
    case 0
    then show ?thesis by (simp add: map_filter_simps)
  next
    case (Suc l)
    show ?thesis
    proof (cases skip)
      case 0
      then show ?thesis using Suc IH by (simp add: assms(1) n map_filter_simps live_def split: option.split)
    next
      case (Suc s)
      have "run_reader x now (Suc (2 * length (k # ks))) (QueryNext i skip limit c records) sv =
          run_reader x now (Suc (Suc (2 * length ks))) (QueryNext i s limit (After k) records) sv"
        using Suc \<open>limit = _\<close> by (simp add: assms(1) n)
      then show ?thesis using run_reader_Suc [OF IH] Suc by simp
    qed
  qed
qed

lemma run_scan_all:
  "run_reader x now (Suc (fcard (fmdom (sv_tree sv)))) (ScanNext b filters (first_cursor b) []) sv = ReaderEnd (
    map answer (filter (\<lambda>(k, r). live now r \<and> matches_filters x (rec_value r) filters)
      (filter (\<lambda>(k, r). ahead (first_cursor b) k \<and> goes_on b k) (sorted_entries (sv_tree sv)))))"
proof -
  let ?es = "entries_ahead (first_cursor b) (sv_tree sv)"
  let ?ks = "filter (ahead (first_cursor b)) (sorted_list_of_fset (fmdom (sv_tree sv)))"
  have "length (sorted_entries (sv_tree sv)) = fcard (fmdom (sv_tree sv))"
    by (simp add: sorted_entries_def sorted_list_of_fset.rep_eq fcard.rep_eq)
  then have l: "length ?es \<le> fcard (fmdom (sv_tree sv))"
    using length_filter_le [of _ "sorted_entries (sv_tree sv)"] by (metis entries_ahead_def)
  have "takeWhile (goes_on b) ?ks = filter (goes_on b) ?ks"
    by (rule takeWhile_goes_on) (simp_all add: sorted_list_of_fset.rep_eq sorted_wrt_filter)
  then have t: "takeWhile (\<lambda>(k, r). goes_on b k) ?es = filter (\<lambda>(k, r). goes_on b k) ?es"
    by (simp add: entries_ahead_map takeWhile_map filter_map comp_def)
  have f: "filter (\<lambda>(k, r). ahead (first_cursor b) k \<and> goes_on b k) (sorted_entries (sv_tree sv)) =
      filter (\<lambda>(k, r). goes_on b k) ?es"
    unfolding entries_ahead_def filter_filter by (rule filter_cong) auto
  show ?thesis
    using run_reader_le [OF run_scan [OF refl, where c = "first_cursor b" and sv = sv and x = x and now = now and b = b
        and filters = filters and records = "[]"], of "Suc (fcard (fmdom (sv_tree sv)))"] l
    unfolding f t by (simp del: run_reader.simps)
qed

text \<open>
  The scans and queries that run alone are the handlers: visiting the entries one by one, each
  answers what the handler answers in one step.
\<close>

theorem reader_steps_make_handlers:
  "(range_scan x e lo hi filters sv = Some (Inr rs, sv) \<longleftrightarrow>
     run_reader x (en_now e) (Suc (fcard (fmdom (sv_tree sv)))) (ScanNext (Closed lo hi) filters (From lo) []) sv = ReaderEnd rs) \<and>
   (prefix_scan x e pre filters sv = Some (Inr rs, sv) \<longleftrightarrow>
     run_reader x (en_now e) (Suc (fcard (fmdom (sv_tree sv)))) (ScanNext (Prefixed pre) filters (From pre) []) sv = ReaderEnd rs) \<and>
   (query e schema_type field val limit offset sv = Some (Inr rs, sv) \<longleftrightarrow>
     run_reader x (en_now e) (Suc (Suc (2 * (case fmlookup (sv_indexes sv) (index_key schema_type field val) of
         Some S \<Rightarrow> fcard S | None \<Rightarrow> 0))))
       (QueryStart (index_key schema_type field val) limit offset) sv = ReaderEnd rs)"
proof (intro conjI)
  show "range_scan x e lo hi filters sv = Some (Inr rs, sv) \<longleftrightarrow>
     run_reader x (en_now e) (Suc (fcard (fmdom (sv_tree sv)))) (ScanNext (Closed lo hi) filters (From lo) []) sv = ReaderEnd rs"
    using run_scan_all [of x "en_now e" sv "Closed lo hi" filters] by (simp add: range_scan_def tree_range_def del: run_reader.simps)
  have "filter (\<lambda>(k, r). prefix pre k \<and> live (en_now e) r \<and> matches_filters x (rec_value r) filters)
      (sorted_entries (sv_tree sv)) =
    filter (\<lambda>(k, r). live (en_now e) r \<and> matches_filters x (rec_value r) filters)
      (filter (\<lambda>(k, r). pre \<le> k \<and> starts_with k pre) (sorted_entries (sv_tree sv)))"
    unfolding filter_filter by (rule filter_cong) (auto simp: starts_with_def intro: prefix_le)
  then show "prefix_scan x e pre filters sv = Some (Inr rs, sv) \<longleftrightarrow>
     run_reader x (en_now e) (Suc (fcard (fmdom (sv_tree sv)))) (ScanNext (Prefixed pre) filters (From pre) []) sv = ReaderEnd rs"
    using run_scan_all [of x "en_now e" sv "Prefixed pre" filters]
    by (simp add: prefix_scan_def scan_prefix_range del: run_reader.simps)
  let ?i = "index_key schema_type field val"
  show "query e schema_type field val limit offset sv = Some (Inr rs, sv) \<longleftrightarrow>
     run_reader x (en_now e) (Suc (Suc (2 * (case fmlookup (sv_indexes sv) ?i of Some S \<Rightarrow> fcard S | None \<Rightarrow> 0))))
       (QueryStart ?i limit offset) sv = ReaderEnd rs"
  proof (cases "fmlookup (sv_indexes sv) ?i")
    case None
    then show ?thesis by (auto simp: query_def)
  next
    case (Some S)
    have f: "filter (ahead (From [])) (sorted_list_of_fset S) = sorted_list_of_fset S" by simp
    have l: "length (sorted_list_of_fset S) = fcard S" by (simp add: sorted_list_of_fset.rep_eq fcard.rep_eq)
    show ?thesis
      using run_query [OF Some f, where x = x and now = "en_now e" and records = "[]"] Some
      unfolding l by (simp add: query_def Let_def run_reader.simps(2) [of x "en_now e" _ "QueryStart ?i limit offset"] del: run_reader.simps)
  qed
qed

end
