(* ===== verification/Entry_Point.thy ===== *)
theory Entry_Point
  imports Recovery
begin

text \<open>
  Starting a node: the arguments and environment variables of src/main.rs, the server that
  \<open>run_server\<close> sets up, and the address the replica loop connects to (src/replica.rs). The gRPC
  server, the timers of the background tasks and the tasks themselves are not part of it.
\<close>

definition replica_flag :: str where
  "replica_flag = ''--replica-of''"

text \<open>The loop over the arguments: the flag takes the next argument, if there is one.\<close>

fun parse_args :: "str option \<Rightarrow> str list \<Rightarrow> str option" where
  "parse_args replica_of [] = replica_of"
| "parse_args replica_of [arg] = (if arg = replica_flag then None else replica_of)"
| "parse_args replica_of (arg # next # args) =
     (if arg = replica_flag then parse_args (Some next) args else parse_args replica_of (next # args))"

text \<open>\<open>env::var(name).unwrap_or_else(...)\<close>.\<close>

definition env_or :: "(str \<rightharpoonup> str) \<Rightarrow> str \<Rightarrow> str \<Rightarrow> str" where
  "env_or vars name fallback = (case vars name of Some v \<Rightarrow> v | None \<Rightarrow> fallback)"

record launch =
  la_snapshot :: str
  la_schema :: str
  la_wal :: str
  la_is_replica :: bool
  la_vars :: "str \<rightharpoonup> str"

definition launch_of :: "str list \<Rightarrow> (str \<rightharpoonup> str) \<Rightarrow> launch" where
  "launch_of args vars =
     (let replica_of = parse_args None args;
          vars1 = (case replica_of of Some leader \<Rightarrow> vars(''KIND_REPLICA_OF'' \<mapsto> leader) | None \<Rightarrow> vars)
      in \<lparr>la_snapshot = env_or vars1 ''KIND_SNAPSHOT_PATH'' ''kind_snapshot.json'',
          la_schema = env_or vars1 ''KIND_SCHEMA_PATH'' ''schema.ksl'',
          la_wal = env_or vars1 ''KIND_WAL_PATH'' ''kind.wal'',
          la_is_replica = (replica_of \<noteq> None), la_vars = vars1\<rparr>)"

definition leader_host :: "str \<Rightarrow> str" where
  "leader_host leader_addr = (if starts_with leader_addr ''http'' then leader_addr else ''http://'' @ leader_addr)"

text \<open>The server of a node, and the leader it follows.\<close>

definition run_server ::
  "('n, 'z) ext_scheme \<Rightarrow> nat option \<Rightarrow> bool \<Rightarrow> launch \<Rightarrow> (str \<Rightarrow> file_state) \<Rightarrow> (server \<times> str option) option" where
  "run_server x now creatable la disk = do {
     sv \<leftarrow> server_new x now creatable (Some (la_snapshot la)) (Some (la_schema la)) (Some (la_wal la)) (la_is_replica la) disk;
     Some (sv, if la_is_replica la then map_option leader_host (la_vars la ''KIND_REPLICA_OF'') else None)
   }"

text \<open>The flag is found after arguments of other kinds.\<close>

lemma parse_args_last:
  "leader \<noteq> replica_flag \<Longrightarrow> replica_flag \<notin> set args \<Longrightarrow> parse_args r (args @ [replica_flag, leader]) = Some leader"
proof (induction r args rule: parse_args.induct)
  case (3 r arg next' args)
  then show ?case by (cases args) auto
qed simp_all

text \<open>
  A node always starts; it is a replica exactly if it has a leader to follow, and the environment
  variable alone does not make it one.
\<close>

lemma node_role:
  "\<exists>sv leader. run_server x now creatable (launch_of args vars) disk = Some (sv, leader) \<and>
     leader = map_option leader_host (parse_args None args) \<and> (sv_is_replica sv \<longleftrightarrow> leader \<noteq> None)"
proof -
  obtain sv where "server_new x now creatable (Some (la_snapshot (launch_of args vars))) (Some (la_schema (launch_of args vars)))
      (Some (la_wal (launch_of args vars))) (la_is_replica (launch_of args vars)) disk = Some sv"
    using server_new_total by blast
  moreover from server_new_paths [OF this] have "sv_is_replica sv \<longleftrightarrow> parse_args None args \<noteq> None"
    by (simp add: launch_of_def Let_def)
  ultimately show ?thesis
    by (cases "parse_args None args") (auto simp: run_server_def launch_of_def Let_def)
qed

end
