(* ===== verification/Node.thy ===== *)
theory Node
  imports Background_Steps Scan_Steps Replication Progress_Properties Entry_Point
begin

text \<open>
  A running node: what \<open>run_server\<close> (src/server.rs) sets going on one server. Handlers are called
  at any time and run side by side, scans and queries visit their entries, the timers start a save
  and a round of the eviction whenever the one before has ended, and on a replica the loop of
  src/replica.rs takes messages of its leader. Every access that another task may come before or
  after is a step; the lock of the log excludes the handlers that need it, the save and the replica's
  commands from each other. A message of the leader is one step.
\<close>

section \<open>Configurations\<close>

record node =
  nd_tasks :: "task list"
  nd_readers :: "reader list"
  nd_saver :: saver
  nd_evictor :: evictor
  nd_server :: server

text \<open>Calls as they come in.\<close>

fun called :: "task \<Rightarrow> bool" where
  "called (PutTask e key val ttl_ms PutStart) \<longleftrightarrow> True"
| "called (DeleteTask e key DeleteStart) \<longleftrightarrow> True"
| "called (GetTask e key GetStart) \<longleftrightarrow> True"
| "called (CasTask e key expected new_val ttl_ms CasStart) \<longleftrightarrow> True"
| "called (CommitTask e it tx CommitStart) \<longleftrightarrow> True"
| "called _ \<longleftrightarrow> False"

fun asked :: "reader \<Rightarrow> bool" where
  "asked (ScanNext b filters c records) \<longleftrightarrow> c = first_cursor b \<and> records = []"
| "asked (QueryStart idx_key limit offset) \<longleftrightarrow> True"
| "asked _ \<longleftrightarrow> False"

text \<open>\<open>apply_command\<close> takes the lock; a chunk of a snapshot is installed without it.\<close>

fun needs_lock :: "sync_payload \<Rightarrow> bool" where
  "needs_lock (Snapshot records max_tx_id) \<longleftrightarrow> False"
| "needs_lock (WalRecord tx_id json) \<longleftrightarrow> True"

section \<open>Steps\<close>

text \<open>
  What the tasks that are there do; the clock shows the readings \<open>T\<close>, and a call carries its own.
\<close>

inductive node_work :: "('n, 'z) ext_scheme \<Rightarrow> nat option set \<Rightarrow> node \<Rightarrow> node \<Rightarrow> bool" for x T where
  turn: "nd_tasks nd = ts @ t # us \<Longrightarrow> task_step x t (nd_server nd) = Some (t', sv) \<Longrightarrow>
    takes_lock t \<longrightarrow> lock_free (ts @ us) \<and> \<not> saving (nd_saver nd) \<Longrightarrow>
    node_work x T nd (nd\<lparr>nd_tasks := ts @ t' # us, nd_server := sv\<rparr>)"
| read: "i < length (nd_readers nd) \<Longrightarrow> now \<in> T \<Longrightarrow>
    reader_step x now (nd_readers nd ! i) (nd_server nd) = Some rd \<Longrightarrow>
    node_work x T nd (nd\<lparr>nd_readers := (nd_readers nd)[i := rd]\<rparr>)"
| save: "now \<in> T \<Longrightarrow> saver_step x now (nd_saver nd) (nd_server nd) = Some (s, sv) \<Longrightarrow>
    saving (nd_saver nd) \<or> sv_snapshot_path (nd_server nd) = None \<or> lock_free (nd_tasks nd) \<Longrightarrow>
    node_work x T nd (nd\<lparr>nd_saver := s, nd_server := sv\<rparr>)"
| evict: "now \<in> T \<Longrightarrow> evictor_step x now (nd_evictor nd) (nd_server nd) = Some (ev, sv) \<Longrightarrow>
    node_work x T nd (nd\<lparr>nd_evictor := ev, nd_server := sv\<rparr>)"

text \<open>What comes from outside: calls, the ticks of the two timers, and on a replica messages of its leader.\<close>

inductive node_input :: "('n, 'z) ext_scheme \<Rightarrow> node \<Rightarrow> node \<Rightarrow> bool" for x where
  call: "called t \<Longrightarrow> node_input x nd (nd\<lparr>nd_tasks := nd_tasks nd @ [t]\<rparr>)"
| ask: "asked rd \<Longrightarrow> node_input x nd (nd\<lparr>nd_readers := nd_readers nd @ [rd]\<rparr>)"
| save_tick: "nd_saver nd = SaveIdle \<Longrightarrow> node_input x nd (nd\<lparr>nd_saver := SaveStart se\<rparr>)"
| evict_tick: "nd_evictor nd = EvictIdle \<Longrightarrow> node_input x nd (nd\<lparr>nd_evictor := EvictVisit (From []) []\<rparr>)"
| message: "sv_is_replica (nd_server nd) \<Longrightarrow> replica_step x e p (nd_server nd) = Some (go, sv) \<Longrightarrow>
    needs_lock p \<longrightarrow> lock_free (nd_tasks nd) \<and> \<not> saving (nd_saver nd) \<Longrightarrow>
    node_input x nd (nd\<lparr>nd_server := sv\<rparr>)"

definition node_step :: "('n, 'z) ext_scheme \<Rightarrow> nat option set \<Rightarrow> node \<Rightarrow> node \<Rightarrow> bool" where
  "node_step x T nd nd' \<longleftrightarrow> node_work x T nd nd' \<or> node_input x nd nd'"

definition node_start :: "server \<Rightarrow> node" where
  "node_start sv = \<lparr>nd_tasks = [], nd_readers = [], nd_saver = SaveIdle, nd_evictor = EvictIdle, nd_server = sv\<rparr>"

section \<open>What the steps leave alone\<close>

text \<open>No step touches the configuration, and a sound cache stays so.\<close>

definition kept :: "server \<Rightarrow> server \<Rightarrow> bool" where
  "kept sv sv' \<longleftrightarrow> same_config sv sv' \<and> (lru_inv (sv_cache sv) \<longrightarrow> lru_inv (sv_cache sv'))"

lemma kept_refl [simp]: "kept sv sv"
  by (simp add: kept_def)

lemma kept_trans: "kept a b \<Longrightarrow> kept b c \<Longrightarrow> kept a c"
  using same_config_trans by (auto simp: kept_def)

lemma helper_kept [simp]:
  "kept sv (remove_record_from_index x k v sv)" "kept sv (index_record x k v sv)" "kept sv (tree_insert k r sv)"
  "kept sv (tree_remove k sv)" "kept sv (send_watch k w op sv)" "kept sv (send_sync n c sv)"
  "kept sv (if b then sv else log_command y out n c sv)" "kept sv (log_command y out n c sv)"
  "kept sv (sv\<lparr>sv_global_version := g\<rparr>)" "kept sv (unindex_old x k sv)"
  by (simp_all add: kept_def same_config_def step_defs split: option.split)

lemma cache_kept:
  "cache_put k v sv = Some sv' \<Longrightarrow> kept sv sv'" "cache_invalidate k sv = Some sv' \<Longrightarrow> kept sv sv'"
  "lru_get k (sv_cache sv) = Some (hit, c) \<Longrightarrow> kept sv (sv\<lparr>sv_cache := c\<rparr>)"
  using cache_steps(1) [of sv k v] cache_steps(2,3) [of sv k]
  by (auto simp: kept_def same_config_def cache_put_def cache_invalidate_def bind_eq_Some_conv)

text \<open>The steps of tasks that neither hold nor take the lock leave the files alone.\<close>

definition unlocked :: "task \<Rightarrow> bool" where
  "unlocked t \<longleftrightarrow> \<not> holds_lock t \<and> \<not> takes_lock t"

lemma helper_disk [simp]:
  "sv_disk (remove_record_from_index x k v sv) = sv_disk sv" "sv_disk (index_record x k v sv) = sv_disk sv"
  "sv_disk (tree_insert k r sv) = sv_disk sv" "sv_disk (tree_remove k sv) = sv_disk sv"
  "sv_disk (send_watch k w op sv) = sv_disk sv" "sv_disk (send_sync n c sv) = sv_disk sv"
  by (simp_all add: step_defs)

lemma cache_disk:
  "cache_put k v sv = Some sv' \<Longrightarrow> sv_disk sv' = sv_disk sv" "cache_invalidate k sv = Some sv' \<Longrightarrow> sv_disk sv' = sv_disk sv"
  by (auto simp: cache_put_def cache_invalidate_def bind_eq_Some_conv)

lemma put_step_kept:
  assumes "put_step x e k v ttl p sv = Some (p', sv')"
  shows "kept sv sv' \<and> (unlocked (PutTask e k v ttl p) \<longrightarrow> sv_disk sv' = sv_disk sv)"
proof (cases p)
  case (PutUnindex ex old)
  then show ?thesis using assms by (cases old) auto
next
  case (PutCache ex)
  then show ?thesis using assms cache_kept(1) cache_disk(1) by (auto simp: bind_eq_Some_conv split: if_splits)
next
  case (PutNumber ex)
  then show ?thesis using assms by (auto simp: next_version_def Let_def)
qed (use assms in \<open>auto simp: unlocked_def bind_eq_Some_conv split: if_splits\<close>)

lemma delete_step_kept:
  assumes "delete_step x e k p sv = Some (p', sv')"
  shows "kept sv sv' \<and> (unlocked (DeleteTask e k p) \<longrightarrow> sv_disk sv' = sv_disk sv)"
proof (cases p)
  case DeleteInvalidate
  then show ?thesis using assms cache_kept(2) cache_disk(2) by auto
next
  case DeleteNumber
  then show ?thesis using assms by (auto simp: next_version_def Let_def)
qed (use assms in \<open>auto simp: unlocked_def split: if_splits option.splits\<close>)

lemma cas_step_kept:
  assumes "cas_step x e k old new ttl p sv = Some (p', sv')"
  shows "kept sv sv' \<and> (unlocked (CasTask e k old new ttl p) \<longrightarrow> sv_disk sv' = sv_disk sv)"
proof (cases p)
  case (CasInvalidate ex)
  then show ?thesis using assms cache_kept(2) cache_disk(2) by auto
next
  case (CasNumber ex)
  then show ?thesis using assms by (auto simp: next_version_def Let_def)
qed (use assms in \<open>auto simp: unlocked_def split: if_splits option.splits\<close>)

lemma commit_step_kept:
  assumes "commit_step x e it tx p sv = Some (p', sv')"
  shows "kept sv sv' \<and> (unlocked (CommitTask e it tx p) \<longrightarrow> sv_disk sv' = sv_disk sv)"
proof (cases p)
  case (CommitUnindex n k v old ws)
  then show ?thesis using assms by (cases old) auto
next
  case (CommitInvalidate n k ws)
  then show ?thesis using assms cache_kept(2) cache_disk(2) by auto
next
  case CommitNumber
  then show ?thesis using assms by (auto simp: next_version_def Let_def)
qed (use assms in \<open>cases "(x, e, it, tx, p, sv)" rule: commit_step.cases;
  auto simp: unlocked_def split: if_splits option.splits\<close>)+

lemma task_step_kept:
  assumes "task_step x t sv = Some (t', sv')"
  shows "kept sv sv' \<and> (unlocked t \<longrightarrow> sv_disk sv' = sv_disk sv)"
proof (cases t)
  case (PutTask e k v ttl p)
  then show ?thesis using assms put_step_kept by fastforce
next
  case (DeleteTask e k p)
  then show ?thesis using assms delete_step_kept by fastforce
next
  case (GetTask e k p)
  then obtain p' where "get_step x e k p sv = Some (p', sv')" using assms by auto
  then show ?thesis using cache_kept(3) by (cases p) (auto simp: bind_eq_Some_conv)
next
  case (SweepTask p)
  then show ?thesis using assms by (cases "(x, p, sv)" rule: sweep_step.cases) auto
next
  case (CasTask e k old new ttl p)
  then show ?thesis using assms cas_step_kept by fastforce
next
  case (CommitTask e it tx p)
  then show ?thesis using assms commit_step_kept by fastforce
qed

lemma saver_step_kept: "saver_step x now s sv = Some (s', sv') \<Longrightarrow> kept sv sv'"
  using saver_step_disk_only [of x now s sv s' sv'] by (auto simp: kept_def same_config_def)

lemma evictor_step_kept: "evictor_step x now ev sv = Some (ev', sv') \<Longrightarrow> kept sv sv' \<and> sv_disk sv' = sv_disk sv"
  by (cases "(x, now, ev, sv)" rule: evictor_step.cases) auto

text \<open>Every message is handled.\<close>

lemma log_only_kept: "log_only log \<Longrightarrow> kept sv (log sv)"
  unfolding log_only_def kept_def same_config_def by (metis server.select_convs server.surjective server.update_convs(13))

lemma apply_write_kept:
  assumes "lru_inv (sv_cache sv)" "log_only log"
  shows "\<exists>sv'. apply_write_command x log tx c sv = Some sv' \<and> kept sv sv'"
proof (cases c)
  case (Put k v ex)
  then show ?thesis
    using apply_put_spec [OF assms, of x tx k v ex] by (auto simp: apply_write_command_def kept_def)
next
  case (Delete k)
  obtain sv' where "apply_delete x k sv = Some sv'" "kept sv sv'"
    using apply_delete_spec [OF assms(1), of x k] by (auto simp: kept_def)
  then show ?thesis using Delete log_only_kept [OF assms(2)] kept_trans by (auto simp: apply_write_command_def)
qed (simp add: apply_write_command_def)

lemma apply_subcommands_kept:
  "lru_inv (sv_cache sv) \<Longrightarrow> \<exists>sv'. apply_subcommands x tx cs sv = Some sv' \<and> kept sv sv'"
proof (induction cs arbitrary: sv)
  case (Cons c cs)
  obtain sv1 where s: "apply_write_command x (\<lambda>s. s) tx c sv = Some sv1" "kept sv sv1"
    using apply_write_kept [OF Cons.prems log_only_id] by blast
  then obtain sv' where "apply_subcommands x tx cs sv1 = Some sv'" "kept sv1 sv'"
    using Cons.IH [of sv1] Cons.prems by (auto simp: kept_def)
  then show ?case using s kept_trans by auto
qed simp

lemma apply_command_kept:
  assumes "lru_inv (sv_cache sv)" "\<not> sv_wal_poisoned sv"
  shows "\<exists>sv'. apply_command x e tx c sv = Some sv' \<and> kept sv sv'"
proof -
  let ?log = "log_command x (en_wal e) tx c"
  note lo = log_only_command [of x "en_wal e" tx c]
  have l: "lru_inv (sv_cache (?log sv))" using log_only_kept [OF lo, of sv] assms(1) by (simp add: kept_def)
  obtain s where "(case c of TxCommit cs \<Rightarrow> apply_subcommands x tx cs (?log sv)
      | _ \<Rightarrow> apply_write_command x ?log tx c sv) = Some s" "kept sv s"
    using apply_write_kept [OF assms(1) lo, of x tx c] apply_subcommands_kept [OF l, of x tx] kept_trans [OF log_only_kept [OF lo]]
    by (cases c) fastforce+
  then show ?thesis using assms(2) kept_trans [of sv s] by (auto simp: apply_command_def Let_def)
qed

lemma install_kept: "kept sv (install_chunk x rs n sv)"
proof -
  have "kept sv (fold (install_record x n) rs sv)"
  proof (induction rs arbitrary: sv)
    case (Cons r rs)
    have "kept sv (install_record x n r sv)"
      unfolding install_record_def by (rule kept_trans [OF helper_kept(3) helper_kept(2)])
    then show ?case using kept_trans [OF _ Cons.IH] by simp
  qed simp
  then show ?thesis unfolding install_chunk_def using kept_trans helper_kept(9) by blast
qed

lemma replica_step_kept:
  assumes "lru_inv (sv_cache sv)" "\<not> sv_wal_poisoned sv"
  shows "\<exists>go sv'. replica_step x e p sv = Some (go, sv') \<and> kept sv sv'"
proof (cases p)
  case (Snapshot rs n)
  then show ?thesis using install_kept by (auto simp: replica_step_def)
next
  case (WalRecord n json)
  show ?thesis
    using apply_command_kept [OF assms] by (fastforce simp: replica_step_def WalRecord Let_def split: option.split)
qed

end
