(* ===== verification/Node_Properties.thy ===== *)
theory Node_Properties
  imports Node
begin

text \<open>
  What holds on a node at every moment: the lock of the log has one holder at most and is never
  poisoned, no task but a call with a clock before the epoch panics, and without new calls all the
  tasks that are there come to their end.
\<close>

section \<open>The lock\<close>

definition node_ok :: "node \<Rightarrow> bool" where
  "node_ok nd \<longleftrightarrow> lru_inv (sv_cache (nd_server nd)) \<and> \<not> sv_wal_poisoned (nd_server nd) \<and>
     length (filter holds_lock (nd_tasks nd)) + (if saving (nd_saver nd) then 1 else 0) \<le> 1"

lemma node_ok_kept:
  assumes "node_ok nd" "kept (nd_server nd) (nd_server nd')"
    and "length (filter holds_lock (nd_tasks nd')) + (if saving (nd_saver nd') then 1 else 0) \<le> 1"
  shows "node_ok nd'"
  using assms by (simp add: node_ok_def kept_def same_config_def)

lemma saver_step_lock:
  "saver_step x now s sv = Some (s', sv') \<Longrightarrow> saving s' \<Longrightarrow> saving s \<or> sv_snapshot_path sv \<noteq> None"
  by (cases s) (auto split: option.splits if_splits)

lemma called_lock: "called t \<Longrightarrow> \<not> holds_lock t"
  by (cases t rule: called.cases) simp_all

lemma node_work_ok:
  assumes "node_work x T nd nd'" "node_ok nd"
  shows "node_ok nd'"
  using assms(1)
proof cases
  case (turn ts t us t' sv)
  let ?n = "if saving (nd_saver nd) then 1 else (0 :: nat)"
  have "length (filter holds_lock (ts @ t' # us)) + ?n \<le> 1"
    using assms(2) turn(2,4) task_step_lock [OF turn(3)] by (auto simp: node_ok_def lock_free_filter split: if_splits)
  then show ?thesis
    using task_step_kept [OF turn(3)] by (intro node_ok_kept [OF assms(2)]) (simp_all add: turn(1))
next
  case (save now s sv)
  have "saving s \<Longrightarrow> saving (nd_saver nd) \<or> filter holds_lock (nd_tasks nd) = []"
    using save(3,4) saver_step_lock [OF save(3)] by (auto simp: lock_free_filter)
  then show ?thesis
    using assms(2) save(1) saver_step_kept [OF save(3)] by (intro node_ok_kept [OF assms(2)]) (auto simp: node_ok_def)
next
  case (evict now ev sv)
  then show ?thesis
    using assms(2) evictor_step_kept [OF evict(3)] by (intro node_ok_kept [OF assms(2)]) (simp_all add: node_ok_def)
qed (use assms(2) in \<open>simp add: node_ok_def\<close>)

lemma node_input_ok:
  assumes "node_input x nd nd'" "node_ok nd"
  shows "node_ok nd'"
  using assms(1)
proof cases
  case (call t)
  then show ?thesis using assms(2) called_lock by (simp add: node_ok_def)
next
  case (message e p go sv)
  obtain go' sv' where "replica_step x e p (nd_server nd) = Some (go', sv')" "kept (nd_server nd) sv'"
    using replica_step_kept [of "nd_server nd" x e p] assms(2) by (auto simp: node_ok_def)
  then show ?thesis
    using assms(2) message by (intro node_ok_kept [OF assms(2)]) (simp_all add: node_ok_def)
qed (use assms(2) in \<open>simp_all add: node_ok_def\<close>)

section \<open>Steps left\<close>

text \<open>For every task there is a bound on its steps as long as only tasks before it in this order go on.\<close>

definition keys_ahead :: "cursor \<Rightarrow> str \<Rightarrow> server \<Rightarrow> nat" where
  "keys_ahead c i sv = length (filter (ahead c)
     (sorted_list_of_fset (case fmlookup (sv_indexes sv) i of Some S \<Rightarrow> S | None \<Rightarrow> {||})))"

fun reader_left :: "server \<Rightarrow> reader \<Rightarrow> nat" where
  "reader_left sv (ScanNext b filters c rs) = Suc (length (entries_ahead c (sv_tree sv)))"
| "reader_left sv (QueryStart i limit offset) = Suc (Suc (2 * keys_ahead (From []) i sv))"
| "reader_left sv (QueryNext i skip limit c rs) = Suc (2 * keys_ahead c i sv)"
| "reader_left sv (QueryLookup i limit k rs) = Suc (Suc (2 * keys_ahead (After k) i sv))"
| "reader_left sv (ReaderEnd rs) = 0"

fun saver_left :: "server \<Rightarrow> saver \<Rightarrow> nat" where
  "saver_left sv SaveIdle = 0"
| "saver_left sv (SaveStart se) = length (entries_ahead (From []) (sv_tree sv)) + 5"
| "saver_left sv (SaveVisit se path c buf) = length (entries_ahead c (sv_tree sv)) + 4"
| "saver_left sv (SaveRename se path buf) = 3"
| "saver_left sv (SaveTruncate se path buf) = 2"
| "saver_left sv (SaveDrop se path buf) = 1"

fun evictor_left :: "server \<Rightarrow> evictor \<Rightarrow> nat" where
  "evictor_left sv EvictIdle = 0"
| "evictor_left sv (EvictVisit c es) = 3 * length (entries_ahead c (sv_tree sv)) + 2 * length es + 2"
| "evictor_left sv (EvictUnindex es) = 2 * length es + 1"
| "evictor_left sv (EvictRemove k es) = 2 * length es + 2"

lemma next_entry_left:
  "next_entry c t = Some (k, r) \<Longrightarrow> length (entries_ahead c t) = Suc (length (entries_ahead (After k) t))"
proof (cases "entries_ahead c t")
  case (Cons e es)
  then show "next_entry c t = Some (k, r) \<Longrightarrow> ?thesis" using entries_ahead_Cons [OF Cons] by simp
qed (auto dest: entries_ahead_Nil)

lemma next_key_left:
  "next_key c S = Some k \<Longrightarrow>
   length (filter (ahead c) (sorted_list_of_fset S)) = Suc (length (filter (ahead (After k)) (sorted_list_of_fset S)))"
proof (cases "filter (ahead c) (sorted_list_of_fset S)")
  case (Cons a ks)
  then show "next_key c S = Some k \<Longrightarrow> ?thesis"
    using next_key_filter(1) [OF Cons] next_key_filter(2) [OF Cons refl] by simp
qed (auto simp: next_key_def)

lemma reader_step_left: "reader_step x now rd sv = Some rd' \<Longrightarrow> reader_left sv rd' < reader_left sv rd"
proof (cases rd)
  case (ScanNext b filters c rs)
  assume "reader_step x now rd sv = Some rd'"
  then show ?thesis using next_entry_left [of c "sv_tree sv"] by (auto simp: ScanNext split: option.splits if_splits)
next
  case (QueryNext i skip limit c rs)
  assume "reader_step x now rd sv = Some rd'"
  then show ?thesis
    using next_key_left [of c] by (fastforce simp: QueryNext keys_ahead_def split: option.splits if_splits)
qed (auto split: option.splits if_splits)

lemma saver_step_left:
  "saver_step x now s sv = Some (s', sv') \<Longrightarrow> saver_left sv' s' < saver_left sv s"
  using saver_step_disk_only [of x now s sv s' sv'] next_entry_left
  by (cases s) (fastforce split: option.splits if_splits)+

lemma evictor_step_left:
  "evictor_step x now ev sv = Some (ev', sv') \<Longrightarrow> evictor_left sv' ev' < evictor_left sv ev"
  using next_entry_left [of _ "sv_tree sv"]
  by (cases "(x, now, ev, sv)" rule: evictor_step.cases) (fastforce split: option.splits if_splits)+

section \<open>Reaching rest\<close>

definition node_lower :: "(node \<times> node) set" where
  "node_lower = measures [\<lambda>nd. sum_list (map sweeps_left (nd_tasks nd)), \<lambda>nd. sum_list (map steps_left (nd_tasks nd)),
     \<lambda>nd. evictor_left (nd_server nd) (nd_evictor nd), \<lambda>nd. saver_left (nd_server nd) (nd_saver nd),
     \<lambda>nd. sum_list (map (reader_left (nd_server nd)) (nd_readers nd))]"

lemma node_work_lower:
  assumes "node_work x T nd nd'"
  shows "(nd', nd) \<in> node_lower"
  using assms
proof cases
  case (turn ts t us t' sv)
  then show ?thesis using task_step_left [OF turn(3)] by (auto simp: node_lower_def)
next
  case (read i now rd)
  have "sum_list (map (reader_left (nd_server nd)) ((nd_readers nd)[i := rd])) <
      sum_list (map (reader_left (nd_server nd)) (nd_readers nd))"
    using reader_step_left [OF read(4)] read(2) elem_le_sum_list [of i "map (reader_left (nd_server nd)) (nd_readers nd)"]
    by (simp add: map_update sum_list_update)
  then show ?thesis using read(1) by (simp add: node_lower_def)
next
  case (save now s sv)
  have "evictor_left sv ev = evictor_left (nd_server nd) ev" for ev
    using saver_step_disk_only [OF save(3)] by (cases ev) auto
  then show ?thesis using saver_step_left [OF save(3)] save(1) by (simp add: node_lower_def)
next
  case (evict now ev sv)
  then show ?thesis using evictor_step_left [OF evict(3)] by (simp add: node_lower_def)
qed

fun reader_ended :: "reader \<Rightarrow> bool" where
  "reader_ended (ReaderEnd rs) \<longleftrightarrow> True"
| "reader_ended _ \<longleftrightarrow> False"

definition at_rest :: "node \<Rightarrow> bool" where
  "at_rest nd \<longleftrightarrow> list_all (\<lambda>t. ended t \<or> stopped t) (nd_tasks nd) \<and> list_all reader_ended (nd_readers nd) \<and>
     nd_saver nd = SaveIdle \<and> nd_evictor nd = EvictIdle"

lemma reader_goes_on: "\<not> reader_ended rd \<Longrightarrow> \<exists>rd'. reader_step x now rd sv = Some rd'"
  by (cases rd) auto

lemma saver_goes_on: "s \<noteq> SaveIdle \<Longrightarrow> \<not> sv_wal_poisoned sv \<Longrightarrow> \<exists>s' sv'. saver_step x now s sv = Some (s', sv')"
  by (cases s) (auto split: option.split)

lemma evictor_goes_on: "ev \<noteq> EvictIdle \<Longrightarrow> \<exists>ev' sv'. evictor_step x now ev sv = Some (ev', sv')"
  by (cases "(x, now, ev, sv)" rule: evictor_step.cases) auto

lemma holder_not_stopped: "holds_lock t \<Longrightarrow> \<not> stopped t"
  by (cases t rule: stopped.cases) simp_all

text \<open>The holder of the lock can go on, and if there is none, everyone can.\<close>

lemma node_goes_on:
  assumes "node_ok nd" "\<not> at_rest nd" "now \<in> T"
  shows "\<exists>nd'. node_work x T nd nd'"
proof -
  let ?sv = "nd_server nd"
  have ok: "lru_inv (sv_cache ?sv)" "\<not> sv_wal_poisoned ?sv" using assms(1) by (simp_all add: node_ok_def)
  have go: ?thesis if "nd_tasks nd = as @ t # bs" "\<not> ended t" "\<not> stopped t"
    "takes_lock t \<longrightarrow> lock_free (as @ bs) \<and> \<not> saving (nd_saver nd)" for as t bs
  proof -
    have "runs (task_step x t ?sv)" by (rule task_runs [OF ok(1) that(3,2)])
    then show ?thesis using node_work.turn [OF that(1) _ that(4)] by (fastforce simp: runs_def)
  qed
  have saver: ?thesis if "nd_saver nd \<noteq> SaveIdle" "saving (nd_saver nd) \<or> lock_free (nd_tasks nd)"
    using saver_goes_on [OF that(1) ok(2)] node_work.save [OF assms(3)] that(2) by blast
  consider t where "t \<in> set (nd_tasks nd)" "holds_lock t" | "saving (nd_saver nd)"
    | "lock_free (nd_tasks nd)" "\<not> saving (nd_saver nd)" by (auto simp: lock_free_def list_all_iff)
  then show ?thesis
  proof cases
    case 1
    then obtain as bs where "nd_tasks nd = as @ t # bs" by (meson split_list)
    then show ?thesis using go holder_runs [OF 1(2)] holder_not_stopped [OF 1(2)] by blast
  next
    case 2
    then show ?thesis using saver by (metis saving.simps(1))
  next
    case 3
    consider t where "t \<in> set (nd_tasks nd)" "\<not> ended t" "\<not> stopped t" | rd where "rd \<in> set (nd_readers nd)" "\<not> reader_ended rd"
      | "nd_saver nd \<noteq> SaveIdle" | "nd_evictor nd \<noteq> EvictIdle"
      using assms(2) by (auto simp: at_rest_def list_all_iff)
    then show ?thesis
    proof cases
      case 1
      then obtain as bs where "nd_tasks nd = as @ t # bs" by (meson split_list)
      then show ?thesis using go [OF _ 1(2,3)] 3 by simp
    next
      case 2
      then obtain i where "i < length (nd_readers nd)" "\<not> reader_ended (nd_readers nd ! i)" by (metis in_set_conv_nth)
      then show ?thesis using reader_goes_on node_work.read [OF _ assms(3)] by meson
    next
      case 4
      then show ?thesis using evictor_goes_on node_work.evict [OF assms(3)] by meson
    qed (use saver 3 in blast)
  qed
qed

interpretation work: step_progress "node_work x {now}" node_ok at_rest node_lower for x now
proof unfold_locales
  show "wf node_lower" by (simp add: node_lower_def)
  show "\<exists>nd'. node_work x {now} nd nd' \<and> (nd', nd) \<in> node_lower" if "node_ok nd" "\<not> at_rest nd" for nd
    using node_goes_on [OF that] node_work_lower by blast
qed (rule node_work_ok)

interpretation node: step_invariant "node_step x T" node_ok for x T
  by unfold_locales (auto simp: node_step_def intro: node_work_ok node_input_ok)

text \<open>A server just started is sound.\<close>

lemma server_new_sound:
  assumes "server_new x now creatable sp cp wp r disk = Some sv"
  shows "sv_cache sv = fresh_cache \<and> \<not> sv_wal_poisoned sv"
proof -
  obtain w d where "(case wp of Some path \<Rightarrow> wal_new creatable path disk | None \<Rightarrow> (None, disk)) = (w, d)"
    by (cases "case wp of Some path \<Rightarrow> wal_new creatable path disk | None \<Rightarrow> (None, disk)")
  then show ?thesis using assms by (auto simp: server_new_def lru_new_fresh Let_def)
qed

lemma start_ok:
  assumes "run_server x now creatable la disk = Some (sv, leader)"
  shows "node_ok (node_start sv)"
proof -
  have "\<exists>sp cp wp r. server_new x now creatable sp cp wp r disk = Some sv"
    using assms by (auto simp: run_server_def bind_eq_Some_conv)
  then show ?thesis using server_new_sound by (fastforce simp: node_ok_def node_start_def)
qed

text \<open>
  C9: A running node never panics. Whatever calls, scans, queries, saves, rounds of the eviction and
  messages of a leader have been interleaved since a node started, the lock of the log is not
  poisoned and has one holder at most, no save, eviction, scan, query or message of the leader
  panics, and neither does a handler, except for one that reads a clock before the epoch for a time
  to live, before it has changed anything.
\<close>

theorem node_never_panics:
  assumes "run_server x now0 creatable la disk = Some (sv0, leader)"
    and "rtranclp (node_step x T) (node_start sv0) nd"
  shows "\<not> sv_wal_poisoned (nd_server nd) \<and>
    length (filter holds_lock (nd_tasks nd)) + (if saving (nd_saver nd) then 1 else 0) \<le> 1 \<and>
    list_all (\<lambda>t. ended t \<or> stopped t \<and> called t \<or> task_step x t (nd_server nd) \<noteq> None) (nd_tasks nd) \<and>
    (\<forall>now. list_all (\<lambda>rd. reader_ended rd \<or> reader_step x now rd (nd_server nd) \<noteq> None) (nd_readers nd) \<and>
       (nd_saver nd = SaveIdle \<or> saver_step x now (nd_saver nd) (nd_server nd) \<noteq> None) \<and>
       (nd_evictor nd = EvictIdle \<or> evictor_step x now (nd_evictor nd) (nd_server nd) \<noteq> None)) \<and>
    (\<forall>e p. replica_step x e p (nd_server nd) \<noteq> None)"
proof -
  have "node_ok nd" by (rule node.ok_reachable [OF assms(2) start_ok [OF assms(1)]])
  then have ok: "lru_inv (sv_cache (nd_server nd))" "\<not> sv_wal_poisoned (nd_server nd)"
    "length (filter holds_lock (nd_tasks nd)) + (if saving (nd_saver nd) then 1 else 0) \<le> 1"
    by (simp_all add: node_ok_def)
  have "stopped t \<Longrightarrow> called t" for t by (cases t rule: stopped.cases) simp_all
  then have "ended t \<or> stopped t \<and> called t \<or> task_step x t (nd_server nd) \<noteq> None" for t
    using task_runs [OF ok(1), of t x] by (auto simp: runs_def)
  moreover have "reader_ended rd \<or> reader_step x now rd (nd_server nd) \<noteq> None" for rd now
    using reader_goes_on [of rd x now "nd_server nd"] by blast
  moreover have "nd_saver nd = SaveIdle \<or> saver_step x now (nd_saver nd) (nd_server nd) \<noteq> None" for now
    using saver_goes_on [OF _ ok(2)] by blast
  moreover have "nd_evictor nd = EvictIdle \<or> evictor_step x now (nd_evictor nd) (nd_server nd) \<noteq> None" for now
    using evictor_goes_on by blast
  moreover have "replica_step x e p (nd_server nd) \<noteq> None" for e p
    using replica_step_kept [OF ok(1,2), of x e p] by auto
  ultimately show ?thesis using ok(2,3) by (simp add: list_all_iff)
qed

text \<open>
  C10: A node comes to rest. From every state that a node reaches, the handlers, scans, queries, the
  save and the eviction that are running can go on until all of them have ended (but for the calls
  whose clock was before the epoch), and without new calls, ticks and messages they do so however
  they are interleaved: their steps are well-founded, and while one of them has not ended, one of
  them can go on.
\<close>

theorem node_comes_to_rest:
  assumes "run_server x now0 creatable la disk = Some (sv0, leader)"
    and "rtranclp (node_step x T) (node_start sv0) nd"
  shows "(\<exists>nd'. rtranclp (node_work x {now}) nd nd' \<and> at_rest nd') \<and>
    (\<forall>nd'. rtranclp (node_work x {now}) nd nd' \<longrightarrow> at_rest nd' \<or> (\<exists>nd''. node_work x {now} nd' nd'')) \<and>
    wfp (\<lambda>b a. node_work x T a b)"
proof -
  have ok: "node_ok nd" by (rule node.ok_reachable [OF assms(2) start_ok [OF assms(1)]])
  have "{(b, a). node_work x T a b} \<subseteq> node_lower" using node_work_lower by blast
  then have "wfp (\<lambda>b a. node_work x T a b)"
    unfolding wfp_def using wf_subset [of node_lower] by (simp add: node_lower_def)
  then show ?thesis
    using work.reaches_final [OF ok] work.ok_reachable [OF _ ok] node_goes_on by blast
qed

section \<open>Instances\<close>

text \<open>A node that has just started, with one call and the first tick of the save.\<close>

definition busy_node :: "task \<Rightarrow> server \<Rightarrow> node" where
  "busy_node t sv = (node_start sv)\<lparr>nd_tasks := [t],
     nd_saver := SaveStart \<lparr>sn_create_ok = True, sn_flushed = 0, sn_rename_ok = True, sn_truncate_ok = True, sn_drop_ok = True\<rparr>\<rparr>"

lemma busy_node_reached:
  assumes "called t"
  shows "\<exists>sv leader. run_server plain_ext None True (launch_of args (\<lambda>_. None)) files = Some (sv, leader) \<and>
    rtranclp (node_step plain_ext T) (node_start sv) (busy_node t sv) \<and> la_is_replica (launch_of args (\<lambda>_. None)) = sv_is_replica sv"
proof -
  obtain sv leader where sv: "run_server plain_ext None True (launch_of args (\<lambda>_. None)) files = Some (sv, leader)"
    "leader = map_option leader_host (parse_args None args)" "sv_is_replica sv \<longleftrightarrow> leader \<noteq> None"
    using node_role [of plain_ext None True args "\<lambda>_. None" files] by (elim exE conjE)
  have "node_step plain_ext T (node_start sv) ((node_start sv)\<lparr>nd_tasks := [t]\<rparr>)"
    using node_input.call [OF assms, of plain_ext "node_start sv"] by (simp add: node_step_def node_start_def)
  moreover have "node_step plain_ext T ((node_start sv)\<lparr>nd_tasks := [t]\<rparr>) (busy_node t sv)"
    using node_input.save_tick [of "(node_start sv)\<lparr>nd_tasks := [t]\<rparr>" plain_ext]
    by (simp add: node_step_def busy_node_def node_start_def)
  ultimately have "rtranclp (node_step plain_ext T) (node_start sv) (busy_node t sv)" by simp
  then show ?thesis using sv by (auto simp: launch_of_def Let_def)
qed

theorem node_never_panics_witness:
  "\<exists>sv leader. run_server plain_ext None True (launch_of [] (\<lambda>_. None)) files = Some (sv, leader) \<and>
     rtranclp (node_step plain_ext {Some 5}) (node_start sv) (busy_node (PutTask (at 1) ''a'' [1] (Some 7) PutStart) sv) \<and>
     task_step plain_ext (PutTask (at 1) ''a'' [1] (Some 7) PutStart) sv \<noteq> None"
proof -
  let ?t = "PutTask (at 1) ''a'' [1] (Some 7) PutStart"
  obtain sv leader where sv: "run_server plain_ext None True (launch_of [] (\<lambda>_. None)) files = Some (sv, leader)"
    "rtranclp (node_step plain_ext {Some 5}) (node_start sv) (busy_node ?t sv)"
    using busy_node_reached [of ?t] by fastforce
  have "nd_tasks (busy_node ?t sv) = [?t]" "nd_server (busy_node ?t sv) = sv" by (simp_all add: busy_node_def node_start_def)
  then have "task_step plain_ext ?t sv \<noteq> None"
    using node_never_panics [OF sv] by (simp add: ttl_expiry_def)
  then show ?thesis using sv by blast
qed

theorem node_comes_to_rest_witness:
  "\<exists>sv leader nd. run_server plain_ext None True (launch_of [] (\<lambda>_. None)) files = Some (sv, leader) \<and>
     rtranclp (node_work plain_ext {Some 5}) (busy_node (CasTask (at 1) ''a'' [] [1] None CasStart) sv) nd \<and> at_rest nd"
proof -
  let ?t = "CasTask (at 1) ''a'' [] [1] None CasStart"
  obtain sv leader where sv: "run_server plain_ext None True (launch_of [] (\<lambda>_. None)) files = Some (sv, leader)"
    "rtranclp (node_step plain_ext {Some 5}) (node_start sv) (busy_node ?t sv)"
    using busy_node_reached [of ?t] by fastforce
  from node_comes_to_rest [OF sv, of "Some 5"] show ?thesis using sv(1) by blast
qed

section \<open>Histories\<close>

text \<open>
  A statement about the configurations so far holds along every run if it holds after one more step.
\<close>

locale run_invariant =
  fixes step :: "'c \<Rightarrow> 'c \<Rightarrow> bool"
    and I :: "'c list \<Rightarrow> bool"
  assumes extend: "I (cs @ [c]) \<Longrightarrow> step c d \<Longrightarrow> I (cs @ [c, d])"
begin

lemma run: "successively step (c # cs) \<Longrightarrow> I [c] \<Longrightarrow> I (c # cs)"
proof (induction cs rule: rev_induct)
  case (snoc d cs)
  then have "step (last (c # cs)) d" "I (c # cs)"
    by (simp_all add: successively_append_iff flip: append_Cons)
  moreover have "c # cs = butlast (c # cs) @ [last (c # cs)]" by (rule append_butlast_last_id [symmetric]) simp
  ultimately show ?case using extend [of "butlast (c # cs)" "last (c # cs)" d] by (metis append.assoc append_Cons append_Nil)
qed simp

end

text \<open>The trees of a history.\<close>

definition trees :: "node list \<Rightarrow> (str, db_record) fmap set" where
  "trees nds = (\<lambda>nd. sv_tree (nd_server nd)) ` set nds"

lemma trees_simps [simp]:
  "trees [] = {}" "trees (nd # nds) = insert (sv_tree (nd_server nd)) (trees nds)" "trees (nds @ nds') = trees nds \<union> trees nds'"
  by (auto simp: trees_def)

text \<open>What a step of the node is for one scan or query, for the save and for the eviction.\<close>

lemma node_step_reader:
  assumes "node_step x T nd nd'" "i < length (nd_readers nd)"
  shows "i < length (nd_readers nd') \<and> (nd_readers nd' ! i = nd_readers nd ! i \<or>
    (\<exists>now \<in> T. reader_step x now (nd_readers nd ! i) (nd_server nd') = Some (nd_readers nd' ! i)))"
  using assms(1) unfolding node_step_def
proof
  assume "node_work x T nd nd'"
  then show ?thesis
  proof cases
    case (read j now rd)
    then show ?thesis using assms(2) by (cases "i = j") auto
  qed (use assms(2) in simp_all)
next
  assume "node_input x nd nd'"
  then show ?thesis using assms(2) by cases (simp_all add: nth_append)
qed

lemma install_disk [simp]: "sv_disk (install_chunk x rs n sv) = sv_disk sv"
proof -
  have "sv_disk (fold (install_record x n) rs sv) = sv_disk sv"
    by (induction rs arbitrary: sv) (simp_all add: install_record_def)
  then show ?thesis by (simp add: install_chunk_def)
qed

lemma node_step_saver:
  assumes "node_step x T nd nd'" "saving (nd_saver nd)" "node_ok nd"
  shows "nd_saver nd' = nd_saver nd \<and> sv_disk (nd_server nd') = sv_disk (nd_server nd) \<or>
    (\<exists>now \<in> T. saver_step x now (nd_saver nd) (nd_server nd) = Some (nd_saver nd', nd_server nd'))"
  using assms(1) unfolding node_step_def
proof
  assume "node_work x T nd nd'"
  then show ?thesis
  proof cases
    case (turn ts t us t' sv)
    have "lock_free (nd_tasks nd)" using assms(2,3) by (simp add: node_ok_def lock_free_filter)
    then have "unlocked t" using turn(2,4) assms(2) by (simp add: unlocked_def)
    then show ?thesis using task_step_kept [OF turn(3)] by (simp add: turn(1))
  next
    case (evict now ev sv)
    then show ?thesis using evictor_step_kept [OF evict(3)] by simp
  qed auto
next
  assume "node_input x nd nd'"
  then show ?thesis
  proof cases
    case (message e p go sv)
    then obtain rs n where p: "p = Snapshot rs n" using assms(2) by (cases p) auto
    show ?thesis using message by (auto simp: p replica_step_def)
  qed (use assms(2) in auto)
qed

lemma node_step_evictor:
  assumes "node_step x T nd nd'" "nd_evictor nd \<noteq> EvictIdle"
  shows "nd_evictor nd' = nd_evictor nd \<or>
    (\<exists>now \<in> T. evictor_step x now (nd_evictor nd) (nd_server nd) = Some (nd_evictor nd', nd_server nd'))"
  using assms(1) unfolding node_step_def
proof
  assume "node_work x T nd nd'"
  then show ?thesis by cases auto
next
  assume "node_input x nd nd'"
  then show ?thesis using assms(2) by cases simp_all
qed

text \<open>Paths, role and schema of a node do not change.\<close>

lemma node_step_config:
  assumes "node_step x T nd nd'" "node_ok nd"
  shows "same_config (nd_server nd) (nd_server nd')"
  using assms(1) unfolding node_step_def
proof
  assume "node_work x T nd nd'"
  then show ?thesis
    by cases (use task_step_kept saver_step_kept evictor_step_kept in \<open>fastforce simp: kept_def\<close>)+
next
  assume "node_input x nd nd'"
  then show ?thesis
  proof cases
    case (message e p go sv)
    then show ?thesis using replica_step_kept [of "nd_server nd" x e p] assms(2) by (auto simp: node_ok_def kept_def)
  qed simp_all
qed

end
