(* ===== verification/Index_Steps.thy ===== *)
theory Index_Steps
  imports Store_Properties
begin

text \<open>
  index_record and remove_record_from_index (src/server.rs) cut into their single accesses of the
  two-level skip lists, for any number of tasks at once. An index set is reached through its entry
  in the map, so its identity matters: sets live at addresses, and the map holds addresses.
\<close>

section \<open>The store of index sets\<close>

record index_store =
  is_map :: "(str, nat) fmap"
  is_sets :: "nat \<Rightarrow> str fset"
  is_fresh :: nat

definition index_abs :: "index_store \<Rightarrow> index_map" where
  "index_abs st = fmmap (is_sets st) (is_map st)"

definition index_store_ok :: "index_store \<Rightarrow> bool" where
  "index_store_ok st \<longleftrightarrow>
     (\<forall>i a. fmlookup (is_map st) i = Some a \<longrightarrow> a < is_fresh st) \<and>
     (\<forall>i j a. fmlookup (is_map st) i = Some a \<longrightarrow> fmlookup (is_map st) j = Some a \<longrightarrow> i = j)"

lemma index_abs_lookup [simp]: "fmlookup (index_abs st) i = map_option (is_sets st) (fmlookup (is_map st) i)"
  by (simp add: index_abs_def)

lemma index_has_abs:
  "index_has (index_abs st) i k \<longleftrightarrow> (\<exists>a. fmlookup (is_map st) i = Some a \<and> k |\<in>| is_sets st a)"
  by (auto simp: index_has_def split: option.splits)

text \<open>A set takes new contents; a new, empty set becomes the entry of an index key, replacing any other.\<close>

definition set_at :: "nat \<Rightarrow> str fset \<Rightarrow> index_store \<Rightarrow> index_store" where
  "set_at a S st = st\<lparr>is_sets := (is_sets st)(a := S)\<rparr>"

definition new_set :: "str \<Rightarrow> index_store \<Rightarrow> index_store" where
  "new_set i st = st\<lparr>is_map := fmupd i (is_fresh st) (is_map st), is_sets := (is_sets st)(is_fresh st := {||}),
     is_fresh := is_fresh st + 1\<rparr>"

lemma store_simps [simp]:
  "is_map (set_at a S st) = is_map st" "is_sets (set_at a S st) = (is_sets st)(a := S)"
  "is_fresh (set_at a S st) = is_fresh st"
  "is_map (new_set i st) = fmupd i (is_fresh st) (is_map st)"
  "is_sets (new_set i st) = (is_sets st)(is_fresh st := {||})" "is_fresh (new_set i st) = is_fresh st + 1"
  by (simp_all add: set_at_def new_set_def)

lemma index_store_ok_set_at [simp]: "index_store_ok (set_at a S st) \<longleftrightarrow> index_store_ok st"
  by (simp add: index_store_ok_def)

lemma index_store_ok_new_set: "index_store_ok st \<Longrightarrow> index_store_ok (new_set i st)"
  by (auto simp: index_store_ok_def less_Suc_eq split: if_splits)

lemma abs_set_at:
  assumes "index_store_ok st" "fmlookup (is_map st) i = Some a"
  shows "index_abs (set_at a S st) = fmupd i S (index_abs st)"
proof (rule fmap_ext)
  fix j
  have "fmlookup (is_map st) j = Some a \<longleftrightarrow> j = i"
    using assms by (auto simp: index_store_ok_def)
  then show "fmlookup (index_abs (set_at a S st)) j = fmlookup (fmupd i S (index_abs st)) j"
    by (cases "fmlookup (is_map st) j") auto
qed

lemma abs_new_set:
  assumes "index_store_ok st"
  shows "index_abs (new_set i st) = fmupd i {||} (index_abs st)"
proof (rule fmap_ext)
  fix j
  have "fmlookup (is_map st) j \<noteq> Some (is_fresh st)" using assms by (auto simp: index_store_ok_def)
  then show "fmlookup (index_abs (new_set i st)) j = fmlookup (fmupd i {||} (index_abs st)) j"
    by (cases "fmlookup (is_map st) j") auto
qed

section \<open>Steps\<close>

text \<open>
  The next access of each loop with the index keys still to come: \<open>indexes.get\<close>, after it answered
  \<open>None\<close> the \<open>indexes.insert\<close> of a new set, which replaces an entry with the same key, and the
  insertion into, or removal from, the set of the entry held.
\<close>

datatype index_phase =
  AddNext "str list"
| AddMissing str "str list"
| AddInto nat "str list"
| DelNext "str list"
| DelFrom nat "str list"

fun index_step :: "str \<Rightarrow> index_phase \<Rightarrow> index_store \<Rightarrow> (index_phase \<times> index_store) option" where
  "index_step key (AddNext []) st = None"
| "index_step key (AddNext (i # idx_keys)) st = Some
     (case fmlookup (is_map st) i of Some entry \<Rightarrow> AddInto entry idx_keys | None \<Rightarrow> AddMissing i idx_keys, st)"
| "index_step key (AddMissing i idx_keys) st = Some (AddInto (is_fresh st) idx_keys, new_set i st)"
| "index_step key (AddInto entry idx_keys) st = Some (AddNext idx_keys, set_at entry (finsert key (is_sets st entry)) st)"
| "index_step key (DelNext []) st = None"
| "index_step key (DelNext (i # idx_keys)) st = Some
     (case fmlookup (is_map st) i of Some entry \<Rightarrow> DelFrom entry idx_keys | None \<Rightarrow> DelNext idx_keys, st)"
| "index_step key (DelFrom entry idx_keys) st = Some (DelNext idx_keys, set_at entry (is_sets st entry |-| {|key|}) st)"

text \<open>One task alone, and any number of tasks, each with the key of its record.\<close>

fun run_index :: "nat \<Rightarrow> str \<Rightarrow> index_phase \<Rightarrow> index_store \<Rightarrow> index_phase \<times> index_store" where
  "run_index 0 key p st = (p, st)"
| "run_index (Suc n) key p st =
     (case index_step key p st of Some (p', st') \<Rightarrow> run_index n key p' st' | None \<Rightarrow> (p, st))"

inductive index_interleave ::
  "(str \<times> index_phase) list \<times> index_store \<Rightarrow> (str \<times> index_phase) list \<times> index_store \<Rightarrow> bool" where
  turn: "index_step key p st = Some (p', st') \<Longrightarrow>
    index_interleave (ts @ (key, p) # us, st) (ts @ (key, p') # us, st')"

section \<open>A task alone\<close>

lemma run_index_end [simp]: "run_index n key (AddNext []) st = (AddNext [], st)"
  "run_index n key (DelNext []) st = (DelNext [], st)"
  by (cases n; simp)+

lemma run_index_Suc:
  "run_index n key p st = (q, st') \<Longrightarrow> index_step key q st' = None \<Longrightarrow> run_index (Suc n) key p st = (q, st')"
proof (induction n arbitrary: p st)
  case (Suc n)
  show ?case
  proof (cases "index_step key p st")
    case None
    then show ?thesis using Suc.prems by simp
  next
    case (Some r)
    then obtain p1 st1 where r: "index_step key p st = Some (p1, st1)" by (cases r) auto
    then have "run_index (Suc n) key p1 st1 = (q, st')" using Suc by simp
    then show ?thesis using r by (simp only: run_index.simps(2) [of "Suc n"] option.case prod.case)
  qed
qed simp

lemma run_add:
  "index_store_ok st \<Longrightarrow> \<exists>st'. run_index (3 * length idx_keys) key (AddNext idx_keys) st = (AddNext [], st') \<and>
     index_store_ok st' \<and> index_abs st' = fold (skip_set_insert key) idx_keys (index_abs st)"
proof (induction idx_keys arbitrary: st)
  case Nil
  then show ?case by simp
next
  case (Cons i idx_keys)
  have n: "3 * length (i # idx_keys) = Suc (Suc (Suc (3 * length idx_keys)))" by simp
  show ?case
  proof (cases "fmlookup (is_map st) i")
    case (Some a)
    let ?st = "set_at a (finsert key (is_sets st a)) st"
    obtain st' where st': "run_index (3 * length idx_keys) key (AddNext idx_keys) ?st = (AddNext [], st')"
      "index_store_ok st'" "index_abs st' = fold (skip_set_insert key) idx_keys (index_abs ?st)"
      using Cons.IH [of ?st] Cons.prems by auto
    have "run_index (Suc (3 * length idx_keys)) key (AddNext idx_keys) ?st = (AddNext [], st')"
      using run_index_Suc [OF st'(1)] by simp
    then have "run_index (3 * length (i # idx_keys)) key (AddNext (i # idx_keys)) st = (AddNext [], st')"
      unfolding n using Some by (simp del: run_index.simps add: run_index.simps(2) [of _ key "AddNext (i # idx_keys)"]
          run_index.simps(2) [of _ key "AddInto a idx_keys"])
    moreover have "index_abs ?st = skip_set_insert key i (index_abs st)"
      using abs_set_at [OF Cons.prems Some] Some by (simp add: skip_set_insert_def)
    ultimately show ?thesis using st'(2,3) by simp
  next
    case None
    let ?st = "set_at (is_fresh st) {|key|} (new_set i st)"
    have ok: "index_store_ok (new_set i st)" using index_store_ok_new_set [OF Cons.prems] .
    then obtain st' where st': "run_index (3 * length idx_keys) key (AddNext idx_keys) ?st = (AddNext [], st')"
      "index_store_ok st'" "index_abs st' = fold (skip_set_insert key) idx_keys (index_abs ?st)"
      using Cons.IH [of ?st] by auto
    have "index_abs ?st = skip_set_insert key i (index_abs st)"
      using abs_set_at [OF ok, of i "is_fresh st"] abs_new_set [OF Cons.prems, of i] None
      by (simp add: skip_set_insert_def)
    moreover have "run_index (3 * length (i # idx_keys)) key (AddNext (i # idx_keys)) st = (AddNext [], st')"
      unfolding n using None st'(1) by simp
    ultimately show ?thesis using st'(2,3) by simp
  qed
qed

lemma run_del:
  "index_store_ok st \<Longrightarrow> \<exists>st'. run_index (2 * length idx_keys) key (DelNext idx_keys) st = (DelNext [], st') \<and>
     index_store_ok st' \<and> index_abs st' = fold (skip_set_remove key) idx_keys (index_abs st)"
proof (induction idx_keys arbitrary: st)
  case Nil
  then show ?case by simp
next
  case (Cons i idx_keys)
  have n: "2 * length (i # idx_keys) = Suc (Suc (2 * length idx_keys))" by simp
  show ?case
  proof (cases "fmlookup (is_map st) i")
    case (Some a)
    let ?st = "set_at a (is_sets st a |-| {|key|}) st"
    obtain st' where st': "run_index (2 * length idx_keys) key (DelNext idx_keys) ?st = (DelNext [], st')"
      "index_store_ok st'" "index_abs st' = fold (skip_set_remove key) idx_keys (index_abs ?st)"
      using Cons.IH [of ?st] Cons.prems by auto
    moreover have "index_abs ?st = skip_set_remove key i (index_abs st)"
      using abs_set_at [OF Cons.prems Some] Some by (simp add: skip_set_remove_def)
    moreover have "run_index (2 * length (i # idx_keys)) key (DelNext (i # idx_keys)) st = (DelNext [], st')"
      unfolding n using Some st'(1) by simp
    ultimately show ?thesis by simp
  next
    case None
    obtain st' where st': "run_index (2 * length idx_keys) key (DelNext idx_keys) st = (DelNext [], st')"
      "index_store_ok st'" "index_abs st' = fold (skip_set_remove key) idx_keys (index_abs st)"
      using Cons.IH [of st] Cons.prems by auto
    have "run_index (Suc (2 * length idx_keys)) key (DelNext idx_keys) st = (DelNext [], st')"
      using run_index_Suc [OF st'(1)] by simp
    moreover have "skip_set_remove key i (index_abs st) = index_abs st"
      using None by (simp add: skip_set_remove_def)
    ultimately show ?thesis
      unfolding n using st'(2,3) None
      by (simp del: run_index.simps add: run_index.simps(2) [of _ key "DelNext (i # idx_keys)"])
  qed
qed

text \<open>
  Run alone, the single accesses are index_record and remove_record_from_index.
\<close>

theorem index_steps_make_updates:
  assumes "index_store_ok st" "sv_indexes sv = index_abs st"
  shows "let idx_keys = extract_index_keys x (sv_schema_registry sv) key val in
    (\<exists>st'. run_index (3 * length idx_keys) key (AddNext idx_keys) st = (AddNext [], st') \<and>
       index_store_ok st' \<and> index_record x key val sv = sv\<lparr>sv_indexes := index_abs st'\<rparr>) \<and>
    (\<exists>st'. run_index (2 * length idx_keys) key (DelNext idx_keys) st = (DelNext [], st') \<and>
       index_store_ok st' \<and> remove_record_from_index x key val sv = sv\<lparr>sv_indexes := index_abs st'\<rparr>)"
  using run_add [OF assms(1), of "extract_index_keys x (sv_schema_registry sv) key val" key]
    run_del [OF assms(1), of "extract_index_keys x (sv_schema_registry sv) key val" key] assms(2)
  by (auto simp: Let_def index_record_def remove_record_from_index_def index_add_def index_del_def)

theorem index_steps_make_updates_witness:
  "\<exists>st'. run_index 3 ''user:1'' (AddNext [''User:name:A'']) \<lparr>is_map = fmempty, is_sets = (\<lambda>_. {||}), is_fresh = 0\<rparr> =
       (AddNext [], st') \<and>
     index_record plain_wal ''user:1'' [65] schema_server = schema_server\<lparr>sv_indexes := index_abs st'\<rparr>"
proof -
  let ?st = "\<lparr>is_map = fmempty, is_sets = (\<lambda>_. {||}), is_fresh = 0\<rparr> :: index_store"
  have i: "index_store_ok ?st" "sv_indexes schema_server = index_abs ?st"
    by (simp_all add: index_store_ok_def schema_server_def blank_server_def index_abs_def)
  have r: "sv_schema_registry schema_server = load_nodes sample_schema registry_new"
    by (simp add: schema_server_def)
  show ?thesis
    using index_steps_make_updates [OF i, of plain_wal "''user:1''" "[65]"]
    by (auto simp: Let_def r user_index_keys numeral_3_eq_3 simp del: run_index.simps)
qed

section \<open>Many tasks\<close>

text \<open>
  What the task in phase \<open>p\<close> will have made of \<open>h\<close>, whether its record is filed under \<open>i\<close>, once it
  ends, when the map of the sets does not change.
\<close>

fun outcome :: "(str, nat) fmap \<Rightarrow> str \<Rightarrow> index_phase \<Rightarrow> bool \<Rightarrow> bool" where
  "outcome m i (AddNext idx_keys) h \<longleftrightarrow> h \<or> i \<in> set idx_keys"
| "outcome m i (AddMissing j idx_keys) h \<longleftrightarrow> h \<or> i = j \<or> i \<in> set idx_keys"
| "outcome m i (AddInto entry idx_keys) h \<longleftrightarrow> h \<or> fmlookup m i = Some entry \<or> i \<in> set idx_keys"
| "outcome m i (DelNext idx_keys) h \<longleftrightarrow> h \<and> i \<notin> set idx_keys"
| "outcome m i (DelFrom entry idx_keys) h \<longleftrightarrow> h \<and> fmlookup m i \<noteq> Some entry \<and> i \<notin> set idx_keys"

text \<open>The task will create no set: all it files under exist.\<close>

fun creates_none :: "(str, nat) fmap \<Rightarrow> index_phase \<Rightarrow> bool" where
  "creates_none m (AddNext idx_keys) \<longleftrightarrow> list_all (\<lambda>i. fmlookup m i \<noteq> None) idx_keys"
| "creates_none m (AddMissing i idx_keys) \<longleftrightarrow> False"
| "creates_none m (AddInto entry idx_keys) \<longleftrightarrow> list_all (\<lambda>i. fmlookup m i \<noteq> None) idx_keys"
| "creates_none m (DelNext idx_keys) \<longleftrightarrow> True"
| "creates_none m (DelFrom entry idx_keys) \<longleftrightarrow> True"

lemma index_step_keeps:
  assumes "index_step key p st = Some (p', st')" "creates_none (is_map st) p" "index_store_ok st"
  shows "is_map st' = is_map st \<and> creates_none (is_map st) p' \<and> index_store_ok st' \<and>
    outcome (is_map st) i p' (index_has (index_abs st') i key) = outcome (is_map st) i p (index_has (index_abs st) i key) \<and>
    (\<forall>k. k \<noteq> key \<longrightarrow> index_has (index_abs st') i k = index_has (index_abs st) i k)"
  using assms
proof (induction key p st rule: index_step.induct)
  case (2 key j idx_keys st)
  then show ?case by (auto simp: index_has_abs index_store_ok_def)
next
  case (4 key a idx_keys st)
  then show ?case by (auto simp: index_has_abs split: if_splits)
next
  case (6 key j idx_keys st)
  then show ?case by (auto simp: index_has_abs index_store_ok_def split: option.splits)
next
  case (7 key a idx_keys st)
  then show ?case by (auto simp: index_has_abs split: if_splits)
qed simp_all

definition predicted :: "(str \<times> index_phase) list \<times> index_store \<Rightarrow> str \<Rightarrow> str \<Rightarrow> bool" where
  "predicted c i k = (case map_of (fst c) k of
     Some p \<Rightarrow> outcome (is_map (snd c)) i p (index_has (index_abs (snd c)) i k)
   | None \<Rightarrow> index_has (index_abs (snd c)) i k)"

definition indexing_ok :: "(str \<times> index_phase) list \<times> index_store \<Rightarrow> bool" where
  "indexing_ok c \<longleftrightarrow> distinct (map fst (fst c)) \<and> index_store_ok (snd c) \<and>
     (\<forall>(key, p) \<in> set (fst c). creates_none (is_map (snd c)) p)"

lemma map_of_middle:
  "key \<notin> fst ` set ts \<Longrightarrow> map_of (ts @ (key, p) # us) k = (if k = key then Some p else map_of (ts @ us) k)"
  by (induction ts) auto

lemma index_interleave_keeps:
  assumes "index_interleave c d" "indexing_ok c"
  shows "indexing_ok d \<and> predicted d = predicted c"
  using assms(1)
proof cases
  case (turn key p st p' st' ts us)
  have c: "creates_none (is_map st) p" "index_store_ok st" "key \<notin> fst ` set ts"
    using assms(2) turn by (auto simp: indexing_ok_def)
  note k = index_step_keeps [OF turn(3) c(1,2)]
  have "predicted d i j = predicted c i j" for i j
    using k [of i] by (simp add: predicted_def turn map_of_middle [OF c(3)] del: map_of_append split: option.split)
  then show ?thesis using k assms(2) by (auto simp: turn indexing_ok_def fun_eq_iff)
qed

text \<open>
  C25: Index updates of different records commute. When every index set they file under exists, any
  interleaving of the single accesses of index_record and remove_record_from_index files each
  record under exactly the index keys it would be filed under had the calls run one by one.
\<close>

theorem index_updates_commute:
  assumes "index_store_ok st" "distinct (map fst ts)"
    and "\<forall>(key, p) \<in> set ts. \<exists>is. p = AddNext is \<and> (\<forall>i \<in> set is. fmlookup (is_map st) i \<noteq> None) \<or> p = DelNext is"
    and "rtranclp index_interleave (ts, st) (us, st')" "\<forall>(key, p) \<in> set us. p = AddNext [] \<or> p = DelNext []"
  shows "index_has (index_abs st') i k \<longleftrightarrow> (case map_of ts k of
      Some (AddNext is) \<Rightarrow> index_has (index_abs st) i k \<or> i \<in> set is
    | Some (DelNext is) \<Rightarrow> index_has (index_abs st) i k \<and> i \<notin> set is
    | _ \<Rightarrow> index_has (index_abs st) i k)"
proof -
  have "indexing_ok (ts, st)" using assms(1-3) by (fastforce simp: indexing_ok_def list_all_iff)
  with assms(4) have "predicted (us, st') = predicted (ts, st)"
    by (induction rule: converse_rtranclp_induct) (auto dest: index_interleave_keeps)
  moreover have "predicted (us, st') i k = index_has (index_abs st') i k"
    using assms(5) by (auto simp: predicted_def split: option.split dest!: map_of_SomeD)
  moreover have "predicted (ts, st) i k = (case map_of ts k of
      Some (AddNext is) \<Rightarrow> index_has (index_abs st) i k \<or> i \<in> set is
    | Some (DelNext is) \<Rightarrow> index_has (index_abs st) i k \<and> i \<notin> set is
    | _ \<Rightarrow> index_has (index_abs st) i k)"
    using assms(3) by (fastforce simp: predicted_def split: option.split index_phase.split dest: map_of_SomeD)
  ultimately show ?thesis by simp
qed

text \<open>Turns of the first and of the second of two tasks.\<close>

lemma first_turn:
  "index_step k p s = Some (p', s') \<Longrightarrow> rtranclp index_interleave ([(k, p), t], s) ([(k, p'), t], s')"
  using index_interleave.turn [of k p s p' s' "[]" "[t]"] by simp

lemma second_turn:
  "index_step k p s = Some (p', s') \<Longrightarrow> rtranclp index_interleave ([t, (k, p)], s) ([t, (k, p')], s')"
  using index_interleave.turn [of k p s p' s' "[t]" "[]"] by simp

lemma query_filed:
  assumes "query e schema_type field val limit offset sv = Some (Inr rs, sv')" "kv \<in> set rs"
  shows "index_has (sv_indexes sv) (index_key schema_type field val) (kv_key kv)"
proof -
  let ?w = "\<lambda>S. take (case limit of Some n \<Rightarrow> unat n | None \<Rightarrow> 100)
    (drop (case offset of Some n \<Rightarrow> unat n | None \<Rightarrow> 0) (sorted_list_of_fset S))"
  obtain S where S: "fmlookup (sv_indexes sv) (index_key schema_type field val) = Some S" "kv_key kv \<in> set (?w S)"
    using assms by (fastforce simp: query_def Let_def List.map_filter_def answer_def split: option.splits)
  then have "kv_key kv |\<in>| S" by (auto dest!: in_set_takeD in_set_dropD simp: sorted_list_of_fset.rep_eq)
  with S(1) show ?thesis by (simp add: index_has_def)
qed

lemma query_answers: "\<exists>rs. query e schema_type field val limit offset sv = Some (Inr rs, sv)"
  by (simp add: query_def Let_def split: option.split)

theorem index_updates_commute_witness:
  "\<exists>st'. rtranclp index_interleave ([(''a'', AddNext [''i'']), (''b'', DelNext [''i''])],
       \<lparr>is_map = fmupd ''i'' 0 fmempty, is_sets = (\<lambda>_. {|''b''|}), is_fresh = 1\<rparr>)
       ([(''a'', AddNext []), (''b'', DelNext [])], st') \<and>
     index_has (index_abs st') ''i'' ''a'' \<and> \<not> index_has (index_abs st') ''i'' ''b''"
proof -
  let ?st = "\<lparr>is_map = fmupd ''i'' 0 fmempty, is_sets = (\<lambda>_. {|''b''|}), is_fresh = 1\<rparr> :: index_store"
  let ?R = "rtranclp index_interleave"
  define s1 where "s1 = set_at 0 {|''a'', ''b''|} ?st"
  define s2 where "s2 = set_at 0 (is_sets s1 0 |-| {|''b''|}) s1"
  have r1: "?R ([(''a'', AddNext [''i'']), (''b'', DelNext [''i''])], ?st) ([(''a'', AddNext [''i'']), (''b'', DelFrom 0 [])], ?st)"
    by (rule second_turn) simp
  have r2: "?R ([(''a'', AddNext [''i'']), (''b'', DelFrom 0 [])], ?st) ([(''a'', AddInto 0 []), (''b'', DelFrom 0 [])], ?st)"
    by (rule first_turn) simp
  have r3: "?R ([(''a'', AddInto 0 []), (''b'', DelFrom 0 [])], ?st) ([(''a'', AddNext []), (''b'', DelFrom 0 [])], s1)"
    by (rule first_turn) (simp add: s1_def)
  have r4: "?R ([(''a'', AddNext []), (''b'', DelFrom 0 [])], s1) ([(''a'', AddNext []), (''b'', DelNext [])], s2)"
    by (rule second_turn) (simp add: s2_def)
  note r = rtranclp_trans [OF r1 rtranclp_trans [OF r2 rtranclp_trans [OF r3 r4]]]
  have "index_store_ok ?st" by (simp add: index_store_ok_def)
  from index_updates_commute [OF this _ _ r] show ?thesis using r by (intro exI [of _ s2]) simp
qed

text \<open>
  C33: The first two records with a value race for its index set. When two tasks file records under
  an index key that has no set yet, each may create one; the second set replaces the first, which
  already holds the other record. Both calls have ended, and no query, whatever its window, finds
  the first record: its filing is lost for good.
\<close>

theorem index_set_race:
  assumes "k1 \<noteq> k2" "fmlookup (is_map st) (index_key schema_type field val) = None"
  shows "\<exists>st'. rtranclp index_interleave
      ([(k1, AddNext [index_key schema_type field val]), (k2, AddNext [index_key schema_type field val])], st)
      ([(k1, AddNext []), (k2, AddNext [])], st') \<and>
    index_has (index_abs st') (index_key schema_type field val) k2 \<and>
    (\<forall>sv. sv_indexes sv = index_abs st' \<longrightarrow> (\<forall>e limit offset. \<exists>rs.
       query e schema_type field val limit offset sv = Some (Inr rs, sv) \<and> k1 \<notin> kv_key ` set rs))"
proof -
  let ?i = "index_key schema_type field val"
  let ?a = "is_fresh st"
  define s1 where "s1 = set_at ?a {|k1|} (new_set ?i st)"
  define s2 where "s2 = set_at (Suc ?a) {|k2|} (new_set ?i s1)"
  let ?R = "rtranclp index_interleave"
  have "?R ([(k1, AddNext [?i]), (k2, AddNext [?i])], st) ([(k1, AddMissing ?i []), (k2, AddNext [?i])], st)"
    by (rule first_turn) (simp add: assms(2))
  also have "?R \<dots> ([(k1, AddMissing ?i []), (k2, AddMissing ?i [])], st)"
    by (rule second_turn) (simp add: assms(2))
  also have "?R \<dots> ([(k1, AddInto ?a []), (k2, AddMissing ?i [])], new_set ?i st)"
    by (rule first_turn) simp
  also have "?R \<dots> ([(k1, AddNext []), (k2, AddMissing ?i [])], s1)"
    by (rule first_turn) (simp add: s1_def)
  also have "?R \<dots> ([(k1, AddNext []), (k2, AddInto (Suc ?a) [])], new_set ?i s1)"
    by (rule second_turn) (simp add: s1_def)
  also have "?R \<dots> ([(k1, AddNext []), (k2, AddNext [])], s2)"
    by (rule second_turn) (simp add: s2_def s1_def)
  finally have run: "?R ([(k1, AddNext [?i]), (k2, AddNext [?i])], st) ([(k1, AddNext []), (k2, AddNext [])], s2)" .
  have has: "index_has (index_abs s2) ?i k \<longleftrightarrow> k = k2" for k by (simp add: index_has_abs s2_def s1_def)
  have "\<exists>rs. query e schema_type field val limit offset sv = Some (Inr rs, sv) \<and> k1 \<notin> kv_key ` set rs"
    if "sv_indexes sv = index_abs s2" for sv e limit offset
  proof -
    obtain rs where rs: "query e schema_type field val limit offset sv = Some (Inr rs, sv)"
      using query_answers by blast
    moreover have "kv_key kv = k2" if "kv \<in> set rs" for kv
      using query_filed [OF rs that] unfolding \<open>sv_indexes sv = _\<close> has .
    ultimately show ?thesis using assms(1) by blast
  qed
  moreover have "index_has (index_abs s2) ?i k2" by (simp add: has)
  ultimately show ?thesis using run by blast
qed

theorem index_set_race_witness:
  "\<exists>st'. rtranclp index_interleave
      ([(''user:1'', AddNext [''User:name:A'']), (''user:2'', AddNext [''User:name:A''])],
       \<lparr>is_map = fmempty, is_sets = (\<lambda>_. {||}), is_fresh = 0\<rparr>)
      ([(''user:1'', AddNext []), (''user:2'', AddNext [])], st') \<and>
     index_has (index_abs st') ''User:name:A'' ''user:2'' \<and>
     (\<exists>rs. query (at 1) ''User'' ''name'' ''A'' None None (blank_server\<lparr>sv_indexes := index_abs st'\<rparr>) =
       Some (Inr rs, blank_server\<lparr>sv_indexes := index_abs st'\<rparr>) \<and> ''user:1'' \<notin> kv_key ` set rs)"
proof -
  have k: "index_key ''User'' ''name'' ''A'' = ''User:name:A''" by (simp add: index_key_def)
  show ?thesis
    using index_set_race [of "''user:1''" "''user:2''" "\<lparr>is_map = fmempty, is_sets = (\<lambda>_. {||}), is_fresh = 0\<rparr>"
        "''User''" "''name''" "''A''", unfolded k] by fastforce
qed

end
