(* ===== verification/Reader_Properties.thy ===== *)
theory Reader_Properties
  imports Node_Properties Index_Steps
begin

text \<open>
  What scans and queries answer on a node whose other tasks write meanwhile: runs are the lists of
  the configurations that the node goes through, \<open>T\<close> the readings of the clock in the run.
\<close>

section \<open>Scans beside writers\<close>

text \<open>The records that a scan has pushed, from the entries it has visited.\<close>

definition passes :: "('n, 'z) serde_scheme \<Rightarrow> scan_filter list \<Rightarrow> nat option \<Rightarrow> db_record \<Rightarrow> bool" where
  "passes x filters now r \<longleftrightarrow> live now r \<and> matches_filters x (rec_value r) filters"

definition answers :: "('n, 'z) serde_scheme \<Rightarrow> scan_filter list \<Rightarrow> visit list \<Rightarrow> kv_record list" where
  "answers x filters vs = map (\<lambda>(k, r, now). answer (k, r)) (filter (\<lambda>(k, r, now). passes x filters now r) vs)"

lemma answers_push:
  "answers x filters (vs @ [(k, r, now)]) = answers x filters vs @ (if passes x filters now r then [answer (k, r)] else [])"
  by (simp add: answers_def)

fun scanning ::
  "('n, 'z) serde_scheme \<Rightarrow> nat option set \<Rightarrow> scan_bounds \<Rightarrow> scan_filter list \<Rightarrow> (str, db_record) fmap set \<Rightarrow> reader \<Rightarrow> bool" where
  "scanning x T b filters M (ScanNext b' filters' c rs) \<longleftrightarrow> b' = b \<and> filters' = filters \<and> first_cursor b \<le> c \<and>
     (\<exists>vs. walked T b (\<lambda>k. \<not> ahead c k) M vs \<and> rs = answers x filters vs)"
| "scanning x T b filters M (ReaderEnd rs) \<longleftrightarrow> (\<exists>vs. walked T b (\<lambda>_. True) M vs \<and> rs = answers x filters vs)"
| "scanning x T b filters M _ \<longleftrightarrow> False"

lemma scanning_grow: "scanning x T b filters M rd \<Longrightarrow> M \<subseteq> M' \<Longrightarrow> scanning x T b filters M' rd"
  by (cases rd) (auto intro: walked_grow)

lemma scanning_step:
  assumes "scanning x T b filters M rd" "reader_step x now rd sv = Some rd'" "sv_tree sv \<in> M" "now \<in> T"
  shows "scanning x T b filters M rd'"
proof (cases rd)
  case (ScanNext b' filters' c rs)
  then obtain vs where vs: "first_cursor b \<le> c" "walked T b (\<lambda>k. \<not> ahead c k) M vs"
    and rd: "rd = ScanNext b filters c (answers x filters vs)" using assms(1) by auto
  show ?thesis
  proof (cases "next_entry c (sv_tree sv)")
    case None
    then show ?thesis using walked_stop [OF vs(2,1) assms(3)] assms(2) rd by auto
  next
    case (Some e)
    then obtain k r where n: "next_entry c (sv_tree sv) = Some (k, r)" by (cases e) auto
    show ?thesis
    proof (cases "goes_on b k")
      case False
      then show ?thesis using walked_stop [OF vs(2,1) assms(3)] assms(2) rd n by auto
    next
      case True
      then have "rd' = ScanNext b filters (After k) (answers x filters (vs @ [(k, r, now)]))"
        using assms(2) rd n by (auto simp: answers_push passes_def live_def)
      then show ?thesis using walked_visit [OF vs(2,1) n True assms(3,4)] by auto
    qed
  qed
qed (use assms in auto)

definition scan_at :: "('n, 'z) ext_scheme \<Rightarrow> nat option set \<Rightarrow> scan_bounds \<Rightarrow> scan_filter list \<Rightarrow> nat \<Rightarrow> node list \<Rightarrow> bool" where
  "scan_at x T b filters i nds \<longleftrightarrow> nds \<noteq> [] \<and> i < length (nd_readers (last nds)) \<and>
     scanning x T b filters (trees nds) (nd_readers (last nds) ! i)"

lemma scan_at_step:
  assumes "scan_at x T b filters i (nds @ [nd])" "node_step x T nd nd'"
  shows "scan_at x T b filters i (nds @ [nd, nd'])"
proof -
  have s: "i < length (nd_readers nd)" "scanning x T b filters (trees (nds @ [nd])) (nd_readers nd ! i)"
    using assms(1) by (simp_all add: scan_at_def)
  have g: "scanning x T b filters (trees (nds @ [nd, nd'])) (nd_readers nd ! i)"
    by (rule scanning_grow [OF s(2)]) auto
  show ?thesis
    using node_step_reader [OF assms(2) s(1)] g scanning_step [OF g] by (auto simp: scan_at_def)
qed

interpretation scan: run_invariant "node_step x T" "scan_at x T b filters i" for x T b filters i
  by unfold_locales (rule scan_at_step)

text \<open>
  C22: Scans beside writers. However the visits of a range or prefix scan are interleaved with what
  else a node does, the answers come in strictly increasing key order and within the bounds; each of
  them is a record that was in the tree, matching the filters, at some point of the run, and live at
  some reading of the clock; and no record that stayed in the tree throughout the run, matching the
  filters and live at every reading, is missed.
\<close>

theorem scan_beside_writers:
  assumes "successively (node_step x T) (nd # nds)" "i < length (nd_readers nd)"
    and "nd_readers nd ! i = ScanNext b filters (first_cursor b) []" "nd_readers (last (nd # nds)) ! i = ReaderEnd rs"
  shows "sorted_wrt (<) (map kv_key rs) \<and>
    (\<forall>kv \<in> set rs. in_bounds b (kv_key kv) \<and> (\<exists>d \<in> set (nd # nds). \<exists>r. \<exists>now \<in> T.
       fmlookup (sv_tree (nd_server d)) (kv_key kv) = Some r \<and> passes x filters now r \<and> kv = answer (kv_key kv, r))) \<and>
    (\<forall>k r. in_bounds b k \<and> (\<forall>now \<in> T. passes x filters now r) \<and>
       (\<forall>d \<in> set (nd # nds). fmlookup (sv_tree (nd_server d)) k = Some r) \<longrightarrow> answer (k, r) \<in> set rs)"
proof -
  have "scan_at x T b filters i [nd]"
    using assms(2,3) walked_start [of T b "{sv_tree (nd_server nd)}"] by (auto simp: scan_at_def answers_def)
  from scan.run [OF assms(1) this] obtain vs where w: "walked T b (\<lambda>_. True) (trees (nd # nds)) vs" and rs: "rs = answers x filters vs"
    using assms(4) by (auto simp: scan_at_def)
  have key: "kv_key (answer (k, r)) = k" for k r by (simp add: answer_def)
  have "map kv_key rs = map fst (filter (\<lambda>(k, r, now). passes x filters now r) vs)"
    by (auto simp: rs answers_def key)
  then have "sorted_wrt (<) (map kv_key rs)" using w by (simp add: walked_def sorted_wrt_map sorted_wrt_filter)
  moreover have "in_bounds b (kv_key kv) \<and> (\<exists>d \<in> set (nd # nds). \<exists>r. \<exists>now \<in> T.
      fmlookup (sv_tree (nd_server d)) (kv_key kv) = Some r \<and> passes x filters now r \<and> kv = answer (kv_key kv, r))"
    if kv: "kv \<in> set rs" for kv
  proof -
    obtain k r now where v: "(k, r, now) \<in> set vs" "passes x filters now r" "kv = answer (k, r)"
      using kv by (auto simp: rs answers_def)
    then have b: "in_bounds b k" "now \<in> T" "\<exists>d \<in> set (nd # nds). fmlookup (sv_tree (nd_server d)) k = Some r"
      using walked_visited [OF w] by (auto simp: trees_def)
    have "kv_key kv = k" using v(3) key by simp
    then show ?thesis using v(2,3) b by blast
  qed
  moreover have "answer (k, r) \<in> set rs" if k: "in_bounds b k" "\<forall>now \<in> T. passes x filters now r"
    "\<forall>d \<in> set (nd # nds). fmlookup (sv_tree (nd_server d)) k = Some r" for k r
  proof -
    obtain now where "now \<in> T" "(k, r, now) \<in> set vs"
      using walked_all [OF w _ k(1), of r] k(3) by (auto simp: trees_def)
    then show ?thesis using k(2) by (force simp: rs answers_def)
  qed
  ultimately show ?thesis by blast
qed

section \<open>Queries beside writers\<close>

text \<open>A key that was filed at some point of the run, and the records found.\<close>

definition filed :: "node list \<Rightarrow> str \<Rightarrow> str \<Rightarrow> bool" where
  "filed nds i k \<longleftrightarrow> (\<exists>d \<in> set nds. index_has (sv_indexes (nd_server d)) i k)"

definition found :: "nat option set \<Rightarrow> str \<Rightarrow> node list \<Rightarrow> kv_record list \<Rightarrow> bool" where
  "found T i nds rs \<longleftrightarrow> sorted_wrt (<) (map kv_key rs) \<and>
     (\<forall>kv \<in> set rs. filed nds i (kv_key kv) \<and> (\<exists>d \<in> set nds. \<exists>r. \<exists>now \<in> T.
        fmlookup (sv_tree (nd_server d)) (kv_key kv) = Some r \<and> live now r \<and> kv = answer (kv_key kv, r)))"

lemma found_grow: "found T i nds rs \<Longrightarrow> set nds \<subseteq> set nds' \<Longrightarrow> found T i nds' rs"
  unfolding found_def filed_def by blast

lemma found_push:
  assumes "found T i nds rs" "\<forall>kv \<in> set rs. kv_key kv < k" "filed nds i k"
    and "d \<in> set nds" "fmlookup (sv_tree (nd_server d)) k = Some r" "now \<in> T" "live now r"
  shows "found T i nds (rs @ [answer (k, r)])"
proof -
  have "kv_key (answer (k, r)) = k" by (simp add: answer_def)
  then show ?thesis using assms unfolding found_def by (auto simp: sorted_wrt_append)
qed

fun querying :: "nat option set \<Rightarrow> str \<Rightarrow> nat \<Rightarrow> node list \<Rightarrow> reader \<Rightarrow> bool" where
  "querying T i m nds (QueryStart i' limit offset) \<longleftrightarrow> i' = i \<and> (case limit of Some n \<Rightarrow> unat n | None \<Rightarrow> 100) = m"
| "querying T i m nds (QueryNext i' skip limit c rs) \<longleftrightarrow> i' = i \<and> found T i nds rs \<and>
     length rs + limit \<le> m \<and> (\<forall>kv \<in> set rs. \<not> ahead c (kv_key kv))"
| "querying T i m nds (QueryLookup i' limit k rs) \<longleftrightarrow> i' = i \<and> found T i nds rs \<and> filed nds i k \<and>
     length rs + limit < m \<and> (\<forall>kv \<in> set rs. kv_key kv < k)"
| "querying T i m nds (ReaderEnd rs) \<longleftrightarrow> found T i nds rs \<and> length rs \<le> m"
| "querying T i m nds _ \<longleftrightarrow> False"

lemma querying_grow: "querying T i m nds rd \<Longrightarrow> set nds \<subseteq> set nds' \<Longrightarrow> querying T i m nds' rd"
  by (cases rd) (auto intro: found_grow simp: filed_def)

lemma querying_step:
  assumes "querying T i m nds rd" "reader_step x now rd (nd_server d) = Some rd'" "d \<in> set nds" "now \<in> T"
  shows "querying T i m nds rd'"
proof (cases rd)
  case (QueryStart i' limit offset)
  then show ?thesis using assms by (auto simp: found_def split: option.splits)
next
  case (QueryNext i' skip limit c rs)
  let ?S = "case fmlookup (sv_indexes (nd_server d)) i of Some S \<Rightarrow> S | None \<Rightarrow> {||}"
  show ?thesis
  proof (cases "next_key c ?S")
    case None
    then show ?thesis using assms QueryNext by (auto split: if_splits)
  next
    case (Some k)
    have "filed nds i k"
      using next_key_Some(1) [OF Some] assms(3) by (force simp: filed_def index_has_def split: option.splits)
    moreover have "\<forall>kv \<in> set rs. kv_key kv < k"
      using next_key_Some(2) [OF Some] assms(1) QueryNext ahead_mono [of c k] by (auto simp: linorder_not_less [symmetric])
    moreover from this have "\<forall>kv \<in> set rs. \<not> k < kv_key kv" by (auto dest: less_imp_not_less)
    ultimately show ?thesis using assms(1,2) QueryNext Some by (auto split: if_splits)
  qed
next
  case (QueryLookup i' limit k rs)
  with assms(1) have q: "i' = i" "found T i nds rs" "filed nds i k" "length rs + limit < m"
    "\<forall>kv \<in> set rs. kv_key kv < k" by simp_all
  have n: "\<forall>kv \<in> set rs. \<not> k < kv_key kv" using q(5) by (auto dest: less_imp_not_less)
  show ?thesis
  proof (cases "fmlookup (sv_tree (nd_server d)) k")
    case None
    then show ?thesis using assms(2) QueryLookup q n by auto
  next
    case (Some r)
    have "kv_key (answer (k, r)) = k" by (simp add: answer_def)
    then show ?thesis
      using found_push [OF q(2,5,3) assms(3) Some assms(4)] assms(2) QueryLookup q n Some by (auto simp: live_def)
  qed
qed (use assms in auto)

definition query_at :: "nat option set \<Rightarrow> str \<Rightarrow> nat \<Rightarrow> nat \<Rightarrow> node list \<Rightarrow> bool" where
  "query_at T idx m i nds \<longleftrightarrow> nds \<noteq> [] \<and> i < length (nd_readers (last nds)) \<and>
     querying T idx m nds (nd_readers (last nds) ! i)"

lemma query_at_step:
  assumes "query_at T idx m i (nds @ [nd])" "node_step x T nd nd'"
  shows "query_at T idx m i (nds @ [nd, nd'])"
proof -
  have s: "i < length (nd_readers nd)" "querying T idx m (nds @ [nd]) (nd_readers nd ! i)"
    using assms(1) by (simp_all add: query_at_def)
  have g: "querying T idx m (nds @ [nd, nd']) (nd_readers nd ! i)"
    by (rule querying_grow [OF s(2)]) auto
  show ?thesis
    using node_step_reader [OF assms(2) s(1)] g querying_step [OF g] by (auto simp: query_at_def)
qed

interpretation quest: run_invariant "node_step x T" "query_at T idx m i" for x T idx m i
  by unfold_locales (rule query_at_step)

text \<open>
  Queries beside writers. However a query is interleaved with what else a node does, it answers
  at most \<open>limit\<close> (default 100) records, in strictly increasing key order; the key of each was filed
  under the index key at some point of the run, and the record was in the tree at some point of it
  and live at some reading of the clock.
\<close>

theorem query_beside_writers:
  assumes "successively (node_step x T) (nd # nds)" "i < length (nd_readers nd)"
    and "nd_readers nd ! i = QueryStart (index_key schema_type field val) limit offset"
    and "nd_readers (last (nd # nds)) ! i = ReaderEnd rs"
  shows "length rs \<le> (case limit of Some n \<Rightarrow> unat n | None \<Rightarrow> 100) \<and> sorted_wrt (<) (map kv_key rs) \<and>
    (\<forall>kv \<in> set rs.
       (\<exists>d \<in> set (nd # nds). index_has (sv_indexes (nd_server d)) (index_key schema_type field val) (kv_key kv)) \<and>
       (\<exists>d \<in> set (nd # nds). \<exists>r. \<exists>now \<in> T. fmlookup (sv_tree (nd_server d)) (kv_key kv) = Some r \<and> live now r \<and>
          kv = answer (kv_key kv, r)))"
proof -
  have "query_at T (index_key schema_type field val) (case limit of Some n \<Rightarrow> unat n | None \<Rightarrow> 100) i [nd]"
    using assms(2,3) by (simp add: query_at_def)
  from quest.run [OF assms(1) this] show ?thesis using assms(4) by (simp add: query_at_def found_def filed_def)
qed

section \<open>Queries in the middle of a put\<close>

lemma query_includes:
  assumes "query e schema_type field val (Some limit) None sv = Some (Inr rs, sv)"
    and "index_has (sv_indexes sv) (index_key schema_type field val) k"
    and "fmlookup (sv_tree sv) k = Some r" "live (en_now e) r"
    and "\<And>k'. index_has (sv_indexes sv) (index_key schema_type field val) k' \<Longrightarrow> k' |\<in>| fmdom (sv_tree sv)"
    and "fcard (fmdom (sv_tree sv)) \<le> unat limit"
  shows "answer (k, r) \<in> set rs"
proof -
  obtain S where S: "fmlookup (sv_indexes sv) (index_key schema_type field val) = Some S" "k |\<in>| S"
    using assms(2) by (auto simp: index_has_def split: option.splits)
  have "S |\<subseteq>| fmdom (sv_tree sv)" using assms(5) S(1) by (auto simp: index_has_def)
  then have "fcard S \<le> unat limit" using fcard_mono assms(6) le_trans by blast
  then have "take (unat limit) (sorted_list_of_fset S) = sorted_list_of_fset S"
    by (simp add: sorted_list_of_fset.rep_eq fcard.rep_eq)
  moreover have "(k, r) \<in> set (List.map_filter (\<lambda>k. map_option (\<lambda>r. (k, r)) (fmlookup (sv_tree sv) k)) (sorted_list_of_fset S))"
    using S(2) assms(3) by (force simp: List.map_filter_def sorted_list_of_fset.rep_eq)
  ultimately show ?thesis using assms(1,4) S(1) by (force simp: query_def Let_def)
qed

text \<open>
  A put files the new value before it stores it. Between the two, a query for the new value
  answers the record with its old value, and a query for the old value, which the tree still holds,
  misses it.
\<close>

theorem put_query_race:
  assumes "index_ok x sv" "\<not> sv_is_replica sv" "ttl_expiry (en_now e) ttl = Some ex"
    and "fmlookup (sv_tree sv) k = Some old" "live (en_now e2) old"
    and "index_key schema_type field a \<notin> set (extract_index_keys x (sv_schema_registry sv) k new)"
    and "index_key schema_type field b \<in> set (extract_index_keys x (sv_schema_registry sv) k new)"
    and "index_key schema_type field a \<in> set (extract_index_keys x (sv_schema_registry sv) k (rec_value old))"
    and "fcard (fmdom (sv_tree sv)) \<le> unat limit"
  shows "\<exists>sv1 ra rb. play x (replicate 3 (Turn 0)) ([PutTask e k new ttl PutStart], sv) =
      Some ([PutTask e k new ttl (PutCache ex)], sv1) \<and> fmlookup (sv_tree sv1) k = Some old \<and>
    query e2 schema_type field a (Some limit) None sv1 = Some (Inr ra, sv1) \<and> k \<notin> kv_key ` set ra \<and>
    query e2 schema_type field b (Some limit) None sv1 = Some (Inr rb, sv1) \<and> answer (k, old) \<in> set rb"
proof -
  let ?keys = "extract_index_keys x (sv_schema_registry sv) k"
  define sv1 where "sv1 = index_record x k new (remove_record_from_index x k (rec_value old) sv)"
  have p: "play x (replicate 3 (Turn 0)) ([PutTask e k new ttl PutStart], sv) = Some ([PutTask e k new ttl (PutCache ex)], sv1)"
    using assms(2-4) by (simp add: numeral_3_eq_3 sv1_def)
  have t: "sv_tree sv1 = sv_tree sv" by (simp add: sv1_def step_defs)
  have h: "index_has (sv_indexes sv1) i k' \<longleftrightarrow>
      index_has (sv_indexes sv) i k' \<and> \<not> (k' = k \<and> i \<in> set (?keys (rec_value old))) \<or> k' = k \<and> i \<in> set (?keys new)" for i k'
    by (simp add: sv1_def step_defs ix.has_add ix.has_del)
  have d: "k' |\<in>| fmdom (sv_tree sv1)" if "index_has (sv_indexes sv1) i k'" for i k'
    using that assms(1,4) by (auto simp: h t index_ok_def index_agrees_def tree_values_def fmlookup_dom_iff)
  obtain ra rb where q: "query e2 schema_type field a (Some limit) None sv1 = Some (Inr ra, sv1)"
    "query e2 schema_type field b (Some limit) None sv1 = Some (Inr rb, sv1)" using query_answers by meson
  have "k \<notin> kv_key ` set ra" using query_filed [OF q(1)] assms(6,8) by (auto simp: h)
  moreover have "answer (k, old) \<in> set rb"
  proof (rule query_includes [OF q(2)])
    show "index_has (sv_indexes sv1) (index_key schema_type field b) k" using assms(7) by (simp add: h)
    show "fmlookup (sv_tree sv1) k = Some old" "fcard (fmdom (sv_tree sv1)) \<le> unat limit"
      using assms(4,9) by (simp_all add: t)
  qed (use assms(5) d in blast)+
  ultimately show ?thesis using p q t assms(4) by auto
qed

section \<open>Instances\<close>

text \<open>A server with one record under an indexed field.\<close>

definition user_server :: server where
  "user_server = schema_server\<lparr>
     sv_tree := fmupd ''user:1'' \<lparr>rec_value = [65], rec_expires = None, rec_version = 1\<rparr> fmempty,
     sv_indexes := index_add plain_ext (load_nodes sample_schema registry_new) ''user:1'' [65] fmempty\<rparr>"

lemma user_server_ok:
  "index_ok plain_ext user_server" "\<not> sv_is_replica user_server"
  "sv_schema_registry user_server = load_nodes sample_schema registry_new"
  "sv_tree user_server = fmupd ''user:1'' \<lparr>rec_value = [65], rec_expires = None, rec_version = 1\<rparr> fmempty"
proof -
  show s: "sv_schema_registry user_server = load_nodes sample_schema registry_new"
    "sv_tree user_server = fmupd ''user:1'' \<lparr>rec_value = [65], rec_expires = None, rec_version = 1\<rparr> fmempty"
    "\<not> sv_is_replica user_server"
    by (simp_all add: user_server_def schema_server_def blank_server_def)
  have "tree_values (sv_tree user_server) = [''user:1'' \<mapsto> [65]]"
    by (auto simp: s(2) tree_values_def fun_eq_iff)
  then show "index_ok plain_ext user_server"
    by (simp add: index_ok_def s(1)) (simp add: user_server_def ix.agrees_insert ix.agrees_empty)
qed

lemma user_ext_keys:
  "extract_index_keys plain_ext (load_nodes sample_schema registry_new) ''user:1'' [b] =
     [''User:name:'' @ [char_of (unat b)]]"
proof -
  have "from_slice plain_ext = plain_json" by (simp add: plain_ext_def plain_wal_def wal_ext.extend_def)
  then show ?thesis
    by (simp add: extract_index_keys_def indexed_fields_for_prefix_def load_nodes_def sample_schema_def registry_new_def
        split_first_def List.map_filter_def index_key_def)
qed

theorem put_query_race_witness:
  "\<exists>sv1 ra rb. play plain_ext (replicate 3 (Turn 0)) ([PutTask (at 2) ''user:1'' [66] None PutStart], user_server) =
       Some ([PutTask (at 2) ''user:1'' [66] None (PutCache None)], sv1) \<and>
     query (at 3) ''User'' ''name'' ''A'' (Some 5) None sv1 = Some (Inr ra, sv1) \<and> ''user:1'' \<notin> kv_key ` set ra \<and>
     query (at 3) ''User'' ''name'' ''B'' (Some 5) None sv1 = Some (Inr rb, sv1) \<and>
     \<lparr>kv_key = ''user:1'', kv_value = [65], kv_expires = None\<rparr> \<in> set rb"
proof -
  have c: "fcard (fmdom (sv_tree user_server)) \<le> unat (5 :: u32)" by (simp add: user_server_ok fcard.rep_eq)
  have k: "index_key ''User'' ''name'' v = ''User:name:'' @ v" for v by (simp add: index_key_def)
  show ?thesis
    using put_query_race [OF user_server_ok(1,2), of "at 2" None None "''user:1''"
        "\<lparr>rec_value = [65], rec_expires = None, rec_version = 1\<rparr>" "at 3" "''User''" "''name''" "''A''" "[66]" "''B''" 5]
      c by (simp add: user_server_ok user_ext_keys k ttl_expiry_def live_def is_expired_def answer_def) blast
qed

lemma first_put_step:
  "task_step plain_ext (PutTask (at 2) ''user:2'' [66] None PutStart) user_server =
     Some (PutTask (at 2) ''user:2'' [66] None (PutUnindex None None), user_server)"
  by (simp add: user_server_ok ttl_expiry_def)

text \<open>A node with this server, one put and one scan or query, and what it looks like later.\<close>

definition pair_node :: "put_phase \<Rightarrow> reader \<Rightarrow> node" where
  "pair_node p rd = \<lparr>nd_tasks = [PutTask (at 2) ''user:2'' [66] None p], nd_readers = [rd], nd_saver = SaveIdle,
     nd_evictor = EvictIdle, nd_server = user_server\<rparr>"

lemma pair_node_steps:
  "node_step plain_ext T (pair_node PutStart rd) (pair_node (PutUnindex None None) rd)"
  "now \<in> T \<Longrightarrow> reader_step plain_ext now rd user_server = Some rd' \<Longrightarrow> node_step plain_ext T (pair_node p rd) (pair_node p rd')"
proof -
  show "node_step plain_ext T (pair_node PutStart rd) (pair_node (PutUnindex None None) rd)"
    using node_work.turn [of "pair_node PutStart rd" "[]" _ "[]", OF _ _, of _ plain_ext _ _ T] first_put_step
    by (simp add: node_step_def pair_node_def)
  show "now \<in> T \<Longrightarrow> reader_step plain_ext now rd user_server = Some rd' \<Longrightarrow> node_step plain_ext T (pair_node p rd) (pair_node p rd')"
    using node_work.read [of 0 "pair_node p rd" now T plain_ext rd'] by (simp add: node_step_def pair_node_def)
qed

theorem scan_beside_writers_witness:
  "\<exists>nds rs. successively (node_step plain_ext {Some 3}) (pair_node PutStart (ScanNext (Prefixed ''user'') [] (From ''user'') []) # nds) \<and>
     nd_readers (last nds) = [ReaderEnd rs] \<and> \<lparr>kv_key = ''user:1'', kv_value = [65], kv_expires = None\<rparr> \<in> set rs"
proof -
  let ?r = "\<lparr>rec_value = [65], rec_expires = None, rec_version = 1\<rparr>"
  let ?a = "answer (''user:1'', ?r)" and ?q = "PutUnindex None None"
  define nd where "nd = pair_node PutStart (ScanNext (Prefixed ''user'') [] (From ''user'') [])"
  define nds where "nds = [pair_node ?q (ScanNext (Prefixed ''user'') [] (From ''user'') []),
    pair_node ?q (ScanNext (Prefixed ''user'') [] (After ''user:1'') [?a]), pair_node ?q (ReaderEnd [?a])]"
  have n: "next_entry (From ''user'') (sv_tree user_server) = Some (''user:1'', ?r)"
    "next_entry (After ''user:1'') (sv_tree user_server) = None"
    by (simp_all add: user_server_ok next_entry_def next_key_def sorted_list_of_fset_finsert)
  have run: "successively (node_step plain_ext {Some 3}) (nd # nds)"
    unfolding nd_def nds_def
    by (simp add: pair_node_steps(1) pair_node_steps(2) [of "Some 3"] n starts_with_def matches_filters_def is_expired_def)
  have f: "0 < length (nd_readers nd)" "nd_readers nd ! 0 = ScanNext (Prefixed ''user'') [] (first_cursor (Prefixed ''user'')) []"
    "nd_readers (last (nd # nds)) ! 0 = ReaderEnd [?a]" by (simp_all add: nd_def nds_def pair_node_def)
  have "\<forall>d \<in> set (nd # nds). fmlookup (sv_tree (nd_server d)) ''user:1'' = Some ?r"
    by (simp add: nd_def nds_def pair_node_def user_server_ok(4))
  moreover have "in_bounds (Prefixed ''user'') ''user:1''" "\<forall>now \<in> {Some 3}. passes plain_ext [] now ?r"
    by (simp_all add: in_bounds_def starts_with_def passes_def live_def is_expired_def matches_filters_def)
  ultimately have "?a \<in> set [?a]" using scan_beside_writers [OF run f] by blast
  moreover have "nd_readers (last nds) = [ReaderEnd [?a]]" by (simp add: nds_def pair_node_def)
  ultimately show ?thesis
    using run unfolding nd_def by (intro exI [of _ nds] exI [of _ "[?a]"]) (simp add: answer_def)
qed

theorem query_beside_writers_witness:
  "\<exists>nds rs. successively (node_step plain_ext {Some 3}) (pair_node PutStart (QueryStart ''User:name:A'' None None) # nds) \<and>
     nd_readers (last nds) = [ReaderEnd rs] \<and> map kv_key rs = [''user:1''] \<and> length rs \<le> 100"
proof -
  let ?r = "\<lparr>rec_value = [65], rec_expires = None, rec_version = 1\<rparr>"
  let ?a = "answer (''user:1'', ?r)" and ?q = "PutUnindex None None" and ?i = "''User:name:A''"
  have k: "index_key ''User'' ''name'' ''A'' = ?i" by (simp add: index_key_def)
  define nd where "nd = pair_node PutStart (QueryStart ?i None None)"
  define nds where "nds = [pair_node PutStart (QueryNext ?i 0 100 (From []) []),
    pair_node PutStart (QueryLookup ?i 99 ''user:1'' []), pair_node ?q (QueryLookup ?i 99 ''user:1'' []),
    pair_node ?q (QueryNext ?i 0 99 (After ''user:1'') [?a]), pair_node ?q (ReaderEnd [?a])]"
  have i: "fmlookup (sv_indexes user_server) ?i = Some {|''user:1''|}"
    by (simp add: user_server_def index_add_def user_ext_keys skip_set_insert_def)
  have n: "next_key (From []) {|''user:1''|} = Some ''user:1''" "next_key (After ''user:1'') {|''user:1''|} = None"
    by (simp_all add: next_key_def sorted_list_of_fset_finsert)
  have run: "successively (node_step plain_ext {Some 3}) (nd # nds)"
    unfolding nd_def nds_def
    by (simp add: pair_node_steps(1) pair_node_steps(2) [of "Some 3"] n i is_expired_def user_server_ok)
  have f: "0 < length (nd_readers nd)" "nd_readers nd ! 0 = QueryStart (index_key ''User'' ''name'' ''A'') None None"
    "nd_readers (last (nd # nds)) ! 0 = ReaderEnd [?a]" by (simp_all add: nd_def nds_def pair_node_def k)
  have "length [?a] \<le> 100" using query_beside_writers [OF run f] by (simp only: option.case)
  moreover have "nd_readers (last nds) = [ReaderEnd [?a]]" by (simp add: nds_def pair_node_def)
  ultimately show ?thesis
    using run unfolding nd_def by (intro exI [of _ nds] exI [of _ "[?a]"]) (simp add: answer_def)
qed

end
