(* ===== verification/Background_Properties.thy ===== *)
theory Background_Properties
  imports Node_Properties
begin

text \<open>
  What the save and the eviction do on a node whose other tasks write meanwhile: which records a
  snapshot contains that is taken beside writers, what becomes of the log, and which records a round
  of the eviction removes.
\<close>

section \<open>Loading the text of a walk\<close>

lemma load_text:
  assumes "snap_codec_ok x" "distinct (map fst es)"
  shows "fmlookup (rv_tree (load_snapshot x now reg (Content (text_of x es)) recovery_start)) k =
    Option.bind (map_of es k) (\<lambda>r. if live now r then Some r else None)"
proof -
  have "text_of x es = concat (map (\<lambda>l. l @ [newline]) (map (snapshot_line x) es))"
    by (simp add: text_of_def comp_def)
  moreover have "\<forall>l \<in> set (map (snapshot_line x) es). newline \<notin> set l \<and> strip_cr l = l"
    using snap_codec_ok_line [OF assms(1)] by (auto simp: snapshot_line_def)
  ultimately have "file_lines (text_of x es) = map (snapshot_line x) es" by (simp only: file_lines_concat)
  then show ?thesis
    using load_lines_tree [OF assms, of now reg recovery_start]
    by (auto simp: load_snapshot_def recovery_start_def map_add_def split: Option.bind_splits option.split)
qed

text \<open>The text that a save writes, from the entries it has visited.\<close>

definition saved :: "('n, 'z) ext_scheme \<Rightarrow> visit list \<Rightarrow> str" where
  "saved x vs = text_of x (map (\<lambda>(k, r, now). (k, r)) (filter (\<lambda>(k, r, now). live now r) vs))"

lemma saved_push:
  "saved x (vs @ [(k, r, now)]) = (if live now r then saved x vs @ snapshot_line x (k, r) @ [newline] else saved x vs)"
  by (simp add: saved_def)

lemma load_visits:
  assumes "snap_codec_ok x" "sorted_wrt (<) (map fst vs)"
  shows "fmlookup (rv_tree (load_snapshot x now reg (Content (saved x vs)) recovery_start)) k = Some r \<longleftrightarrow>
    (\<exists>now'. (k, r, now') \<in> set vs \<and> live now' r) \<and> live now r"
proof -
  let ?es = "map (\<lambda>(k, r, now). (k, r)) (filter (\<lambda>(k, r, now). live now r) vs)"
  have "map fst ?es = map fst (filter (\<lambda>(k, r, now). live now r) vs)" by (simp add: comp_def case_prod_beta)
  moreover have "distinct (map fst vs)" using assms(2) strict_sorted_iff by blast
  ultimately have d: "distinct (map fst ?es)" by (simp only: distinct_map_filter)
  have "map_of ?es k = Some r \<longleftrightarrow> (k, r) \<in> set ?es" for r using d by (rule map_of_eq_Some_iff)
  also have "(k, r) \<in> set ?es \<longleftrightarrow> (\<exists>now'. (k, r, now') \<in> set vs \<and> live now' r)" for r by force
  finally show ?thesis
    unfolding saved_def load_text [OF assms(1) d] by (auto simp: bind_eq_Some_conv split: if_splits)
qed

section \<open>The save beside writers\<close>

text \<open>
  A save on its way to the file \<open>p\<close>, with the log \<open>w\<close>, from a disk \<open>d0\<close>: \<open>d\<close> is the disk now, \<open>M\<close>
  are the trees so far.
\<close>

definition walks :: "('n, 'z) ext_scheme \<Rightarrow> nat option set \<Rightarrow> (str, db_record) fmap set \<Rightarrow> (str \<Rightarrow> bool) \<Rightarrow> str \<Rightarrow> bool" where
  "walks x T M behind buf \<longleftrightarrow> (\<exists>vs. walked T (Prefixed []) behind M vs \<and> buf = saved x vs)"

definition untouched :: "str \<Rightarrow> str \<Rightarrow> (str \<Rightarrow> file_state) \<Rightarrow> (str \<Rightarrow> file_state) \<Rightarrow> bool" where
  "untouched p w d0 d \<longleftrightarrow> d p = d0 p \<and> d w = d0 w"

fun save_goes ::
  "('n, 'z) ext_scheme \<Rightarrow> nat option set \<Rightarrow> save_env \<Rightarrow> str \<Rightarrow> str \<Rightarrow> (str \<Rightarrow> file_state) \<Rightarrow> (str, db_record) fmap set
   \<Rightarrow> (str \<Rightarrow> file_state) \<Rightarrow> saver \<Rightarrow> bool" where
  "save_goes x T se p w d0 M d (SaveStart se') \<longleftrightarrow> False"
| "save_goes x T se p w d0 M d (SaveVisit se' p' c buf) \<longleftrightarrow> se' = se \<and> p' = p \<and> untouched p w d0 d \<and>
     From [] \<le> c \<and> walks x T M (\<lambda>k. \<not> ahead c k) buf"
| "save_goes x T se p w d0 M d (SaveRename se' p' buf) \<longleftrightarrow> se' = se \<and> p' = p \<and> untouched p w d0 d \<and>
     walks x T M (\<lambda>_. True) buf"
| "save_goes x T se p w d0 M d (SaveTruncate se' p' buf) \<longleftrightarrow> se' = se \<and> p' = p \<and> sn_rename_ok se \<and> d w = d0 w \<and>
     walks x T M (\<lambda>_. True) buf"
| "save_goes x T se p w d0 M d (SaveDrop se' q buf) \<longleftrightarrow> se' = se \<and> walks x T M (\<lambda>_. True) buf \<and>
     (if sn_rename_ok se then q = p \<and> d w = (if sn_truncate_ok se then Content [] else d0 w)
      else q = temp_path p \<and> untouched p w d0 d)"
| "save_goes x T se p w d0 M d SaveIdle \<longleftrightarrow>
     (if sn_rename_ok se
      then d w = (if sn_truncate_ok se then Content [] else d0 w) \<and>
        (sn_drop_ok se \<longrightarrow> (\<exists>buf. walks x T M (\<lambda>_. True) buf \<and> d p = Content buf))
      else untouched p w d0 d)"

lemma walks_grow: "walks x T M P buf \<Longrightarrow> M \<subseteq> M' \<Longrightarrow> walks x T M' P buf"
  unfolding walks_def using walked_grow by blast

lemma save_goes_grow: "save_goes x T se p w d0 M d s \<Longrightarrow> M \<subseteq> M' \<Longrightarrow> save_goes x T se p w d0 M' d s"
  using walks_grow by (cases s) (auto split: if_splits)

lemma save_goes_step:
  assumes "save_goes x T se p w d0 M (sv_disk sv) s" "saver_step x now s sv = Some (s', sv')" "sv_tree sv \<in> M" "now \<in> T"
    and "sv_wal sv = Some w" "\<exists>t. d0 w = Content t" "p \<noteq> w" "temp_path p \<noteq> w"
  shows "save_goes x T se p w d0 M (sv_disk sv') s'"
proof (cases s)
  case (SaveVisit se' p' c buf)
  have tp: "temp_path p \<noteq> p" by (simp add: temp_path_def)
  obtain vs where vs: "untouched p w d0 (sv_disk sv)" "From [] \<le> c" "walked T (Prefixed []) (\<lambda>k. \<not> ahead c k) M vs"
    and s: "s = SaveVisit se p c (saved x vs)" using SaveVisit assms(1) by (auto simp: walks_def)
  have c: "first_cursor (Prefixed []) \<le> c" using vs(2) by simp
  show ?thesis
  proof (cases "next_entry c (sv_tree sv)")
    case None
    then have "walks x T M (\<lambda>_. True) (saved x vs)" using walked_stop [OF vs(3) c assms(3)] by (auto simp: walks_def)
    then show ?thesis using assms(2,7,8) tp vs(1) None by (auto simp: s untouched_def)
  next
    case (Some e)
    then obtain k r where n: "next_entry c (sv_tree sv) = Some (k, r)" by (cases e) auto
    have g: "goes_on (Prefixed []) k" by (simp add: starts_with_def)
    have "s' = SaveVisit se p (After k) (saved x (vs @ [(k, r, now)]))" "sv' = sv"
      using assms(2) n by (simp_all add: s saved_push live_def)
    then show ?thesis
      using walked_visit [OF vs(3) c n g assms(3,4)] vs(1) by (auto simp: walks_def intro: order_trans [OF _ After_later])
  qed
next
  case (SaveRename se' p' buf)
  then show ?thesis using assms(1,2,7,8) by (cases "sn_rename_ok se") (auto simp: untouched_def)
next
  case (SaveTruncate se' p' buf)
  then show ?thesis using assms(1,2,5,6) by (auto simp: truncate_log_def wal_truncate_def)
next
  case (SaveDrop se' q buf)
  have "temp_path p \<noteq> p" by (simp add: temp_path_def)
  then show ?thesis using SaveDrop assms(1,2,7,8) by (auto simp: untouched_def split: if_splits)
qed (use assms in auto)

definition save_at ::
  "('n, 'z) ext_scheme \<Rightarrow> nat option set \<Rightarrow> save_env \<Rightarrow> str \<Rightarrow> str \<Rightarrow> (str \<Rightarrow> file_state) \<Rightarrow> node list \<Rightarrow> bool" where
  "save_at x T se p w d0 nds \<longleftrightarrow> nds \<noteq> [] \<and> (\<exists>t. d0 w = Content t) \<and> p \<noteq> w \<and> temp_path p \<noteq> w \<and> ((\<forall>nd \<in> set (butlast nds). nd_saver nd \<noteq> SaveIdle) \<longrightarrow>
     node_ok (last nds) \<and> sv_wal (nd_server (last nds)) = Some w \<and>
     save_goes x T se p w d0 (trees nds) (sv_disk (nd_server (last nds))) (nd_saver (last nds)))"

lemma save_goes_saving: "save_goes x T se p w d0 M d s \<Longrightarrow> s \<noteq> SaveIdle \<Longrightarrow> saving s"
  by (cases s) auto

lemma save_at_step:
  assumes "save_at x T se p w d0 (nds @ [nd])" "node_step x T nd nd'"
  shows "save_at x T se p w d0 (nds @ [nd, nd'])"
proof (cases "\<forall>d \<in> set (nds @ [nd]). nd_saver d \<noteq> SaveIdle")
  case True
  have w: "\<exists>t. d0 w = Content t" "p \<noteq> w" "temp_path p \<noteq> w" using assms(1) by (simp_all add: save_at_def)
  let ?M = "trees (nds @ [nd])" and ?M' = "trees (nds @ [nd, nd'])"
  have g: "node_ok nd" "sv_wal (nd_server nd) = Some w" "save_goes x T se p w d0 ?M (sv_disk (nd_server nd)) (nd_saver nd)"
    using assms(1) True by (auto simp: save_at_def)
  have "saving (nd_saver nd)" using save_goes_saving [OF g(3)] True by simp
  from node_step_saver [OF assms(2) this g(1)]
  have "save_goes x T se p w d0 ?M (sv_disk (nd_server nd')) (nd_saver nd')"
    using g(3) save_goes_step [OF g(3) _ _ _ g(2) w] by auto
  then have "save_goes x T se p w d0 ?M' (sv_disk (nd_server nd')) (nd_saver nd')"
    by (rule save_goes_grow) auto
  moreover have "node_ok nd'" by (rule node.ok_step [OF assms(2) g(1)])
  moreover have "sv_wal (nd_server nd') = Some w" using node_step_config [OF assms(2) g(1)] g(2) by (simp add: same_config_def)
  ultimately show ?thesis using w by (simp add: save_at_def)
qed (use assms(1) in \<open>auto simp: save_at_def butlast_append\<close>)

interpretation save: run_invariant "node_step x T" "save_at x T se p w d0" for x T se p w d0
  by unfold_locales (rule save_at_step)

text \<open>A restart from a snapshot of visited entries and an empty log.\<close>

lemma recover_visits:
  assumes "snap_codec_ok x" "walks x T M (\<lambda>_. True) buf" "d p = Content buf" "d w = Content []"
  shows "fmlookup (rv_tree (recover x now reg (Some p) (Some w) d)) k = Some r \<Longrightarrow>
      live now r \<and> (\<exists>t \<in> M. fmlookup t k = Some r)"
    and "(\<And>t. t \<in> M \<Longrightarrow> fmlookup t k = Some r) \<Longrightarrow> \<forall>now' \<in> insert now T. live now' r \<Longrightarrow>
      fmlookup (rv_tree (recover x now reg (Some p) (Some w) d)) k = Some r"
proof -
  obtain vs where w: "walked T (Prefixed []) (\<lambda>_. True) M vs" and buf: "buf = saved x vs" using assms(2) by (auto simp: walks_def)
  have "recover x now reg (Some p) (Some w) d = load_snapshot x now reg (Content (saved x vs)) recovery_start"
    by (simp add: recover_def assms(3,4) replay_log_empty buf)
  then have l: "fmlookup (rv_tree (recover x now reg (Some p) (Some w) d)) k = Some r \<longleftrightarrow>
      (\<exists>now'. (k, r, now') \<in> set vs \<and> live now' r) \<and> live now r"
    using load_visits [OF assms(1) walked_sorted [OF w]] by simp
  show "fmlookup (rv_tree (recover x now reg (Some p) (Some w) d)) k = Some r \<Longrightarrow>
      live now r \<and> (\<exists>t \<in> M. fmlookup t k = Some r)"
    using walked_visited [OF w] unfolding l by blast
  show "(\<And>t. t \<in> M \<Longrightarrow> fmlookup t k = Some r) \<Longrightarrow> \<forall>now' \<in> insert now T. live now' r \<Longrightarrow>
      fmlookup (rv_tree (recover x now reg (Some p) (Some w) d)) k = Some r"
    using walked_all [OF w, of k r] unfolding l by fastforce
qed

text \<open>
  C11: A save beside writers. A save holds the lock of the log from before its first visit to its
  end. If its rename, the truncation and the last write of its buffer succeed, then however it is
  interleaved with what else a node does, a restart finds every record that was in the tree throughout
  the save and has not expired, and no record that was not in the tree at some point of it; if the
  rename fails, the snapshot and the log are as they were. The node is in a state as all that it
  reaches are (\<open>node_ok\<close>).
\<close>

theorem save_beside_writers:
  assumes "snap_codec_ok x" "successively (node_step x T) (nd # nds)" "node_ok nd"
    and "nd_saver nd = SaveVisit se p (From []) []" "nd_saver (last (nd # nds)) = SaveIdle"
    and "\<forall>d \<in> set (butlast (nd # nds)). nd_saver d \<noteq> SaveIdle"
    and "sv_wal (nd_server nd) = Some w" "sv_disk (nd_server nd) w = Content s" "p \<noteq> w" "temp_path p \<noteq> w"
  defines "disk \<equiv> sv_disk (nd_server (last (nd # nds)))"
  shows "(sn_rename_ok se \<and> sn_truncate_ok se \<and> sn_drop_ok se \<longrightarrow> (\<forall>now reg k r.
      (fmlookup (rv_tree (recover x now reg (Some p) (Some w) disk)) k = Some r \<longrightarrow>
         live now r \<and> (\<exists>d \<in> set (nd # nds). fmlookup (sv_tree (nd_server d)) k = Some r)) \<and>
      ((\<forall>d \<in> set (nd # nds). fmlookup (sv_tree (nd_server d)) k = Some r) \<and> (\<forall>now' \<in> insert now T. live now' r) \<longrightarrow>
         fmlookup (rv_tree (recover x now reg (Some p) (Some w) disk)) k = Some r))) \<and>
    (\<not> sn_rename_ok se \<longrightarrow> disk p = sv_disk (nd_server nd) p \<and> disk w = Content s)"
proof -
  let ?M = "trees (nd # nds)"
  have "save_at x T se p w (sv_disk (nd_server nd)) [nd]"
    using assms(3,4,7-10) walked_start [of T "Prefixed []" "{sv_tree (nd_server nd)}"]
    by (auto simp: save_at_def untouched_def walks_def saved_def)
  from save.run [OF assms(2) this] have g: "save_goes x T se p w (sv_disk (nd_server nd)) ?M disk SaveIdle"
    using assms(5,6) by (simp add: save_at_def disk_def)
  show ?thesis
  proof (intro conjI impI allI)
    fix now reg k r
    assume "sn_rename_ok se \<and> sn_truncate_ok se \<and> sn_drop_ok se"
    with g obtain buf where b: "walks x T ?M (\<lambda>_. True) buf" "disk p = Content buf" "disk w = Content []" by auto
    note r = recover_visits [OF assms(1) b, where now = now and reg = reg and k = k and r = r]
    show "live now r" "\<exists>d \<in> set (nd # nds). fmlookup (sv_tree (nd_server d)) k = Some r"
      if "fmlookup (rv_tree (recover x now reg (Some p) (Some w) disk)) k = Some r"
      using r(1) [OF that] by (auto simp: trees_def)
    show "fmlookup (rv_tree (recover x now reg (Some p) (Some w) disk)) k = Some r"
      if "(\<forall>d \<in> set (nd # nds). fmlookup (sv_tree (nd_server d)) k = Some r) \<and> (\<forall>now' \<in> insert now T. live now' r)"
      using r(2) that by (auto simp: trees_def)
  next
    show "disk p = sv_disk (nd_server nd) p" "disk w = Content s" if "\<not> sn_rename_ok se"
      using g that assms(8) by (simp_all add: untouched_def)
  qed
qed

section \<open>The eviction beside writers\<close>

text \<open>
  A key that was found expired at some point, and one whose record was in every tree so far and is
  expired at every reading of the clock.
\<close>

definition was_expired :: "nat option set \<Rightarrow> (str, db_record) fmap set \<Rightarrow> str \<Rightarrow> bool" where
  "was_expired T M k \<longleftrightarrow> (\<exists>t \<in> M. \<exists>r. \<exists>now \<in> T. fmlookup t k = Some r \<and> \<not> live now r)"

definition due :: "nat option set \<Rightarrow> (str, db_record) fmap set \<Rightarrow> str \<Rightarrow> bool" where
  "due T M k \<longleftrightarrow> (\<exists>r. (\<forall>t \<in> M. fmlookup t k = Some r) \<and> (\<forall>now \<in> T. \<not> live now r))"

definition collected :: "visit list \<Rightarrow> (str \<times> bytes) list" where
  "collected vs = map (\<lambda>(k, r, now). (k, rec_value r)) (filter (\<lambda>(k, r, now). \<not> live now r) vs)"

lemma collected_push:
  "collected (vs @ [(k, r, now)]) = (if live now r then collected vs else collected vs @ [(k, rec_value r)])"
  by (simp add: collected_def)

lemma collected_all:
  assumes "walked T (Prefixed []) (\<lambda>_. True) M vs"
  shows "\<forall>k \<in> fst ` set (collected vs). was_expired T M k" "due T M k \<Longrightarrow> k \<in> fst ` set (collected vs)"
proof -
  show "\<forall>k \<in> fst ` set (collected vs). was_expired T M k"
    using walked_visited [OF assms] by (fastforce simp: collected_def was_expired_def)
  assume "due T M k"
  then obtain r where r: "\<And>t. t \<in> M \<Longrightarrow> fmlookup t k = Some r" "\<forall>now \<in> T. \<not> live now r" by (auto simp: due_def)
  obtain now where "now \<in> T" "(k, r, now) \<in> set vs" using walked_all [OF assms r(1)] by auto
  then show "k \<in> fst ` set (collected vs)" using r(2) by (force simp: collected_def)
qed

fun evict_goes :: "nat option set \<Rightarrow> (str, db_record) fmap set \<Rightarrow> evictor \<Rightarrow> bool" where
  "evict_goes T M (EvictVisit c es) \<longleftrightarrow> From [] \<le> c \<and>
     (\<exists>vs. walked T (Prefixed []) (\<lambda>k. \<not> ahead c k) M vs \<and> es = collected vs)"
| "evict_goes T M (EvictUnindex es) \<longleftrightarrow> (\<forall>k \<in> fst ` set es. was_expired T M k) \<and> (\<forall>k. due T M k \<longrightarrow> k \<in> fst ` set es)"
| "evict_goes T M (EvictRemove k' es) \<longleftrightarrow> (\<forall>k \<in> insert k' (fst ` set es). was_expired T M k) \<and>
     (\<forall>k. due T M k \<longrightarrow> k \<in> insert k' (fst ` set es))"
| "evict_goes T M EvictIdle \<longleftrightarrow> (\<forall>k. \<not> due T M k)"

lemma expired_grow: "was_expired T M k \<Longrightarrow> M \<subseteq> M' \<Longrightarrow> was_expired T M' k" "due T M' k \<Longrightarrow> M \<subseteq> M' \<Longrightarrow> due T M k"
  unfolding was_expired_def due_def by blast+

lemma evict_goes_grow: "evict_goes T M ev \<Longrightarrow> M \<subseteq> M' \<Longrightarrow> evict_goes T M' ev"
  using walked_grow expired_grow by (cases ev) (auto; blast)+

lemma evict_goes_step:
  assumes "evict_goes T M ev" "evictor_step x now ev sv = Some (ev', sv')" "sv_tree sv \<in> M" "now \<in> T"
  shows "evict_goes T (insert (sv_tree sv') M) ev'"
proof (cases "(x, now, ev, sv)" rule: evictor_step.cases)
  case (2 x now' c es sv'')
  then obtain vs where vs: "From [] \<le> c" "walked T (Prefixed []) (\<lambda>k. \<not> ahead c k) M vs" and ev: "ev = EvictVisit c (collected vs)"
    using assms(1) by auto
  have c: "first_cursor (Prefixed []) \<le> c" using vs(1) by simp
  show ?thesis
  proof (cases "next_entry c (sv_tree sv)")
    case None
    then show ?thesis
      using walked_stop [OF vs(2) c assms(3)] collected_all assms(2,3) by (auto simp: ev insert_absorb)
  next
    case (Some e)
    then obtain k r where n: "next_entry c (sv_tree sv) = Some (k, r)" by (cases e) auto
    have g: "goes_on (Prefixed []) k" by (simp add: starts_with_def)
    have "ev' = EvictVisit (After k) (collected (vs @ [(k, r, now)]))" "sv' = sv"
      using assms(2) n by (auto simp: ev collected_push live_def)
    then show ?thesis
      using walked_visit [OF vs(2) c n g assms(3,4)] assms(3)
      by (auto simp: insert_absorb intro: order_trans [OF _ After_later])
  qed
next
  case (5 x now' k es sv'')
  have "\<not> due T (insert (sv_tree sv') M) k" using 5 assms(2) by (auto simp: due_def tree_remove_def)
  moreover have "ev' = EvictUnindex es" "ev = EvictRemove k es" using 5 assms(2) by auto
  moreover have "evict_goes T (insert (sv_tree sv') M) ev" by (rule evict_goes_grow [OF assms(1)]) blast
  ultimately show ?thesis by (auto; blast)
qed (use assms in \<open>auto simp: insert_absorb remove_record_from_index_def\<close>)

definition evict_at :: "nat option set \<Rightarrow> node list \<Rightarrow> bool" where
  "evict_at T nds \<longleftrightarrow> nds \<noteq> [] \<and> ((\<forall>nd \<in> set (butlast nds). nd_evictor nd \<noteq> EvictIdle) \<longrightarrow>
     evict_goes T (trees nds) (nd_evictor (last nds)))"

lemma evict_at_step:
  assumes "evict_at T (nds @ [nd])" "node_step x T nd nd'"
  shows "evict_at T (nds @ [nd, nd'])"
proof (cases "\<forall>d \<in> set (nds @ [nd]). nd_evictor d \<noteq> EvictIdle")
  case True
  let ?M = "trees (nds @ [nd])"
  have g: "evict_goes T ?M (nd_evictor nd)" using assms(1) True by (auto simp: evict_at_def)
  have "trees (nds @ [nd, nd']) = insert (sv_tree (nd_server nd')) ?M" by auto
  moreover have "evict_goes T (insert (sv_tree (nd_server nd')) ?M) (nd_evictor nd')"
    using node_step_evictor [OF assms(2)] True evict_goes_grow [OF g subset_insertI] evict_goes_step [OF g] by fastforce
  ultimately show ?thesis by (simp add: evict_at_def)
qed (use assms(1) in \<open>auto simp: evict_at_def butlast_append\<close>)

interpretation evict: run_invariant "node_step x T" "evict_at T" for x T
  by unfold_locales (rule evict_at_step)

text \<open>
  C23: The eviction beside writers. However a round of the eviction is interleaved with what else a
  node does, every key that it removes was found with an expired record at some point of the round;
  and when the round has ended, no record that is expired at every reading of the clock has stayed in
  the tree throughout it.
\<close>

theorem evict_beside_writers:
  assumes "successively (node_step x T) (nd # nds)" "nd_evictor nd = EvictVisit (From []) []"
    and "\<forall>d \<in> set (butlast (nd # nds)). nd_evictor d \<noteq> EvictIdle"
  shows "(\<forall>k es. nd_evictor (last (nd # nds)) = EvictRemove k es \<longrightarrow>
      (\<exists>d \<in> set (nd # nds). \<exists>r. \<exists>now \<in> T. fmlookup (sv_tree (nd_server d)) k = Some r \<and> \<not> live now r)) \<and>
    (nd_evictor (last (nd # nds)) = EvictIdle \<longrightarrow>
      \<not> (\<exists>k r. (\<forall>d \<in> set (nd # nds). fmlookup (sv_tree (nd_server d)) k = Some r) \<and> (\<forall>now \<in> T. \<not> live now r)))"
proof -
  have "evict_at T [nd]"
    using assms(2) walked_start [of T "Prefixed []" "{sv_tree (nd_server nd)}"] by (auto simp: evict_at_def collected_def)
  from evict.run [OF assms(1) this] have g: "evict_goes T (trees (nd # nds)) (nd_evictor (last (nd # nds)))"
    using assms(3) by (simp add: evict_at_def)
  have w: "was_expired T (trees (nd # nds)) k \<longleftrightarrow>
      (\<exists>d \<in> set (nd # nds). \<exists>r. \<exists>now \<in> T. fmlookup (sv_tree (nd_server d)) k = Some r \<and> \<not> live now r)" for k
    by (auto simp: was_expired_def trees_def)
  have d: "due T (trees (nd # nds)) k \<longleftrightarrow>
      (\<exists>r. (\<forall>d \<in> set (nd # nds). fmlookup (sv_tree (nd_server d)) k = Some r) \<and> (\<forall>now \<in> T. \<not> live now r))" for k
    by (auto simp: due_def trees_def)
  show ?thesis
  proof (intro conjI allI impI)
    fix k es
    assume "nd_evictor (last (nd # nds)) = EvictRemove k es"
    then show "\<exists>d \<in> set (nd # nds). \<exists>r. \<exists>now \<in> T. fmlookup (sv_tree (nd_server d)) k = Some r \<and> \<not> live now r"
      using g w [of k] by simp
  next
    assume "nd_evictor (last (nd # nds)) = EvictIdle"
    then show "\<not> (\<exists>k r. (\<forall>d \<in> set (nd # nds). fmlookup (sv_tree (nd_server d)) k = Some r) \<and> (\<forall>now \<in> T. \<not> live now r))"
      using g d by simp
  qed
qed

section \<open>Instances\<close>

text \<open>A server with one record, and a node on it with a get of another key.\<close>

definition one_record :: "u64 option \<Rightarrow> server" where
  "one_record ex = blank_server\<lparr>sv_tree := fmupd ''a'' \<lparr>rec_value = [65], rec_expires = ex, rec_version = 1\<rparr> fmempty,
     sv_snapshot_path := Some ''db'', sv_wal := Some ''log'', sv_disk := files(''log'' := Content ''x'')\<rparr>"

definition get_node :: "get_phase \<Rightarrow> saver \<Rightarrow> evictor \<Rightarrow> server \<Rightarrow> node" where
  "get_node p s ev sv = \<lparr>nd_tasks = [GetTask (at 1) ''b'' p], nd_readers = [], nd_saver = s, nd_evictor = ev, nd_server = sv\<rparr>"

lemma get_node_simps [simp]:
  "nd_saver (get_node p s ev sv) = s" "nd_evictor (get_node p s ev sv) = ev" "nd_server (get_node p s ev sv) = sv"
  by (simp_all add: get_node_def)

lemma one_record_simps [simp]:
  "sv_tree (one_record ex) = fmupd ''a'' \<lparr>rec_value = [65], rec_expires = ex, rec_version = 1\<rparr> fmempty"
  "sv_wal (one_record ex) = Some ''log''" "sv_disk (one_record ex) = files(''log'' := Content ''x'')"
  "node_ok (get_node p s ev (one_record ex))"
  using blank_server_ok by (simp_all add: one_record_def node_ok_def get_node_def cache_ok_def blank_server_def)

lemma get_node_steps:
  "fmlookup (sv_tree sv) ''b'' = None \<Longrightarrow>
    node_step x T (get_node GetLookup s ev sv) (get_node (GetEnd (Inl (NotFound ''Key not found''))) s ev sv)"
  "now \<in> T \<Longrightarrow> saving s \<Longrightarrow> saver_step x now s sv = Some (s', sv') \<Longrightarrow> node_step x T (get_node p s ev sv) (get_node p s' ev sv')"
  "now \<in> T \<Longrightarrow> evictor_step x now ev sv = Some (ev', sv') \<Longrightarrow> node_step x T (get_node p s ev sv) (get_node p s ev' sv')"
proof -
  show "node_step x T (get_node GetLookup s ev sv) (get_node (GetEnd (Inl (NotFound ''Key not found''))) s ev sv)"
    if "fmlookup (sv_tree sv) ''b'' = None"
    using node_work.turn [of "get_node GetLookup s ev sv" "[]" "GetTask (at 1) ''b'' GetLookup" "[]" x] that
    by (simp add: node_step_def get_node_def)
  show "node_step x T (get_node p s ev sv) (get_node p s' ev sv')"
    if "now \<in> T" "saving s" "saver_step x now s sv = Some (s', sv')"
    using node_work.save [of now T x "get_node p s ev sv"] that by (simp add: node_step_def get_node_def)
  show "node_step x T (get_node p s ev sv) (get_node p s ev' sv')"
    if "now \<in> T" "evictor_step x now ev sv = Some (ev', sv')"
    using node_work.evict [of now T x "get_node p s ev sv"] that by (simp add: node_step_def get_node_def)
qed

lemma one_entry:
  "next_entry (From []) (fmupd k v fmempty) = Some (k, v)" "next_entry (After k) (fmupd k v fmempty) = None"
  by (simp_all add: next_entry_def next_key_def sorted_list_of_fset_finsert)

theorem save_beside_writers_witness:
  "\<exists>nds. successively (node_step plain_ext {Some 3}) nds \<and> nd_saver (last nds) = SaveIdle \<and>
     (\<exists>p q. p \<noteq> q \<and> nd_tasks (hd nds) = [GetTask (at 1) ''b'' p] \<and> nd_tasks (last nds) = [GetTask (at 1) ''b'' q]) \<and>
     fmlookup (rv_tree (recover plain_ext (Some 4) registry_new (Some ''db'') (Some ''log'') (sv_disk (nd_server (last nds))))) ''a'' =
       Some \<lparr>rec_value = [65], rec_expires = None, rec_version = 1\<rparr>"
proof -
  let ?r = "\<lparr>rec_value = [65], rec_expires = None, rec_version = 1\<rparr>"
  define se where "se = \<lparr>sn_create_ok = True, sn_flushed = 0, sn_rename_ok = True, sn_truncate_ok = True, sn_drop_ok = True\<rparr>"
  define buf where "buf = snapshot_line plain_ext (''a'', ?r) @ [newline]"
  define sv where "sv = one_record None"
  define sva where "sva = write_file ''db.tmp'' [] sv"
  define svb where "svb = rename_temp ''db'' [] sva"
  define svc where "svc = truncate_log svb"
  define svd where "svd = write_file ''db'' buf svc"
  let ?e = "GetEnd (Inl (NotFound ''Key not found''))"
  define nd where "nd = get_node GetLookup (SaveVisit se ''db'' (From []) []) EvictIdle sv"
  define nds where "nds = [get_node GetLookup (SaveVisit se ''db'' (After ''a'') buf) EvictIdle sv,
    get_node ?e (SaveVisit se ''db'' (After ''a'') buf) EvictIdle sv, get_node ?e (SaveRename se ''db'' buf) EvictIdle sva,
    get_node ?e (SaveTruncate se ''db'' buf) EvictIdle svb, get_node ?e (SaveDrop se ''db'' buf) EvictIdle svc,
    get_node ?e SaveIdle EvictIdle svd]"
  have t: "sv_tree sv = fmupd ''a'' ?r fmempty" "sv_tree sva = fmupd ''a'' ?r fmempty" "sv_tree svb = fmupd ''a'' ?r fmempty"
    "sv_tree svc = fmupd ''a'' ?r fmempty" "sv_tree svd = fmupd ''a'' ?r fmempty"
    by (simp_all add: sv_def sva_def svb_def svc_def svd_def)
  have n: "temp_path ''db'' = ''db.tmp''" by (simp add: temp_path_def)
  have run: "successively (node_step plain_ext {Some 3}) (nd # nds)"
    unfolding nd_def nds_def successively.simps
    by (intro conjI TrueI get_node_steps(1) get_node_steps(2) [of "Some 3"])
      (simp_all add: t one_entry is_expired_def buf_def se_def n sva_def svb_def svc_def svd_def)
  have l: "last (nd # nds) = get_node ?e SaveIdle EvictIdle svd" by (simp add: nds_def)
  have a: "node_ok nd" "nd_saver nd = SaveVisit se ''db'' (From []) []" "nd_saver (last (nd # nds)) = SaveIdle"
    "\<forall>d \<in> set (butlast (nd # nds)). nd_saver d \<noteq> SaveIdle" "sv_wal (nd_server nd) = Some ''log''"
    "sv_disk (nd_server nd) ''log'' = Content ''x''" "''db'' \<noteq> ''log''" "temp_path ''db'' \<noteq> ''log''"
    by (simp_all add: nd_def nds_def sv_def n)
  have "\<forall>d \<in> set (nd # nds). fmlookup (sv_tree (nd_server d)) ''a'' = Some ?r" by (simp add: nd_def nds_def t)
  moreover have "\<forall>now \<in> insert (Some 4) {Some 3}. live now ?r" by (simp add: live_def is_expired_def)
  moreover have "sn_rename_ok se \<and> sn_truncate_ok se \<and> sn_drop_ok se" by (simp add: se_def)
  ultimately have "fmlookup (rv_tree (recover plain_ext (Some 4) registry_new (Some ''db'') (Some ''log'')
      (sv_disk (nd_server (last (nd # nds)))))) ''a'' = Some ?r"
    using save_beside_writers [OF plain_ext_snap run a] by blast
  moreover have "nd_tasks nd = [GetTask (at 1) ''b'' GetLookup]" "nd_tasks (last (nd # nds)) = [GetTask (at 1) ''b'' ?e]"
    unfolding l by (simp_all add: nd_def get_node_def)
  ultimately show ?thesis
    using run a(3) by (intro exI [of _ "nd # nds"] conjI exI [of _ GetLookup] exI [of _ ?e]) simp_all
qed

theorem evict_beside_writers_witness:
  "\<exists>nds. successively (node_step plain_ext {Some 9}) nds \<and> nd_evictor (hd nds) = EvictVisit (From []) [] \<and>
     nd_evictor (last nds) = EvictIdle \<and> fmlookup (sv_tree (nd_server (hd nds))) ''a'' \<noteq> None \<and>
     \<not> (\<forall>d \<in> set nds. fmlookup (sv_tree (nd_server d)) ''a'' = fmlookup (sv_tree (nd_server (hd nds))) ''a'')"
proof -
  let ?r = "\<lparr>rec_value = [65], rec_expires = Some 5, rec_version = 1\<rparr>"
  let ?e = "GetEnd (Inl (NotFound ''Key not found''))"
  define sv where "sv = one_record (Some 5)"
  define sva where "sva = remove_record_from_index plain_ext ''a'' [65] sv"
  define svb where "svb = tree_remove ''a'' sva"
  define nd where "nd = get_node GetLookup SaveIdle (EvictVisit (From []) []) sv"
  define nds where "nds = [get_node GetLookup SaveIdle (EvictVisit (After ''a'') [(''a'', [65])]) sv,
    get_node ?e SaveIdle (EvictVisit (After ''a'') [(''a'', [65])]) sv, get_node ?e SaveIdle (EvictUnindex [(''a'', [65])]) sv,
    get_node ?e SaveIdle (EvictRemove ''a'' []) sva, get_node ?e SaveIdle (EvictUnindex []) svb, get_node ?e SaveIdle EvictIdle svb]"
  have t: "sv_tree sv = fmupd ''a'' ?r fmempty" by (simp add: sv_def)
  have run: "successively (node_step plain_ext {Some 9}) (nd # nds)"
    unfolding nd_def nds_def successively.simps
    by (intro conjI TrueI get_node_steps(1) get_node_steps(3) [of "Some 9"])
      (simp_all add: t one_entry is_expired_def sva_def svb_def)
  have a: "nd_evictor nd = EvictVisit (From []) []" "\<forall>d \<in> set (butlast (nd # nds)). nd_evictor d \<noteq> EvictIdle"
    "nd_evictor (last (nd # nds)) = EvictIdle" by (simp_all add: nd_def nds_def)
  have h: "fmlookup (sv_tree (nd_server nd)) ''a'' = Some ?r" by (simp add: nd_def t)
  have "\<forall>now \<in> {Some 9}. \<not> live now ?r" by (simp add: live_def is_expired_def)
  then have "\<not> (\<forall>d \<in> set (nd # nds). fmlookup (sv_tree (nd_server d)) ''a'' = Some ?r)"
    using evict_beside_writers [OF run a(1,2)] a(3) by blast
  then show ?thesis using run a h by (intro exI [of _ "nd # nds"] conjI) simp_all
qed

end
