(* ===== verification/Node_Schedules.thy ===== *)
theory Node_Schedules
  imports Node_Properties Serial_Properties
begin

text \<open>
  The executions of the handlers with saves in one piece (\<open>interleave\<close>, \<open>play\<close>) are executions of a
  whole node (\<open>node_step\<close>): what they show can happen can happen on a node.
\<close>

lemma node_same: "nd_saver nd = s \<Longrightarrow> nd_server nd = sv \<Longrightarrow> nd\<lparr>nd_saver := s, nd_server := sv\<rparr> = nd"
  by (cases nd) simp

text \<open>A save that nothing disturbs.\<close>

lemma saver_runs:
  "run_saver x now n s sv = Some (s', sv') \<Longrightarrow> nd_saver nd = s \<Longrightarrow> nd_server nd = sv \<Longrightarrow> now \<in> T \<Longrightarrow>
   lock_free (nd_tasks nd) \<Longrightarrow> rtranclp (node_work x T) nd (nd\<lparr>nd_saver := s', nd_server := sv'\<rparr>)"
proof (induction n arbitrary: s sv nd)
  case (Suc n)
  show ?case
  proof (cases "s = SaveIdle")
    case False
    then obtain s1 sv1 where s1: "saver_step x now s sv = Some (s1, sv1)" "run_saver x now n s1 sv1 = Some (s', sv')"
      using Suc.prems(1) by (auto simp: bind_eq_Some_conv)
    let ?nd = "nd\<lparr>nd_saver := s1, nd_server := sv1\<rparr>"
    have "node_work x T nd ?nd" using node_work.save [of now T x nd s1 sv1] s1(1) Suc.prems(2-5) by simp
    moreover have "rtranclp (node_work x T) ?nd (?nd\<lparr>nd_saver := s', nd_server := sv'\<rparr>)"
      using Suc.IH [OF s1(2), of ?nd] Suc.prems(4,5) by simp
    ultimately show ?thesis by (simp add: converse_rtranclp_into_rtranclp)
  qed (use Suc.prems in \<open>auto simp: node_same\<close>)
qed (auto simp: node_same)

definition on_node :: "task list \<times> server \<Rightarrow> node \<Rightarrow> bool" where
  "on_node c nd \<longleftrightarrow> nd_tasks nd = fst c \<and> nd_server nd = snd c \<and> nd_saver nd = SaveIdle"

lemma work_is_step: "rtranclp (node_work x T) nd nd' \<Longrightarrow> rtranclp (node_step x T) nd nd'"
  by (erule rtranclp_mono [THEN predicate2D, rotated]) (auto simp: node_step_def)

lemma interleave_on_node:
  assumes "interleave x c c'" "on_node c nd"
  shows "\<exists>nd'. rtranclp (node_step x UNIV) nd nd' \<and> on_node c' nd'"
  using assms
proof cases
  case (turn t sv t' sv' ts us)
  then have "node_work x UNIV nd (nd\<lparr>nd_tasks := ts @ t' # us, nd_server := sv'\<rparr>)"
    using node_work.turn [of nd ts t us x t' sv' UNIV] assms(2) by (simp add: on_node_def)
  then show ?thesis using turn(2) assms(2)
    by (intro exI conjI r_into_rtranclp) (auto simp: node_step_def on_node_def)
next
  case (save ts now se sv sv')
  let ?nd = "nd\<lparr>nd_saver := SaveStart se\<rparr>"
  have "node_step x UNIV nd ?nd" using assms(2) node_input.save_tick [of nd x se] by (simp add: node_step_def on_node_def)
  moreover have "rtranclp (node_step x UNIV) ?nd (?nd\<lparr>nd_saver := SaveIdle, nd_server := sv'\<rparr>)"
    using save assms(2) save_steps_make_save [of x now sv se]
    by (intro work_is_step saver_runs [where now = now and n = "fcard (fmdom (sv_tree sv)) + 5"]) (auto simp: on_node_def)
  ultimately have "rtranclp (node_step x UNIV) nd (?nd\<lparr>nd_saver := SaveIdle, nd_server := sv'\<rparr>)"
    by (rule converse_rtranclp_into_rtranclp)
  then show ?thesis using save(1,2) assms(2) by (intro exI conjI) (auto simp: on_node_def)
qed

interpretation on_nodes: step_simulation "interleave x" "node_step x UNIV" on_node for x
  by unfold_locales (rule interleave_on_node)

lemma calls_come_in:
  assumes "list_all called ts"
  shows "rtranclp (node_step x T) nd (nd\<lparr>nd_tasks := nd_tasks nd @ ts\<rparr>)"
  using assms
proof (induction ts rule: rev_induct)
  case (snoc t ts)
  let ?nd = "nd\<lparr>nd_tasks := nd_tasks nd @ ts\<rparr>"
  have "rtranclp (node_step x T) nd ?nd" using snoc by simp
  moreover have "node_step x T ?nd (nd\<lparr>nd_tasks := nd_tasks nd @ ts @ [t]\<rparr>)"
    using node_input.call [of t x ?nd] snoc.prems by (simp add: node_step_def)
  ultimately show ?case by (rule rtranclp.rtrancl_into_rtrancl)
qed simp

theorem interleavings_happen_on_nodes:
  assumes "list_all called ts" "rtranclp (interleave x) (ts, sv) (ts', sv')"
  shows "\<exists>nd. rtranclp (node_step x UNIV) (node_start sv) nd \<and> nd_tasks nd = ts' \<and> nd_server nd = sv'"
proof -
  let ?nd = "node_start sv\<lparr>nd_tasks := ts\<rparr>"
  have "rtranclp (node_step x UNIV) (node_start sv) ?nd"
    using calls_come_in [OF assms(1), of x UNIV "node_start sv"] by (simp add: node_start_def)
  moreover obtain nd where "rtranclp (node_step x UNIV) ?nd nd" "on_node (ts', sv') nd"
    using on_nodes.simulates [OF assms(2), of ?nd] by (auto simp: on_node_def node_start_def)
  ultimately show ?thesis unfolding on_node_def by (metis fst_conv rtranclp_trans snd_conv)
qed

end
