(* ===== verification/Replica_Node.thy ===== *)
theory Replica_Node
  imports Node_Properties
begin

text \<open>
  A node that was started as a replica: handlers refuse to write, scans and queries read, records go
  only when they have expired, and all that changes otherwise comes from the leader's messages.
  Nothing is sent to those who watch the replica or replicate from it.
\<close>

section \<open>Nothing is broadcast\<close>

definition silent :: "server \<Rightarrow> server \<Rightarrow> bool" where
  "silent sv sv' \<longleftrightarrow> sv_sync sv' = sv_sync sv \<and> sv_watch sv' = sv_watch sv"

lemma silent_refl [simp]: "silent sv sv"
  by (simp add: silent_def)

lemma silent_trans: "silent a b \<Longrightarrow> silent b c \<Longrightarrow> silent a c"
  by (simp add: silent_def)

lemma helper_silent [simp]:
  "silent sv (remove_record_from_index x k v sv)" "silent sv (index_record x k v sv)" "silent sv (tree_insert k r sv)"
  "silent sv (tree_remove k sv)" "silent sv (log_command y out n c sv)" "silent sv (unindex_old x k sv)"
  "silent sv (sv\<lparr>sv_global_version := g\<rparr>)" "silent sv (sv\<lparr>sv_cache := ca\<rparr>)"
  by (simp_all add: silent_def step_defs split: option.split)

lemma cache_silent: "cache_invalidate k sv = Some sv' \<Longrightarrow> silent sv sv'"
  by (auto simp: cache_invalidate_def bind_eq_Some_conv)

lemma log_only_silent: "log_only log \<Longrightarrow> silent sv (log sv)"
  unfolding log_only_def silent_def by (metis server.select_convs(9,12) server.surjective server.update_convs(13))

lemma apply_write_silent:
  assumes "apply_write_command x log tx c sv = Some sv'" "log_only log"
  shows "silent sv sv'"
proof (cases c)
  case (Put k v ex)
  let ?i = "index_record x k v (unindex_old x k sv)"
  obtain sv1 where s: "cache_invalidate k (log ?i) = Some sv1"
    "sv' = tree_insert k \<lparr>rec_value = v, rec_expires = ex, rec_version = tx\<rparr> sv1"
    using assms(1) by (auto simp: Put apply_write_command_def apply_put_def Let_def bind_eq_Some_conv)
  have "silent sv ?i" by (rule silent_trans [of _ "unindex_old x k sv"]) simp_all
  then show ?thesis using cache_silent [OF s(1)] log_only_silent [OF assms(2), of ?i] by (simp add: s(2) silent_def tree_insert_def)
next
  case (Delete k)
  let ?u = "tree_remove k (unindex_old x k sv)"
  obtain sv1 where s: "cache_invalidate k ?u = Some sv1" "sv' = log sv1"
    using assms(1) by (auto simp: Delete apply_write_command_def apply_delete_def)
  have "silent sv ?u" by (rule silent_trans [of _ "unindex_old x k sv"]) simp_all
  then show ?thesis using cache_silent [OF s(1)] log_only_silent [OF assms(2), of sv1] by (simp add: s(2) silent_def)
qed (use assms(1) in \<open>simp add: apply_write_command_def\<close>)

lemma apply_subcommands_silent: "apply_subcommands x tx cs sv = Some sv' \<Longrightarrow> silent sv sv'"
proof (induction cs arbitrary: sv)
  case (Cons c cs)
  then obtain sv1 where "apply_write_command x (\<lambda>s. s) tx c sv = Some sv1" "silent sv1 sv'"
    by (auto simp: bind_eq_Some_conv)
  then show ?case using apply_write_silent log_only_id silent_trans by blast
qed simp

lemma replica_step_silent:
  assumes "replica_step x e p sv = Some (go, sv')"
  shows "silent sv sv'"
proof -
  have i: "silent sv (install_chunk x rs n sv)" for rs n
  proof -
    have "silent sv (fold (install_record x n) rs sv)"
    proof (induction rs arbitrary: sv)
      case (Cons r rs)
      have "silent sv (install_record x n r sv)"
        unfolding install_record_def by (rule silent_trans [OF helper_silent(3) helper_silent(2)])
      then show ?case using silent_trans [OF _ Cons.IH] by simp
    qed simp
    then show ?thesis unfolding install_chunk_def using silent_trans helper_silent(7) by blast
  qed
  have a: "silent sv s" if cmd: "apply_command x e n c sv = Some s" for n c s
  proof -
    let ?log = "log_command x (en_wal e) n c"
    obtain s1 where s1: "(case c of TxCommit cs \<Rightarrow> apply_subcommands x n cs (?log sv)
        | _ \<Rightarrow> apply_write_command x ?log n c sv) = Some s1" "s = s1\<lparr>sv_global_version := n\<rparr>"
      using cmd by (auto simp: apply_command_def Let_def bind_eq_Some_conv split: if_splits)
    have "silent sv s1"
    proof (cases c)
      case (TxCommit cs)
      then show ?thesis using s1(1) apply_subcommands_silent silent_trans [OF helper_silent(5)] by fastforce
    qed (use s1(1) apply_write_silent log_only_command in fastforce)+
    then show ?thesis by (simp add: s1(2) silent_def)
  qed
  show ?thesis
    using assms i a by (auto simp: replica_step_def Let_def split: sync_payload.splits if_splits option.splits)
qed

section \<open>Handlers on a replica\<close>

text \<open>A handler that writes has not begun, or it has been refused.\<close>

fun barred :: "task \<Rightarrow> bool" where
  "barred (PutTask e k v ttl p) \<longleftrightarrow> p = PutStart \<or> p = PutEnd (Inl read_only)"
| "barred (DeleteTask e k p) \<longleftrightarrow> p = DeleteStart \<or> p = DeleteEnd (Inl read_only)"
| "barred (CasTask e k old new ttl p) \<longleftrightarrow> p = CasStart \<or> p = CasEnd (Inl read_only)"
| "barred (CommitTask e it tx p) \<longleftrightarrow> p = CommitStart \<or> p = CommitEnd (Inl (CommitFailed ''Node is a read-only replica''))"
| "barred (GetTask e k p) \<longleftrightarrow> True"
| "barred (SweepTask p) \<longleftrightarrow> False"

text \<open>What reading and evicting leave: fewer records, the same version, nothing sent.\<close>

definition only_forgets :: "server \<Rightarrow> server \<Rightarrow> bool" where
  "only_forgets sv sv' \<longleftrightarrow> silent sv sv' \<and> sv_global_version sv' = sv_global_version sv \<and>
     (\<forall>k r. fmlookup (sv_tree sv') k = Some r \<longrightarrow> fmlookup (sv_tree sv) k = Some r)"

lemma forgets_simps [simp]:
  "only_forgets sv sv" "only_forgets sv (remove_record_from_index x k v sv)" "only_forgets sv (tree_remove k sv)"
  "only_forgets sv (sv\<lparr>sv_cache := c\<rparr>)" "only_forgets sv (sv\<lparr>sv_disk := d\<rparr>)"
  by (simp_all add: only_forgets_def silent_def step_defs split: if_splits)

lemma barred_step:
  assumes "task_step x t sv = Some (t', sv')" "barred t" "sv_is_replica sv"
  shows "barred t' \<and> only_forgets sv sv'"
proof (cases t)
  case (GetTask e k p)
  then obtain p' where p': "get_step x e k p sv = Some (p', sv')" "t' = GetTask e k p'" using assms(1) by auto
  then show ?thesis by (cases p) (auto simp: bind_eq_Some_conv)
qed (use assms in auto)

definition replica_node :: "node \<Rightarrow> bool" where
  "replica_node nd \<longleftrightarrow> node_ok nd \<and> sv_is_replica (nd_server nd) \<and> sv_sync (nd_server nd) = [] \<and> sv_watch (nd_server nd) = [] \<and>
     list_all barred (nd_tasks nd)"

lemma called_barred: "called t \<Longrightarrow> barred t"
  by (cases t rule: called.cases) simp_all

lemma work_forgets:
  assumes "node_work x T nd nd'" "replica_node nd"
  shows "only_forgets (nd_server nd) (nd_server nd') \<and> list_all barred (nd_tasks nd')"
  using assms(1)
proof cases
  case (turn ts t us t' sv)
  then show ?thesis using barred_step [OF turn(3)] assms(2) by (simp add: replica_node_def)
next
  case (save now s sv)
  then show ?thesis using saver_step_disk_only [OF save(3)] assms(2) by (auto simp: replica_node_def)
next
  case (evict now ev sv)
  have "only_forgets (nd_server nd) sv"
    using evict(3) by (cases "(x, now, nd_evictor nd, nd_server nd)" rule: evictor_step.cases) auto
  then show ?thesis using evict(1) assms(2) by (simp add: replica_node_def)
qed (use assms(2) in \<open>simp add: replica_node_def\<close>)

lemma replica_node_step:
  assumes "node_step x T nd nd'" "replica_node nd"
  shows "replica_node nd'"
proof -
  have "node_ok nd" using assms(2) by (simp add: replica_node_def)
  then have c: "node_ok nd'" "sv_is_replica (nd_server nd')"
    using node.ok_step [OF assms(1)] node_step_config [OF assms(1)] assms(2) by (auto simp: replica_node_def same_config_def)
  have "silent (nd_server nd) (nd_server nd') \<and> list_all barred (nd_tasks nd')"
    using assms(1) unfolding node_step_def
  proof
    assume "node_work x T nd nd'"
    from work_forgets [OF this assms(2)] show ?thesis by (simp add: only_forgets_def)
  next
    assume "node_input x nd nd'"
    then show ?thesis
      by cases (use assms(2) called_barred replica_step_silent in \<open>auto simp: replica_node_def\<close>)
  qed
  then show ?thesis using c assms(2) by (simp add: replica_node_def silent_def)
qed

interpretation replica: step_invariant "node_step x T" replica_node for x T
  by unfold_locales (rule replica_node_step)

lemma server_new_quiet:
  assumes "server_new x now creatable sp cp wp r disk = Some sv"
  shows "sv_sync sv = [] \<and> sv_watch sv = []"
proof -
  obtain w d where "(case wp of Some path \<Rightarrow> wal_new creatable path disk | None \<Rightarrow> (None, disk)) = (w, d)"
    by (cases "case wp of Some path \<Rightarrow> wal_new creatable path disk | None \<Rightarrow> (None, disk)")
  then show ?thesis using assms by (auto simp: server_new_def lru_new_fresh Let_def)
qed

lemma replica_starts:
  assumes "run_server x now creatable la disk = Some (sv, leader)" "la_is_replica la"
  shows "replica_node (node_start sv)"
proof -
  have n: "server_new x now creatable (Some (la_snapshot la)) (Some (la_schema la)) (Some (la_wal la)) (la_is_replica la) disk = Some sv"
    using assms(1) by (auto simp: run_server_def bind_eq_Some_conv)
  show ?thesis
    using start_ok [OF assms(1)] server_new_paths [OF n] server_new_quiet [OF n] assms(2)
    by (simp add: replica_node_def node_start_def)
qed

text \<open>
  C24: A replica is read-only. However the calls, scans, saves and evictions on a replica are
  interleaved with each other and with the messages of its leader, every put, delete, compare-and-swap
  and commit that has ended was refused; what the node's own tasks do changes no record and no
  version and only removes records; and nothing is ever sent to those who watch the replica or
  replicate from it, not even what the leader's messages change.
\<close>

theorem replica_is_read_only:
  assumes "run_server x now creatable la disk = Some (sv0, leader)" "la_is_replica la"
    and "rtranclp (node_step x T) (node_start sv0) nd"
  shows "sv_sync (nd_server nd) = [] \<and> sv_watch (nd_server nd) = [] \<and>
    list_all (\<lambda>t. case t of
        PutTask e k v ttl (PutEnd r) \<Rightarrow> r = Inl read_only
      | DeleteTask e k (DeleteEnd r) \<Rightarrow> r = Inl read_only
      | CasTask e k old new ttl (CasEnd r) \<Rightarrow> r = Inl read_only
      | CommitTask e it tx (CommitEnd r) \<Rightarrow> r = Inl (CommitFailed ''Node is a read-only replica'')
      | _ \<Rightarrow> True) (nd_tasks nd) \<and>
    (\<forall>nd'. node_work x T nd nd' \<longrightarrow> sv_global_version (nd_server nd') = sv_global_version (nd_server nd) \<and>
       (\<forall>k r. fmlookup (sv_tree (nd_server nd')) k = Some r \<longrightarrow> fmlookup (sv_tree (nd_server nd)) k = Some r))"
proof -
  have r: "replica_node nd" by (rule replica.ok_reachable [OF assms(3) replica_starts [OF assms(1,2)]])
  have "barred t \<Longrightarrow> (case t of
        PutTask e k v ttl (PutEnd r) \<Rightarrow> r = Inl read_only
      | DeleteTask e k (DeleteEnd r) \<Rightarrow> r = Inl read_only
      | CasTask e k old new ttl (CasEnd r) \<Rightarrow> r = Inl read_only
      | CommitTask e it tx (CommitEnd r) \<Rightarrow> r = Inl (CommitFailed ''Node is a read-only replica'')
      | _ \<Rightarrow> True)" for t by (cases t) auto
  moreover have "only_forgets (nd_server nd) (nd_server nd')" if "node_work x T nd nd'" for nd'
    using work_forgets [OF that r] by simp
  ultimately show ?thesis
    using r unfolding replica_node_def list_all_iff only_forgets_def by blast
qed

theorem replica_is_read_only_witness:
  "\<exists>sv leader. run_server plain_ext None True (launch_of [''--replica-of'', ''leader''] (\<lambda>_. None)) files = Some (sv, leader) \<and>
     rtranclp (node_step plain_ext {Some 5}) (node_start sv) (busy_node (PutTask (at 1) ''a'' [1] None (PutEnd (Inl read_only))) sv) \<and>
     sv_sync sv = [] \<and> sv_watch sv = []"
proof -
  let ?t = "\<lambda>p. PutTask (at 1) ''a'' [1] None p" and ?la = "launch_of [''--replica-of'', ''leader''] (\<lambda>_. None)"
  obtain sv leader where sv: "run_server plain_ext None True ?la files = Some (sv, leader)"
    "rtranclp (node_step plain_ext {Some 5}) (node_start sv) (busy_node (?t PutStart) sv)"
    "la_is_replica ?la = sv_is_replica sv"
    using busy_node_reached [of "?t PutStart"] by fastforce
  have r: "la_is_replica ?la" by (simp add: launch_of_def replica_flag_def Let_def)
  have "node_step plain_ext {Some 5} (busy_node (?t PutStart) sv) (busy_node (?t (PutEnd (Inl read_only))) sv)"
    using node_work.turn [of "busy_node (?t PutStart) sv" "[]" "?t PutStart" "[]" plain_ext "?t (PutEnd (Inl read_only))" sv] sv(3) r
    by (simp add: node_step_def busy_node_def node_start_def)
  then have "rtranclp (node_step plain_ext {Some 5}) (node_start sv) (busy_node (?t (PutEnd (Inl read_only))) sv)"
    by (rule rtranclp.rtrancl_into_rtrancl [OF sv(2)])
  moreover from replica_is_read_only [OF sv(1) r this] have "sv_sync sv = [] \<and> sv_watch sv = []"
    by (simp add: busy_node_def node_start_def)
  ultimately show ?thesis using sv(1) by blast
qed

end
