(* ===== verification/Replica_Race.thy ===== *)
theory Replica_Race
  imports Race_Properties Resync_Properties
begin

text \<open>
  Concurrent writes on a leader draw their numbers before they take the lock of the log, so the log and
  the broadcast need not be in the order of the numbers. What this does to a replica is in Replica_Gaps.
\<close>

lemma delete_until_log:
  assumes "lru_inv (sv_cache sv)" "\<not> sv_is_replica sv" "fmlookup (sv_tree sv) k = Some old"
  shows "\<exists>sv'. run_task x 5 (DeleteTask e k DeleteStart) sv = Some (DeleteTask e k (DeleteLog (sv_global_version sv + 1)), sv') \<and>
    same_config sv sv' \<and> lru_inv (sv_cache sv') \<and> lru_abs (sv_cache sv') = (lru_abs (sv_cache sv))(k := None) \<and>
    sv_tree sv' = fmdrop k (sv_tree sv) \<and>
    sv_global_version sv' = sv_global_version sv + 1 \<and> sv_sync sv' = sv_sync sv \<and> sv_disk sv' = sv_disk sv"
proof -
  let ?s = "tree_remove k (remove_record_from_index x k (rec_value old) sv)"
  obtain c where c: "cache_invalidate k ?s = Some (?s\<lparr>sv_cache := c\<rparr>)" "lru_inv c"
    "lru_abs c = (lru_abs (sv_cache sv))(k := None)"
    using cache_invalidate_spec [of ?s k] assms(1) by (auto simp: step_defs)
  have n: "(5 :: nat) = Suc (Suc (Suc (Suc (Suc 0))))" by simp
  show ?thesis
    unfolding n using assms(2,3) c by (auto simp: next_version_def Let_def same_config_def step_defs)
qed

lemma delete_from_log:
  assumes "\<not> sv_wal_poisoned sv"
  shows "run_task x 3 (DeleteTask e k (DeleteLog n)) sv = Some (DeleteTask e k (DeleteEnd (Inr True)),
    send_watch k None ''DELETE'' (send_sync n (Delete k) (log_command x (en_wal e) n (Delete k) sv)))"
  using assms by (simp add: numeral_3_eq_3)

lemma deletes_out_of_order:
  assumes "lru_inv (sv_cache sv)" "\<not> sv_is_replica sv" "\<not> sv_wal_poisoned sv"
    and "sv_wal sv = Some w" "sv_disk sv w = Content (log_text x es)"
    and "fmlookup (sv_tree sv) a = Some ra" "fmlookup (sv_tree sv) b = Some rb" "a \<noteq> b"
    and "en_wal e1 = Written" "en_wal e2 = Written"
  defines "ms \<equiv> [(sv_global_version sv + 2, Delete b), (sv_global_version sv + 1, Delete a)]"
  shows "\<exists>sch sv'. play x sch ([DeleteTask e1 a DeleteStart, DeleteTask e2 b DeleteStart], sv) =
      Some ([DeleteTask e1 a (DeleteEnd (Inr True)), DeleteTask e2 b (DeleteEnd (Inr True))], sv') \<and>
    same_config sv sv' \<and> lru_inv (sv_cache sv') \<and>
    lru_abs (sv_cache sv') = (lru_abs (sv_cache sv))(a := None, b := None) \<and> sv_tree sv' = fmdrop b (fmdrop a (sv_tree sv)) \<and>
    sv_global_version sv' = sv_global_version sv + 2 \<and> sv_sync sv' = sv_sync sv @ ms \<and>
    sv_disk sv' w = Content (log_text x (es @ ms))"
proof -
  let ?v = "sv_global_version sv"
  let ?ts = "\<lambda>p q. [DeleteTask e1 a p, DeleteTask e2 b q]"
  let ?tail = "\<lambda>k e n s. send_watch k None ''DELETE'' (send_sync n (Delete k) (log_command x (en_wal e) n (Delete k) s))"
  obtain s1 where s1: "run_task x 5 (DeleteTask e1 a DeleteStart) sv = Some (DeleteTask e1 a (DeleteLog (?v + 1)), s1)"
    "same_config sv s1" "lru_inv (sv_cache s1)" "sv_tree s1 = fmdrop a (sv_tree sv)" "sv_global_version s1 = ?v + 1"
    "sv_sync s1 = sv_sync sv" "sv_disk s1 = sv_disk sv" "lru_abs (sv_cache s1) = (lru_abs (sv_cache sv))(a := None)"
    using delete_until_log [OF assms(1,2,6), of x e1] by blast
  have i: "\<not> sv_is_replica s1" "fmlookup (sv_tree s1) b = Some rb"
    using assms(2,7,8) s1(2,4) by (simp_all add: same_config_def)
  obtain s2 where s2: "run_task x 5 (DeleteTask e2 b DeleteStart) s1 = Some (DeleteTask e2 b (DeleteLog (?v + 2)), s2)"
    "same_config s1 s2" "sv_tree s2 = fmdrop b (fmdrop a (sv_tree sv))" "sv_global_version s2 = ?v + 2"
    "sv_sync s2 = sv_sync sv" "sv_disk s2 = sv_disk sv"
    "lru_inv (sv_cache s2)" "lru_abs (sv_cache s2) = (lru_abs (sv_cache sv))(a := None, b := None)"
    using delete_until_log [OF s1(3) i, of x e2] s1(4-8) by (auto simp: add.assoc)
  have c: "same_config sv s2" using same_config_trans [OF s1(2) s2(2)] .
  then have p: "\<not> sv_wal_poisoned s2" "sv_wal s2 = Some w" using assms(3,4) by (simp_all add: same_config_def)
  let ?s3 = "?tail b e2 (?v + 2) s2"
  let ?s4 = "?tail a e1 (?v + 1) ?s3"
  have t: "run_task x 3 (DeleteTask e2 b (DeleteLog (?v + 2))) s2 = Some (DeleteTask e2 b (DeleteEnd (Inr True)), ?s3)"
    "run_task x 3 (DeleteTask e1 a (DeleteLog (?v + 1))) ?s3 = Some (DeleteTask e1 a (DeleteEnd (Inr True)), ?s4)"
    by (rule delete_from_log, simp add: p(1) step_defs)+
  obtain m1 where m1: "play x (replicate m1 (Turn 0)) (?ts DeleteStart DeleteStart, sv) =
      Some (?ts (DeleteLog (?v + 1)) DeleteStart, s1)"
    using run_task_play [OF _ _ _ s1(1), of 0 "?ts DeleteStart DeleteStart"] by (auto simp: unhindered_def)
  obtain m2 where m2: "play x (replicate m2 (Turn 1)) (?ts (DeleteLog (?v + 1)) DeleteStart, s1) =
      Some (?ts (DeleteLog (?v + 1)) (DeleteLog (?v + 2)), s2)"
    using run_task_play [OF _ _ _ s2(1), of 1 "?ts (DeleteLog (?v + 1)) DeleteStart"] by (auto simp: unhindered_def)
  obtain m3 where m3: "play x (replicate m3 (Turn 1)) (?ts (DeleteLog (?v + 1)) (DeleteLog (?v + 2)), s2) =
      Some (?ts (DeleteLog (?v + 1)) (DeleteEnd (Inr True)), ?s3)"
    using run_task_play [OF _ _ _ t(1), of 1 "?ts (DeleteLog (?v + 1)) (DeleteLog (?v + 2))"] by (auto simp: unhindered_def)
  obtain m4 where m4: "play x (replicate m4 (Turn 0)) (?ts (DeleteLog (?v + 1)) (DeleteEnd (Inr True)), ?s3) =
      Some (?ts (DeleteEnd (Inr True)) (DeleteEnd (Inr True)), ?s4)"
    using run_task_play [OF _ _ _ t(2), of 0 "?ts (DeleteLog (?v + 1)) (DeleteEnd (Inr True))"] by (auto simp: unhindered_def)
  have "play x (replicate m1 (Turn 0) @ replicate m2 (Turn 1) @ replicate m3 (Turn 1) @ replicate m4 (Turn 0))
      (?ts DeleteStart DeleteStart, sv) = Some (?ts (DeleteEnd (Inr True)) (DeleteEnd (Inr True)), ?s4)"
    using m1 m2 m3 m4 by (simp add: play_append)
  moreover have "same_config sv ?s4" using c by (simp add: same_config_def step_defs)
  moreover have "lru_inv (sv_cache ?s4)" "lru_abs (sv_cache ?s4) = (lru_abs (sv_cache sv))(a := None, b := None)"
    using s2(7,8) by (simp_all add: step_defs)
  moreover have "sv_tree ?s4 = fmdrop b (fmdrop a (sv_tree sv))" "sv_global_version ?s4 = ?v + 2" "sv_sync ?s4 = sv_sync sv @ ms"
    using s2(3-5) by (simp_all add: step_defs ms_def)
  moreover have "sv_disk ?s4 w = Content (log_text x (es @ ms))"
    using s2(6) p(2) assms(5,9,10) log_text_snoc [of x es "(?v + 2, Delete b)"]
      log_text_snoc [of x "es @ [(?v + 2, Delete b)]" "(?v + 1, Delete a)"]
    by (simp add: step_defs disk_append_def wal_append_written ms_def)
  ultimately show ?thesis by blast
qed

end
