(* ===== verification/Replica_Gaps.thy ===== *)
theory Replica_Gaps
  imports Replica_Race Cluster_Properties Serial_Properties
begin

text \<open>
  What a replica misses while the leader keeps its log: after a snapshot that was cut short, a write that
  was under way when its snapshot was taken, or a write between the snapshot of an empty leader and the
  subscription, it has a version of the leader and lacks a record, and no connection brings that record;
  after two deletes that were sent in the wrong order it keeps the records, and no connection removes them.
\<close>

section \<open>Apart while the log is kept\<close>

fun writes_key :: "str \<Rightarrow> wal_command \<Rightarrow> bool" where
  "writes_key k (Put k' v ex) \<longleftrightarrow> k' = k"
| "writes_key k (Delete k') \<longleftrightarrow> k' = k"
| "writes_key k (TxCommit cs) \<longleftrightarrow> list_ex (writes_key k) cs"

lemma apply_write_other: "\<not> writes_key k c \<Longrightarrow> apply_write c m k = m k"
  by (cases c) auto

lemma apply_logged_other:
  assumes "\<not> writes_key k c"
  shows "apply_logged c m k = m k"
proof (cases c)
  case (TxCommit cs)
  have "list_all (\<lambda>c. \<not> writes_key k c) cs \<Longrightarrow> fold apply_write cs m k = m k" for m
    by (induction cs arbitrary: m) (simp_all add: apply_write_other)
  then show ?thesis using TxCommit assms by (simp add: list_ex_iff list_all_iff)
qed (use assms apply_write_other in \<open>auto simp del: apply_write.simps\<close>)

lemma fold_logged_other:
  "\<forall>(t, c) \<in> set ms. \<not> writes_key k c \<Longrightarrow> fold apply_logged (map snd ms) m k = m k"
  by (induction ms arbitrary: m) (auto simp: apply_logged_other)

text \<open>
  Whatever happens from here on, connections included, as long as the leader keeps its log and does
  not write the key again, it has its own record of the key and the replica has its own.
\<close>

definition stays_apart :: "('n, 'z) ext_scheme \<Rightarrow> str \<Rightarrow> server \<Rightarrow> server \<Rightarrow> bool" where
  "stays_apart x k leader replica \<longleftrightarrow>
     (\<forall>leader' link replica'. rtranclp (cluster x logged_action) (leader, None, replica) (leader', link, replica') \<longrightarrow>
        unat (sv_global_version leader) + (length (sv_sync leader') - length (sv_sync leader)) + 1 < 2 ^ 64 \<longrightarrow>
        (\<forall>(t, c) \<in> set (drop (length (sv_sync leader)) (sv_sync leader')). \<not> writes_key k c) \<longrightarrow>
        abs_store leader' k = abs_store leader k \<and> abs_store replica' k = abs_store replica k)"

lemma level_apart:
  assumes "wal_codec_ok x" "stream_codec_ok x" "level x old leader replica"
  shows "stays_apart x k leader replica"
  unfolding stays_apart_def
proof (intro allI impI)
  fix leader' link replica'
  assume r: "rtranclp (cluster x logged_action) (leader, None, replica) (leader', link, replica')"
    and b: "unat (sv_global_version leader) + (length (sv_sync leader') - length (sv_sync leader)) + 1 < 2 ^ 64"
    and o: "\<forall>(t, c) \<in> set (drop (length (sv_sync leader)) (sv_sync leader')). \<not> writes_key k c"
  obtain ms n where m: "sv_sync leader' = sv_sync leader @ ms"
    "keeps_log x old (sv_global_version leader) (abs_store leader) ms leader'"
    "abs_store replica' = fold apply_logged (map snd (take n ms)) (abs_store replica)"
    using level_reaches [OF assms r b] by blast
  have "\<forall>(t, c) \<in> set ms. \<not> writes_key k c" "\<forall>(t, c) \<in> set (take n ms). \<not> writes_key k c"
    using o m(1) by (auto dest: in_set_takeD)
  then show "abs_store leader' k = abs_store leader k \<and> abs_store replica' k = abs_store replica k"
    using m(2,3) by (auto simp: keeps_log_def fold_logged_other)
qed

text \<open>A leader that keeps its log, and has the version that the log ends with.\<close>

definition logging :: "('n, 'z) wal_ext_scheme \<Rightarrow> (u64 \<times> wal_command) list \<Rightarrow> server \<Rightarrow> bool" where
  "logging x es sv \<longleftrightarrow> keeps_log x es (sv_global_version sv) (abs_store sv) [] sv"

lemma logging_level:
  "logging x es leader \<Longrightarrow> sv_global_version leader \<noteq> 0 \<Longrightarrow> replica_ok x r \<Longrightarrow>
   sv_global_version r = sv_global_version leader \<Longrightarrow> level x es leader r"
  by (simp add: logging_def keeps_log_def level_def)

lemma logging_put:
  assumes "logging x es sv" "en_wal e = Written" "unat (sv_global_version sv) + 1 < 2 ^ 64"
  shows "\<exists>sv'. put x e k v None sv = Some (Inr True, sv') \<and> perform x (Request e (ReqPut k v None)) sv = Some sv' \<and>
    logging x (es @ [(sv_global_version sv + 1, Put k v None)]) sv' \<and>
    sv_sync sv' = sv_sync sv @ [(sv_global_version sv + 1, Put k v None)] \<and>
    sv_global_version sv' = sv_global_version sv + 1 \<and> abs_store sv' = (abs_store sv)(k \<mapsto> (v, None))"
proof -
  let ?m = "(sv_global_version sv + 1, Put k v None)"
  have sv: "serving UNIV sv" "\<not> sv_is_replica sv" "lru_inv (sv_cache sv)"
    using assms(1) by (simp_all add: logging_def keeps_log_def serving_def cache_ok_def)
  obtain sv' where p: "put x e k v None sv = Some (Inr True, sv')" "sv_sync sv' = sv_sync sv @ [?m]"
    "sv_global_version sv' = sv_global_version sv + 1"
    "sv_tree sv' = fmupd k \<lparr>rec_value = v, rec_expires = None, rec_version = sv_global_version sv + 1\<rparr> (sv_tree sv)"
    using put_spec [OF sv(3,2) ttl_expiry_None, where x = x and e = e and k = k and v = v] by blast
  have a: "perform x (Request e (ReqPut k v None)) sv = Some sv'" using p(1) by (simp add: perform_def reply_with_def)
  obtain ms' where "sv_sync sv' = sv_sync sv @ ms'" "keeps_log x es (sv_global_version sv) (abs_store sv) ([] @ ms') sv'"
    using keeps_log_step [OF assms(1) [unfolded logging_def] _ a] assms(2) by auto
  then have k: "keeps_log x es (sv_global_version sv) (abs_store sv) [?m] sv'" using p(2) by simp
  have "unat (sv_global_version sv + 1) = unat (sv_global_version sv) + 1"
    using word_add_below [of "sv_global_version sv" 1] assms(3) by simp
  then have "t \<le> sv_global_version sv + 1" if "t \<le> sv_global_version sv" for t
    using that by (simp add: word_le_nat_alt)
  then have "logging x (es @ [?m]) sv'" using k p(3) by (auto simp: logging_def keeps_log_def)
  then show ?thesis using p a abs_store_upd(1) [OF p(4)] by simp
qed

section \<open>A snapshot that is cut short\<close>

lemma install_empty:
  assumes "replica_ok x r" "sv_tree r = fmempty" "distinct (map kv_key recs)"
  shows "replica_ok x (install_chunk x recs v r)" "sv_global_version (install_chunk x recs v r) = v"
    and "abs_store (install_chunk x recs v r) = map_of (map binding recs)"
proof -
  have m: "fmlookup (sv_tree r) k = None" for k using assms(2) by simp
  have "lru_abs (sv_cache r) = Map.empty" using assms(1) m by (force simp: replica_ok_def cache_ok_def)
  moreover have "index_ok x (fold (install_record x v) recs r)"
    using assms(1,3) m by (intro index_ok_installs) (simp_all add: replica_ok_def)
  ultimately show "replica_ok x (install_chunk x recs v r)"
    using assms(1) by (auto simp: install_chunk_def replica_ok_def cache_ok_def index_ok_def install_records_other)
  show "sv_global_version (install_chunk x recs v r) = v" by (simp add: install_chunk_def)
  have "abs_store r = Map.empty" using m by (simp add: abs_store_def fun_eq_iff)
  then show "abs_store (install_chunk x recs v r) = map_of (map binding recs)"
    using assms(3) by (simp add: install_chunk_def abs_store_installs)
qed

lemma live_records_eternal:
  assumes "eternal (abs_store sv)"
  shows "length (live_records now sv) = fcard (fmdom (sv_tree sv))"
proof -
  have "live now r" if "(k, r) \<in> set (sorted_entries (sv_tree sv))" for k r
  proof -
    have "abs_store sv k = Some (rec_value r, rec_expires r)" using that by (simp add: in_sorted_entries abs_store_def)
    then have "rec_expires r = None" using assms by (auto simp: eternal_def)
    then show ?thesis by (simp add: live_def is_expired_def)
  qed
  then have "filter (\<lambda>(k, r). live now r) (sorted_entries (sv_tree sv)) = sorted_entries (sv_tree sv)"
    by (auto simp: filter_id_conv)
  then show ?thesis
    by (simp add: live_records_def sorted_entries_def sorted_list_of_fset.rep_eq fcard.rep_eq)
qed

lemma first_chunk:
  assumes "100 < length (live_records now sv)"
  obtains c ps rec where "sync_snapshot now sv = Snapshot c (sv_global_version sv) # ps" "distinct (map kv_key c)"
    "rec \<in> set (live_records now sv)" "kv_key rec \<notin> kv_key ` set c"
proof -
  obtain cs where cs: "sync_snapshot now sv = map (\<lambda>c. Snapshot c (sv_global_version sv)) cs"
    "concat cs = live_records now sv" "list_all (\<lambda>c. length c \<le> 100) cs"
    using sync_snapshot_chunks [of now sv] by blast
  from cs(2) assms obtain c cs' where c: "cs = c # cs'" by (cases cs) auto
  have "length c \<le> 100" using cs(3) c by simp
  moreover have "length c + length (concat cs') = length (live_records now sv)"
    using cs(2) c by (metis concat.simps(2) length_append)
  ultimately have "concat cs' \<noteq> []" using assms by (intro notI) simp
  then obtain rec where r: "rec \<in> set (concat cs')" by (meson last_in_set)
  have d: "distinct (map kv_key (c @ concat cs'))" using live_records_keys [of now sv] cs(2) c by simp
  then have "kv_key rec \<notin> kv_key ` set c" using r by (auto simp: image_iff)
  then show ?thesis using that [of c _ rec] cs c r d by (auto simp flip: cs(2))
qed

text \<open>
  C30: A snapshot that is cut short is not made up for while the leader keeps its log. A leader with
  more than a hundred records, none of which expires, takes no saves; a new replica takes the first
  chunk of the snapshot and loses the connection. It then has the leader's version, since every chunk
  sets it, and lacks a record; whatever the leader does short of a save or a write with an expiry time,
  and however often the replica connects, it lacks that record until the leader writes it anew. (After
  a save has truncated the log, a replica that is behind is sent a whole snapshot.)
\<close>

theorem snapshot_cut_short:
  assumes "wal_codec_ok x" "stream_codec_ok x" "logging x es leader" "sv_global_version leader \<noteq> 0"
    and "replica_ok x r" "sv_tree r = fmempty" "sv_global_version r = 0" "100 < fcard (fmdom (sv_tree leader))"
  shows "\<exists>k replica. rtranclp (cluster x logged_action) (leader, None, r) (leader, None, replica) \<and>
    sv_global_version replica = sv_global_version leader \<and>
    abs_store leader k \<noteq> None \<and> abs_store replica k = None \<and> stays_apart x k leader replica"
proof -
  let ?v = "sv_global_version leader"
  have "eternal (abs_store leader)" using assms(3) by (simp add: logging_def keeps_log_def)
  then have "100 < length (live_records None leader)" using assms(8) live_records_eternal by simp
  then obtain c ps rec where c: "sync_snapshot None leader = Snapshot c ?v # ps" "distinct (map kv_key c)"
    "rec \<in> set (live_records None leader)" "kv_key rec \<notin> kv_key ` set c"
    using first_chunk by blast
  let ?r = "install_chunk x c ?v r"
  note r = install_empty [OF assms(5,6) c(2), of ?v]
  have "sync_initial x None (sv_global_version r) leader = (Snapshot c ?v # ps, ?v)"
    using assms(7) c(1) by (simp add: sync_initial_def sync_plan_def)
  then have "rtranclp (cluster x logged_action) (leader, None, r) (leader, Some (Snapshot c ?v # ps, Opening ?v), r)"
    by (intro r_into_rtranclp cluster.connect)
  also have "cluster x logged_action (leader, Some (Snapshot c ?v # ps, Opening ?v), r) (leader, Some (ps, Opening ?v), ?r)"
    using cluster.deliver [where go = True and p = "Snapshot c ?v"] by (fastforce simp: replica_step_def)
  also have "cluster x logged_action (leader, Some (ps, Opening ?v), ?r) (leader, None, ?r)"
    by (rule cluster.lose)
  finally have "rtranclp (cluster x logged_action) (leader, None, r) (leader, None, ?r)" .
  moreover have "abs_store ?r (kv_key rec) = None"
    using c(4) by (auto simp: r(3) map_of_eq_None_iff binding_def)
  moreover have "abs_store leader (kv_key rec) \<noteq> None"
    using c(3) by (auto simp: in_live_records answer_def abs_store_def)
  moreover have "stays_apart x (kv_key rec) leader ?r"
    by (rule level_apart [OF assms(1,2) logging_level [OF assms(3,4) r(1,2)]])
  ultimately show ?thesis using r(2) by blast
qed

section \<open>A put under way\<close>

lemma put_until_number:
  assumes "lru_inv (sv_cache sv)" "\<not> sv_is_replica sv"
  shows "\<exists>mid. run_task x 5 (PutTask e k v None PutStart) sv = Some (PutTask e k v None (PutLog None (sv_global_version sv + 1)), mid) \<and>
    sv_tree mid = sv_tree sv \<and> sv_sync mid = sv_sync sv \<and> sv_global_version mid = sv_global_version sv + 1"
proof -
  let ?s = "index_record x k v (unindex_old x k sv)"
  obtain c where c: "cache_put k v ?s = Some (?s\<lparr>sv_cache := c\<rparr>)"
    using cache_put_spec [of ?s k v] assms(1) by auto
  have n: "(5 :: nat) = Suc (Suc (Suc (Suc (Suc 0))))" by simp
  show ?thesis
    unfolding n run_put_head [OF assms(2) ttl_expiry_None] using c
    by (simp add: next_version_def Let_def)
qed

text \<open>
  C31: A replica may miss a put that is under way when it connects. The put has drawn its number and
  not yet entered its record in the tree; the snapshot is taken then, carries that number and not the
  record, and the broadcast of the put is not forwarded because of its number. The put is acknowledged;
  the replica has the leader's version and the store from before the put. As long as the leader takes no
  save, so that it keeps its log, and nothing expires, the replica lacks the record until the leader
  writes it anew. This holds for every leader with a log and at least one live record; without one the
  snapshot is empty.
\<close>

theorem put_sync_race:
  assumes "wal_codec_ok x" "stream_codec_ok x" "logging x es leader" "unat (sv_global_version leader) + 1 < 2 ^ 64"
    and "en_wal e = Written" "live_records now leader \<noteq> []"
    and "replica_ok x r" "sv_tree r = fmempty"
  shows "\<exists>mid leader' ps replica.
    run_task x 5 (PutTask e k v None PutStart) leader = Some (PutTask e k v None (PutLog None (sv_global_version leader + 1)), mid) \<and>
    sync_initial x now 0 mid = (ps, sv_global_version mid) \<and>
    run_task x 4 (PutTask e k v None (PutLog None (sv_global_version leader + 1))) mid = Some (PutTask e k v None (PutEnd (Inr True)), leader') \<and>
    replica_run x (map (Pair e') (ps @ sync_forward x (sv_global_version mid) (drop (length (sv_sync mid)) (sv_sync leader')))) r =
      Some (True, replica) \<and>
    sv_global_version replica = sv_global_version leader' \<and> abs_store leader' = (abs_store leader)(k \<mapsto> (v, None)) \<and>
    abs_store replica = abs_store leader \<and> stays_apart x k leader' replica"
proof -
  let ?v = "sv_global_version leader"
  let ?t = "\<lambda>p. PutTask e k v None p"
  have l: "lru_inv (sv_cache leader)" "\<not> sv_is_replica leader" "eternal (abs_store leader)"
    using assms(3) by (simp_all add: logging_def keeps_log_def serving_def cache_ok_def)
  obtain mid where mid: "run_task x 5 (?t PutStart) leader = Some (?t (PutLog None (?v + 1)), mid)"
    "sv_tree mid = sv_tree leader" "sv_sync mid = sv_sync leader" "sv_global_version mid = ?v + 1"
    using put_until_number [OF l(1,2), of x e k v] by blast
  obtain leader' where l': "put x e k v None leader = Some (Inr True, leader')"
    "logging x (es @ [(?v + 1, Put k v None)]) leader'" "sv_sync leader' = sv_sync leader @ [(?v + 1, Put k v None)]"
    "sv_global_version leader' = ?v + 1" "abs_store leader' = (abs_store leader)(k \<mapsto> (v, None))"
    using logging_put [OF assms(3,5,4)] by blast
  have "run_task x (5 + 4) (?t PutStart) leader = Some (?t (PutEnd (Inr True)), leader')"
    using run_put [of x e k v None leader] l'(1) by simp
  then have "run_task x 4 (?t (PutLog None (?v + 1))) mid = Some (?t (PutEnd (Inr True)), leader')"
    unfolding run_task_add mid(1) by simp
  moreover have s: "sync_initial x now 0 mid = (sync_snapshot now mid, sv_global_version mid)"
    by (simp add: sync_initial_def sync_plan_def)
  moreover have f: "sync_forward x (sv_global_version mid) (drop (length (sv_sync mid)) (sv_sync leader')) = []"
    by (simp add: mid(3,4) l'(3) sync_forward_def)
  have ne: "live_records now mid \<noteq> []" using assms(6) by (simp add: live_records_def mid(2))
  obtain cs where cs: "sync_snapshot now mid = map (\<lambda>c. Snapshot c (sv_global_version mid)) cs" "concat cs = live_records now mid"
    using sync_snapshot_chunks [of now mid] by blast
  let ?r = "fold (\<lambda>c. install_chunk x c (sv_global_version mid)) cs r"
  have r: "?r = install_chunk x (live_records now mid) (sv_global_version mid) r"
    using cs(2) ne by (auto simp: install_chunks install_chunk_def)
  note i = install_empty [OF assms(7,8) live_records_keys [of now mid], of "sv_global_version mid"]
  have "abs_store mid = abs_store leader" by (simp add: abs_store_def mid(2) fun_eq_iff)
  then have "abs_store ?r = abs_store leader"
    unfolding r i(3) using l(3) by (simp add: map_of_live_records live_store_eternal)
  moreover have "sv_global_version leader' \<noteq> 0"
    using word_add_below [of ?v 1] assms(4) l'(4) by (auto simp flip: unat_0_iff)
  then have "stays_apart x k leader' ?r"
    unfolding r using level_apart [OF assms(1,2) logging_level [OF l'(2) _ i(1)]] i(2) l'(4) mid(4) by simp
  moreover have "replica_run x (map (Pair e') (sync_snapshot now mid)) r = Some (True, ?r)"
    unfolding cs(1) by (rule replica_run_snapshots)
  moreover have "sv_global_version ?r = sv_global_version leader'" unfolding r i(2) by (simp add: mid(4) l'(4))
  ultimately show ?thesis using mid(1) l'(5) f
    by (intro exI [of _ mid] exI [of _ leader'] exI [of _ "sync_snapshot now mid"] exI [of _ ?r]) simp
qed

section \<open>The first write of a leader\<close>

text \<open>A replica at version 0 takes any number.\<close>

lemma replica_step_first:
  assumes "carries x (t, c) p" "replica_ok x r" "sv_global_version r = 0" "t \<noteq> 0"
  shows "\<exists>r'. replica_step x e p r = Some (True, r') \<and> replica_ok x r' \<and>
    abs_store r' = apply_logged c (abs_store r) \<and> sv_global_version r' = t"
proof -
  obtain r' where "apply_command x e t c r = Some r'" "replica_ok x r'"
    "abs_store r' = apply_logged c (abs_store r)" "sv_global_version r' = t"
    using apply_command_ok [OF assms(2), of e t c] by blast
  then show ?thesis using assms(1,3,4) by (auto simp: carries_def replica_step_def word_le_0_iff)
qed

text \<open>
  The first write of a leader may be missed. A new replica connects to a leader that has never written
  anything and is sent an empty chunk; the leader's first write comes before the task has subscribed to
  the broadcast, the second one after it. The replica takes the second for the first, because a replica at
  version 0 accepts any number; it has the leader's version then and lacks the first write until the
  leader writes that key anew.
\<close>

theorem first_write_missed:
  assumes "wal_codec_ok x" "stream_codec_ok x" "logging x es leader" "sv_global_version leader = 0" "sv_tree leader = fmempty"
    and "en_wal (e :: env) = Written" "replica_ok x r" "sv_tree r = fmempty" "sv_global_version r = 0" "a \<noteq> b"
  shows "\<exists>leader' replica. rtranclp (cluster x logged_action) (leader, None, r) (leader', None, replica) \<and>
    sv_global_version replica = sv_global_version leader' \<and>
    abs_store leader' = [a \<mapsto> (v, None), b \<mapsto> (w, None)] \<and> abs_store replica = [b \<mapsto> (w, None)] \<and>
    stays_apart x a leader' replica"
proof -
  let ?put = "\<lambda>k u. Request e (ReqPut k u None)"
  have m: "abs_store leader = Map.empty" "abs_store r = Map.empty"
    using assms(5,8) by (simp_all add: abs_store_def fun_eq_iff)
  obtain l1 where l1: "perform x (?put a v) leader = Some l1" "logging x (es @ [(1, Put a v None)]) l1"
    "sv_sync l1 = sv_sync leader @ [(1, Put a v None)]" "sv_global_version l1 = 1" "abs_store l1 = [a \<mapsto> (v, None)]"
    using logging_put [OF assms(3,6), of a v] assms(4) m(1) by auto
  obtain l2 where l2: "perform x (?put b w) l1 = Some l2" "logging x ((es @ [(1, Put a v None)]) @ [(2, Put b w None)]) l2"
    "sv_sync l2 = sv_sync l1 @ [(2, Put b w None)]" "sv_global_version l2 = 2" "abs_store l2 = [a \<mapsto> (v, None), b \<mapsto> (w, None)]"
    using logging_put [OF l1(2) assms(6), of b w] l1(4,5) by auto
  let ?r1 = "install_chunk x [] 0 r"
  let ?p = "message x (2, Put b w None)"
  have r1: "replica_ok x ?r1" "sv_global_version ?r1 = 0" "abs_store ?r1 = Map.empty"
    using install_empty [OF assms(7,8), of "[]" 0] by simp_all
  obtain r2 where r2: "replica_step x e ?p ?r1 = Some (True, r2)" "replica_ok x r2" "abs_store r2 = [b \<mapsto> (w, None)]"
    "sv_global_version r2 = 2"
    using replica_step_first [OF message_carries [OF assms(2)] r1(1,2), where e = e and t = 2 and c = "Put b w None"] r1(3) by auto
  have "sync_initial x None (sv_global_version r) leader = ([Snapshot [] 0], 0)"
    using assms(4,5,9) by (simp add: sync_initial_def sync_plan_def sync_snapshot_def live_records_def sorted_entries_def)
  then have "rtranclp (cluster x logged_action) (leader, None, r) (leader, Some ([Snapshot [] 0], Opening 0), r)"
    by (intro r_into_rtranclp cluster.connect)
  also have "cluster x logged_action (leader, Some ([Snapshot [] 0], Opening 0), r) (l1, Some ([Snapshot [] 0], Opening 0), r)"
    using cluster.lead [OF _ l1(1), of logged_action "Some ([Snapshot [] 0], Opening 0)" r] assms(6) by simp
  also have "cluster x logged_action (l1, Some ([Snapshot [] 0], Opening 0), r) (l1, Some ([Snapshot [] 0], Streaming 0), r)"
    by (rule cluster.subscribe)
  also have "cluster x logged_action (l1, Some ([Snapshot [] 0], Streaming 0), r) (l2, Some ([Snapshot [] 0, ?p], Streaming 0), r)"
    using cluster.lead [OF _ l2(1), of logged_action "Some ([Snapshot [] 0], Streaming 0)" r] assms(6)
    by (simp add: l2(3) sync_forward_def message_def)
  also have "cluster x logged_action (l2, Some ([Snapshot [] 0, ?p], Streaming 0), r) (l2, Some ([?p], Streaming 0), ?r1)"
    using cluster.deliver [where go = True and p = "Snapshot [] 0"] by (fastforce simp: replica_step_def)
  also have "cluster x logged_action (l2, Some ([?p], Streaming 0), ?r1) (l2, Some ([], Streaming 0), r2)"
    using cluster.deliver [OF r2(1)] by simp
  also have "cluster x logged_action (l2, Some ([], Streaming 0), r2) (l2, None, r2)" by (rule cluster.lose)
  finally have "rtranclp (cluster x logged_action) (leader, None, r) (l2, None, r2)" .
  moreover have "stays_apart x a l2 r2"
    using level_apart [OF assms(1,2) logging_level [OF l2(2) _ r2(2)]] r2(4) l2(4) by simp
  ultimately show ?thesis using r2(3,4) l2(4,5) by (intro exI [of _ l2] exI [of _ r2]) simp
qed

section \<open>Two deletes in the wrong order\<close>

text \<open>Installing records the replica has already, with the same values, leaves its index exact.\<close>

lemma index_ok_reinstalls:
  "index_ok x sv \<Longrightarrow> \<forall>rec \<in> set recs. tree_values (sv_tree sv) (kv_key rec) = Some (kv_value rec) \<Longrightarrow>
   index_ok x (fold (install_record x v) recs sv)"
proof (induction recs arbitrary: sv)
  case Nil
  then show ?case by simp
next
  case (Cons rec recs)
  have t: "tree_values (sv_tree sv) (kv_key rec) = Some (kv_value rec)" using Cons.prems(2) by simp
  then have "index_ok x (install_record x v rec sv)"
    using ix.agrees_overwrite [OF Cons.prems(1) [unfolded index_ok_def], of "kv_key rec" "kv_value rec"]
    by (simp add: index_ok_def install_record_def step_defs)
  moreover have "tree_values (sv_tree (install_record x v rec sv)) = tree_values (sv_tree sv)"
    using t by (auto simp: install_record_def step_defs)
  ultimately show ?case using Cons.IH Cons.prems(2) by simp
qed

text \<open>A snapshot with nothing new leaves the replica as it is, but for its version.\<close>

lemma snapshot_nothing_new:
  assumes "replica_ok x r" "live_records now leader \<noteq> []" "live_store now leader \<subseteq>\<^sub>m abs_store r"
  shows "\<exists>r'. replica_run x (map (Pair e) (sync_snapshot now leader)) r = Some (True, r') \<and> replica_ok x r' \<and>
    abs_store r' = abs_store r \<and> sv_global_version r' = sv_global_version leader"
proof -
  let ?recs = "live_records now leader" and ?v = "sv_global_version leader"
  obtain cs where cs: "sync_snapshot now leader = map (\<lambda>c. Snapshot c ?v) cs" "concat cs = ?recs"
    using sync_snapshot_chunks [of now leader] by blast
  let ?r = "fold (\<lambda>c. install_chunk x c ?v) cs r"
  have r: "?r = (fold (install_record x ?v) ?recs r)\<lparr>sv_global_version := ?v\<rparr>"
    using cs(2) assms(2) by (auto simp: install_chunks)
  have m: "abs_store r (kv_key rec) = Some (kv_value rec, kv_expires rec)" if "rec \<in> set ?recs" for rec
  proof -
    have "(kv_key rec, kv_value rec, kv_expires rec) \<in> set (map binding ?recs)"
      using that by (auto simp: binding_def)
    moreover have "distinct (map fst (map binding ?recs))" using live_records_keys [of now leader] by (simp add: binding_def comp_def)
    ultimately have "live_store now leader (kv_key rec) = Some (kv_value rec, kv_expires rec)"
      unfolding map_of_live_records [symmetric] by (rule map_of_is_SomeI [rotated])
    then show ?thesis using assms(3) by (metis domI map_le_def)
  qed
  have "abs_store ?r = abs_store r ++ live_store now leader"
    by (simp add: r abs_store_installs live_records_keys map_of_live_records)
  then have a: "abs_store ?r = abs_store r" using assms(3) by (simp add: map_le_iff_map_add_commute map_add_subsumed1 map_add_subsumed2)
  have tv: "tree_values (sv_tree sv) k = map_option fst (abs_store sv k)" for sv k
    by (simp add: tree_values_def abs_store_def option.map_comp comp_def)
  have "index_ok x (fold (install_record x ?v) ?recs r)"
    using assms(1) m by (intro index_ok_reinstalls) (simp_all add: replica_ok_def tv)
  moreover have "cache_ok ?r"
  proof -
    have c: "cache_ok sv \<longleftrightarrow> lru_inv (sv_cache sv) \<and> (\<forall>k v. lru_abs (sv_cache sv) k = Some v \<longrightarrow> abs_store sv k = Some (v, None))" for sv
      by (auto simp: cache_ok_def abs_store_def)
    show ?thesis using assms(1) a by (simp add: c replica_ok_def) (simp add: r install_records_other)
  qed
  ultimately have "replica_ok x ?r"
    using assms(1) by (simp add: r replica_ok_def index_ok_def install_records_other)
  then show ?thesis
    using a replica_run_snapshots [of x e ?v cs r] by (auto simp: cs(1) r)
qed

text \<open>
  C32: Two concurrent deletes leave a replica with the deleted records. The second delete to draw a
  number may be the first to log and send. A replica in step with the leader then sees a gap and
  connects again; since the log has a gap there too, it is sent a snapshot, which removes nothing:
  it ends up with the leader's version and still has both records, and everything else the leader had.
  As long as the leader keeps its log, nothing expires and nobody writes the keys again, no connection
  removes them. The leader needs a third record, without which the snapshot is empty.
\<close>

theorem deletes_diverge_replica:
  assumes "wal_codec_ok x" "stream_codec_ok x" "in_step x es leader r" "unat (sv_global_version leader) + 3 < 2 ^ 64"
    and "abs_store leader a \<noteq> None" "abs_store leader b \<noteq> None" "a \<noteq> b"
    and "abs_store leader k \<noteq> None" "k \<noteq> a" "k \<noteq> b" "en_wal e1 = Written" "en_wal e2 = Written"
  shows "\<exists>sch leader' ps r'.
    play x sch ([DeleteTask e1 a DeleteStart, DeleteTask e2 b DeleteStart], leader) =
      Some ([DeleteTask e1 a (DeleteEnd (Inr True)), DeleteTask e2 b (DeleteEnd (Inr True))], leader') \<and>
    abs_store leader' = (abs_store leader)(a := None, b := None) \<and>
    replica_run x (map (Pair e) (sync_forward x (sv_global_version leader) (drop (length (sv_sync leader)) (sv_sync leader')))) r =
      Some (False, r) \<and>
    sync_initial x now (sv_global_version r) leader' = (ps, sv_global_version leader') \<and>
    replica_run x (map (Pair e) ps) r = Some (True, r') \<and>
    sv_global_version r' = sv_global_version leader' \<and> abs_store r' = abs_store leader \<and>
    stays_apart x a leader' r' \<and> stays_apart x b leader' r'"
proof -
  let ?v = "sv_global_version leader"
  let ?ms = "[(?v + 2, Delete b), (?v + 1, Delete a)]"
  obtain w where s: "serving UNIV leader" "eternal (abs_store leader)" "?v \<noteq> 0" "\<forall>(t, c) \<in> set es. t \<le> ?v"
    "sv_wal leader = Some w" "sv_wal_path leader = Some w" "sv_disk leader w = Content (log_text x es)"
    "replica_ok x r" "sv_global_version r = ?v" "abs_store r = abs_store leader"
    using assms(3) by (auto simp: in_step_def level_def)
  have sv: "lru_inv (sv_cache leader)" "\<not> sv_is_replica leader" "\<not> sv_wal_poisoned leader" "cache_ok leader"
    using s(1) by (simp_all add: serving_def cache_ok_def)
  obtain ra rb where ab: "fmlookup (sv_tree leader) a = Some ra" "fmlookup (sv_tree leader) b = Some rb"
    using assms(5,6) by (auto simp: abs_store_def)
  obtain sch l where l: "play x sch ([DeleteTask e1 a DeleteStart, DeleteTask e2 b DeleteStart], leader) =
      Some ([DeleteTask e1 a (DeleteEnd (Inr True)), DeleteTask e2 b (DeleteEnd (Inr True))], l)"
    "same_config leader l" "lru_inv (sv_cache l)" "lru_abs (sv_cache l) = (lru_abs (sv_cache leader))(a := None, b := None)"
    "sv_tree l = fmdrop b (fmdrop a (sv_tree leader))" "sv_global_version l = ?v + 2"
    "sv_sync l = sv_sync leader @ ?ms" "sv_disk l w = Content (log_text x (es @ ?ms))"
    using deletes_out_of_order [OF sv(1-3) s(5,7) ab assms(7,11,12)] by blast
  have n: "unat (?v + 1) = unat ?v + 1" "unat (?v + 2) = unat ?v + 2"
    using word_add_below [of ?v 1] word_add_below [of ?v 2] assms(4) by simp_all
  have m: "abs_store l = (abs_store leader)(a := None, b := None)" by (auto simp: abs_store_def l(5) fun_eq_iff)
  have el: "eternal (abs_store l)" using s(2) by (simp add: m eternal_def)
  have w: "sv_wal l = Some w" "sv_wal_path l = Some w" using l(2) s(5,6) by (simp_all add: same_config_def)
  have "cache_ok l" using sv(4) l(3) by (auto simp: cache_ok_def l(4,5) split: if_splits)
  then have "serving UNIV l" using s(1) l(2) by (simp add: serving_def same_config_def)
  moreover have "t \<le> ?v + 2" if "t \<le> ?v" for t using that n by (simp add: word_le_nat_alt)
  moreover have "?v + 1 \<le> ?v + 2" using n by (simp add: word_le_nat_alt)
  ultimately have log: "logging x (es @ ?ms) l" using s(4) el w l(6,8) by (auto simp: logging_def keeps_log_def)
  have f: "filter (\<lambda>(tx, c). ?v + 1 \<le> tx) es = []"
    using s(4) n by (fastforce simp: filter_empty_conv word_le_nat_alt)
  have "\<exists>rs. read_from_tx_id x (sv_disk l w) (?v + 1) = Inr rs \<and> rs \<noteq> [] \<and> fst (hd rs) = ?v + 2"
    unfolding l(8) using n f by (simp add: read_from_log_text [OF assms(1)] word_le_nat_alt)
  then have "sync_plan x ?v l = (True, [])"
    using w(2) n s(3) by (auto simp: sync_plan_def word_less_nat_alt split: list.splits)
  then have i: "sync_initial x now ?v l = (sync_snapshot now l, sv_global_version l)" by (simp add: sync_initial_def)
  have "length (live_records now l) \<noteq> 0"
    using assms(8-10) unfolding live_records_eternal [OF el] by (auto simp: l(5) abs_store_def fcard_0_eq dest: fmdomI)
  moreover have "live_store now l \<subseteq>\<^sub>m abs_store r"
    by (auto simp: live_store_eternal [OF el] m s(10) map_le_def split: if_splits)
  ultimately obtain r' where r': "replica_run x (map (Pair e) (sync_snapshot now l)) r = Some (True, r')"
    "replica_ok x r'" "abs_store r' = abs_store r" "sv_global_version r' = sv_global_version l"
    using snapshot_nothing_new [OF s(8), of now l e] by auto
  have "replica_run x (map (Pair e) (sync_forward x ?v ?ms)) r = Some (False, r)"
    using replica_step_gap [of r "?v + 2" x e] n s(3,9) by (simp add: sync_forward_def word_less_nat_alt)
  moreover have "?v + 2 \<noteq> 0" using n(2) by (auto simp flip: unat_0_iff)
  then have "stays_apart x j l r'" for j
    using level_apart [OF assms(1,2) logging_level [OF log _ r'(2,4)]] l(6) by simp
  ultimately show ?thesis
    using l(1,7) m i r' s(9,10) by (intro exI [of _ sch] exI [of _ l] exI [of _ "sync_snapshot now l"] exI [of _ r']) simp
qed

section \<open>Instances\<close>

definition many_records :: "(str, db_record) fmap" where
  "many_records = fmap_of_list (map (\<lambda>n. (replicate n (CHR ''a''), \<lparr>rec_value = [1], rec_expires = None, rec_version = 1\<rparr>)) [0..<101])"

lemma many_records_card: "fcard (fmdom many_records) = 101"
proof -
  have "inj_on (\<lambda>n. replicate n (CHR ''a'')) (set [0..<101])" by (rule inj_onI) (metis length_replicate)
  then have "card ((\<lambda>n. replicate n (CHR ''a'')) ` set [0..<101]) = 101" by (simp add: card_image)
  then show ?thesis by (simp add: many_records_def fcard.rep_eq fset_of_list.rep_eq comp_def del: upt_Suc)
qed

definition big_leader :: server where
  "big_leader = small_leader\<lparr>sv_tree := many_records\<rparr>"

lemma big_logging:
  "logging plain_stream [] big_leader" "sv_global_version big_leader = 1" "sv_tree big_leader = many_records"
proof -
  have e: "fmlookup many_records k = Some r \<Longrightarrow> rec_expires r = None" for k r
    by (auto simp: many_records_def dest!: fmap_of_list_SomeD)
  then have "eternal (abs_store big_leader)"
    by (auto simp: eternal_def abs_store_def big_leader_def split: option.splits)
  then show "logging plain_stream [] big_leader"
    using blank_serving(1) [of UNIV]
    by (simp add: logging_def keeps_log_def big_leader_def small_leader_def serving_def cache_ok_def log_text_def blank_server_def)
qed (simp_all add: big_leader_def small_leader_def)

lemma new_replica:
  "replica_ok plain_stream (blank_server\<lparr>sv_is_replica := True\<rparr>)" "sv_tree (blank_server\<lparr>sv_is_replica := True\<rparr>) = fmempty"
  "sv_global_version (blank_server\<lparr>sv_is_replica := True\<rparr>) = 0"
  by (rule blank_replica) (simp_all add: blank_server_def)

theorem snapshot_cut_short_witness:
  "\<exists>k replica. rtranclp (cluster plain_stream logged_action)
     (big_leader, None, blank_server\<lparr>sv_is_replica := True\<rparr>) (big_leader, None, replica) \<and>
     sv_global_version replica = 1 \<and> abs_store big_leader k \<noteq> None \<and> abs_store replica k = None"
proof -
  have "100 < fcard (fmdom (sv_tree big_leader))" by (simp add: big_logging(3) many_records_card)
  then show ?thesis
    using snapshot_cut_short [OF plain_stream_codec plain_stream_ok big_logging(1) _ new_replica] big_logging(2) by auto
qed

theorem put_sync_race_witness:
  "\<exists>leader' replica. put plain_stream (at 1) ''b'' [2] None big_leader = Some (Inr True, leader') \<and>
     sv_global_version replica = sv_global_version leader' \<and> abs_store leader' ''b'' = Some ([2], None) \<and>
     abs_store replica = abs_store big_leader \<and> stays_apart plain_stream ''b'' leader' replica"
proof -
  have "eternal (abs_store big_leader)" using big_logging(1) by (simp add: logging_def keeps_log_def)
  then have "length (live_records (Some 5) big_leader) = 101"
    using live_records_eternal big_logging(3) many_records_card by simp
  then have n: "live_records (Some 5) big_leader \<noteq> []" by auto
  have v: "unat (sv_global_version big_leader) + 1 < 2 ^ 64" "en_wal (at 1) = Written" by (simp_all add: big_logging(2))
  obtain mid leader' replica where r:
    "run_task plain_stream 5 (PutTask (at 1) ''b'' [2] None PutStart) big_leader =
       Some (PutTask (at 1) ''b'' [2] None (PutLog None (sv_global_version big_leader + 1)), mid)"
    "run_task plain_stream 4 (PutTask (at 1) ''b'' [2] None (PutLog None (sv_global_version big_leader + 1))) mid =
       Some (PutTask (at 1) ''b'' [2] None (PutEnd (Inr True)), leader')"
    "sv_global_version replica = sv_global_version leader'" "abs_store leader' = (abs_store big_leader)(''b'' \<mapsto> ([2], None))"
    "abs_store replica = abs_store big_leader" "stays_apart plain_stream ''b'' leader' replica"
    using put_sync_race [OF plain_stream_codec plain_stream_ok big_logging(1) v n new_replica(1,2), of "''b''" "[2]" "at 6"] by blast
  have "run_task plain_stream (5 + 4) (PutTask (at 1) ''b'' [2] None PutStart) big_leader =
      Some (PutTask (at 1) ''b'' [2] None (PutEnd (Inr True)), leader')"
    unfolding run_task_add r(1) using r(2) by simp
  then have "map_option (\<lambda>(r, s). (PutTask (at 1) ''b'' [2] None (PutEnd r), s)) (put plain_stream (at 1) ''b'' [2] None big_leader) =
      Some (PutTask (at 1) ''b'' [2] None (PutEnd (Inr True)), leader')"
    unfolding run_put [symmetric] by simp
  then have "put plain_stream (at 1) ''b'' [2] None big_leader = Some (Inr True, leader')" by auto
  then show ?thesis using r(3-6) by auto
qed

text \<open>A leader with three records and a replica in step with it.\<close>

definition three_records :: "(str, db_record) fmap" where
  "three_records = fmap_of_list (map (\<lambda>k. (k, \<lparr>rec_value = [1], rec_expires = None, rec_version = 1\<rparr>)) [''a'', ''b'', ''c''])"

lemma three_in_step:
  "in_step plain_stream [] (small_leader\<lparr>sv_tree := three_records\<rparr>) (small_replica\<lparr>sv_tree := three_records\<rparr>)"
proof -
  have "rec_expires r = None" if "fmlookup three_records k = Some r" for k r
    using that by (auto simp: three_records_def split: if_splits)
  then have "eternal (abs_store (small_leader\<lparr>sv_tree := three_records\<rparr>))"
    by (auto simp: eternal_def abs_store_def)
  moreover have "index_ok x (small_replica\<lparr>sv_tree := three_records\<rparr>)" for x :: "('n, 'z) serde_scheme"
    by (simp add: index_ok_def index_agrees_def small_replica_def blank_server_def extract_index_keys_def
        indexed_fields_for_prefix_def registry_new_def index_has_def)
  ultimately show ?thesis
    using blank_serving(1) [of UNIV] blank_server_ok
    by (simp add: in_step_def level_def small_leader_def small_replica_def serving_def replica_ok_def cache_ok_def
        abs_store_def log_text_def blank_server_def fun_eq_iff)
qed

theorem deletes_diverge_replica_witness:
  "\<exists>leader r sch leader' ps r'. abs_store leader ''a'' = Some ([1], None) \<and>
    abs_store r = abs_store leader \<and> sv_global_version r = sv_global_version leader \<and>
    play plain_stream sch ([DeleteTask (at 1) ''a'' DeleteStart, DeleteTask (at 1) ''b'' DeleteStart], leader) =
      Some ([DeleteTask (at 1) ''a'' (DeleteEnd (Inr True)), DeleteTask (at 1) ''b'' (DeleteEnd (Inr True))], leader') \<and>
    abs_store leader' = (abs_store leader)(''a'' := None, ''b'' := None) \<and>
    sync_initial plain_stream (Some 5) (sv_global_version r) leader' = (ps, sv_global_version leader') \<and>
    replica_run plain_stream (map (Pair (at 6)) ps) r = Some (True, r') \<and> abs_store r' = abs_store leader \<and>
    sv_global_version r' = sv_global_version leader' \<and> stays_apart plain_stream ''a'' leader' r'"
proof -
  let ?l = "small_leader\<lparr>sv_tree := three_records\<rparr>" and ?r = "small_replica\<lparr>sv_tree := three_records\<rparr>"
  have m: "abs_store ?l ''a'' = Some ([1], None)" "abs_store ?l ''b'' = Some ([1], None)" "abs_store ?l ''c'' = Some ([1], None)"
    by (simp_all add: abs_store_def three_records_def)
  have v: "abs_store ?r = abs_store ?l" "sv_global_version ?r = sv_global_version ?l"
    by (simp_all add: abs_store_def fun_eq_iff small_leader_def small_replica_def)
  have "unat (sv_global_version ?l) + 3 < 2 ^ 64" by (simp add: small_leader_def)
  then show ?thesis
    using deletes_diverge_replica [OF plain_stream_codec plain_stream_ok three_in_step, of "''a''" "''b''" "''c''" "at 1" "at 1"
        "at 6" "Some 5"] m v
    by (intro exI [of _ ?l] exI [of _ ?r]) (simp del: play.simps, blast)
qed

end
