(* ===== verification/Sync_Steps.thy ===== *)
theory Sync_Steps
  imports Node_Properties Resync_Properties
begin

text \<open>
  The task behind a \<open>sync\<close> call (src/server.rs) cut into its accesses: it reads the log or the
  version, walks over the tree without a lock while chunks of 100 records go out, and subscribes to
  the broadcast when they are sent. Run alone it sends what \<open>sync_initial\<close> and \<open>sync_forward\<close> say;
  beside writers the snapshot is a mixture of the states of the tree during the walk.
\<close>

section \<open>The task\<close>

datatype feeder =
  FeedPlan u64
| FeedCompare u64
| FeedVersion
| FeedWalk u64 cursor "kv_record list"
| FeedRecords u64 "(u64 \<times> str) list"
| FeedSubscribe u64
| FeedStream u64 nat
| FeedEnd

text \<open>
  One access, and what is sent in it. \<open>ok\<close>: the replica is still there, and the broadcast has not
  overtaken the task; otherwise it ends. A stream that has forwarded everything waits (\<open>None\<close>).
\<close>

definition sent :: "bool \<Rightarrow> sync_payload \<Rightarrow> feeder \<Rightarrow> (feeder \<times> sync_payload list) option" where
  "sent ok p f = Some (if ok then (f, [p]) else (FeedEnd, []))"

fun feeder_step ::
  "('n, 'z) wal_ext_scheme \<Rightarrow> bool \<Rightarrow> nat option \<Rightarrow> feeder \<Rightarrow> server \<Rightarrow> (feeder \<times> sync_payload list) option" where
  "feeder_step x ok now (FeedPlan last_known_tx_id) sv = Some
     (if last_known_tx_id = 0 then FeedVersion
      else (case sv_wal_path sv of
              None \<Rightarrow> FeedVersion
            | Some wal_path \<Rightarrow>
                (case read_from_tx_id x (sv_disk sv wal_path) (last_known_tx_id + 1) of
                   Inl _ \<Rightarrow> FeedVersion
                 | Inr [] \<Rightarrow> FeedCompare last_known_tx_id
                 | Inr (r # rs) \<Rightarrow>
                     if last_known_tx_id + 1 < fst r then FeedVersion else FeedRecords last_known_tx_id (r # rs))), [])"
| "feeder_step x ok now (FeedCompare last_known_tx_id) sv = Some
     (if last_known_tx_id < sv_global_version sv then FeedVersion else FeedRecords last_known_tx_id [], [])"
| "feeder_step x ok now FeedVersion sv = Some (FeedWalk (sv_global_version sv) (From []) [], [])"
| "feeder_step x ok now (FeedWalk max_tx_id c chunk) sv =
     (case next_entry c (sv_tree sv) of
        None \<Rightarrow> if chunk \<noteq> [] \<or> max_tx_id = 0 then sent ok (Snapshot chunk max_tx_id) (FeedSubscribe max_tx_id)
                else Some (FeedSubscribe max_tx_id, [])
      | Some (k, r) \<Rightarrow>
          if is_expired now (rec_expires r) then Some (FeedWalk max_tx_id (After k) chunk, [])
          else (let chunk1 = chunk @ [answer (k, r)] in
                if 100 \<le> length chunk1 then sent ok (Snapshot chunk1 max_tx_id) (FeedWalk max_tx_id (After k) [])
                else Some (FeedWalk max_tx_id (After k) chunk1, [])))"
| "feeder_step x ok now (FeedRecords start []) sv = Some (FeedSubscribe start, [])"
| "feeder_step x ok now (FeedRecords start ((tx_id, json) # rs)) sv = sent ok (WalRecord tx_id json) (FeedRecords tx_id rs)"
| "feeder_step x ok now (FeedSubscribe start) sv = Some (FeedStream start (length (sv_sync sv)), [])"
| "feeder_step x ok now (FeedStream start pos) sv =
     (if pos < length (sv_sync sv)
      then (let (tx_id, cmd) = sv_sync sv ! pos in
            if ok \<and> tx_id \<le> start then Some (FeedStream start (pos + 1), [])
            else sent ok (WalRecord tx_id (env_to_string x \<lparr>env_c = cmd, env_k = 0, env_tx_id = tx_id\<rparr> @ [newline]))
                   (FeedStream start (pos + 1)))
      else None)"
| "feeder_step x ok now FeedEnd sv = None"

fun run_feeder ::
  "('n, 'z) wal_ext_scheme \<Rightarrow> nat option \<Rightarrow> nat \<Rightarrow> feeder \<Rightarrow> server \<Rightarrow> feeder \<times> sync_payload list" where
  "run_feeder x now 0 f sv = (f, [])"
| "run_feeder x now (Suc n) f sv =
     (case feeder_step x True now f sv of
        None \<Rightarrow> (f, [])
      | Some (f1, ps) \<Rightarrow> (let (f2, qs) = run_feeder x now n f1 sv in (f2, ps @ qs)))"

section \<open>Alone\<close>

lemma run_feeder_first:
  "feeder_step x True now f sv = Some (f1, ps) \<Longrightarrow> run_feeder x now n f1 sv = (f2, qs) \<Longrightarrow>
   run_feeder x now (Suc n) f sv = (f2, ps @ qs)"
  by simp

lemma run_walk:
  "entries_ahead c (sv_tree sv) = es \<Longrightarrow> length chunk < 100 \<Longrightarrow>
   cut_chunks chunk (map answer (filter (\<lambda>(k, r). live now r) es)) = (full, rest) \<Longrightarrow>
   run_feeder x now (Suc (length es)) (FeedWalk m c chunk) sv =
     (FeedSubscribe m, map (\<lambda>c. Snapshot c m) full @ (if rest \<noteq> [] \<or> m = 0 then [Snapshot rest m] else []))"
proof (induction es arbitrary: c chunk full)
  case Nil
  then show ?case by (simp add: entries_ahead_Nil sent_def)
next
  case (Cons e es)
  obtain k r where e: "e = (k, r)" by (cases e)
  note n = entries_ahead_Cons [OF Cons.prems(1), unfolded e fst_conv]
  let ?tail = "if rest \<noteq> [] \<or> m = 0 then [Snapshot rest m] else []"
  have run: "run_feeder x now (Suc (length (e # es))) (FeedWalk m c chunk) sv =
      (FeedSubscribe m, ps @ map (\<lambda>c. Snapshot c m) full' @ ?tail)"
    if "feeder_step x True now (FeedWalk m c chunk) sv = Some (FeedWalk m (After k) chunk', ps)" "length chunk' < 100"
      "cut_chunks chunk' (map answer (filter (\<lambda>(k, r). live now r) es)) = (full', rest)" for chunk' ps full'
    using run_feeder_first [OF that(1) Cons.IH [OF n(2) that(2,3)]] by (simp only: length_Cons)
  show ?case
  proof (cases "live now r \<and> 100 \<le> length (chunk @ [answer (k, r)])")
    case True
    then obtain full' where "cut_chunks [] (map answer (filter (\<lambda>(k, r). live now r) es)) = (full', rest)"
      "full = (chunk @ [answer (k, r)]) # full'"
      using Cons.prems(3) by (auto simp: e Let_def split: prod.splits)
    then show ?thesis
      using run [of "[]" "[Snapshot (chunk @ [answer (k, r)]) m]" full'] n(1) True
      by (simp add: live_def sent_def Let_def del: run_feeder.simps)
  next
    case False
    let ?chunk = "if live now r then chunk @ [answer (k, r)] else chunk"
    have "cut_chunks ?chunk (map answer (filter (\<lambda>(k, r). live now r) es)) = (full, rest)" "length ?chunk < 100"
      using False Cons.prems(2,3) by (auto simp: e Let_def)
    moreover have "feeder_step x True now (FeedWalk m c chunk) sv = Some (FeedWalk m (After k) ?chunk, [])"
      using n(1) False by (auto simp: live_def Let_def)
    ultimately show ?thesis using run [of ?chunk "[]" full] by (simp del: run_feeder.simps)
  qed
qed

lemma run_version:
  "run_feeder x now (Suc (Suc (length (sorted_entries (sv_tree sv))))) FeedVersion sv =
     (FeedSubscribe (sv_global_version sv), sync_snapshot now sv)"
proof -
  obtain full rest where "cut_chunks [] (live_records now sv) = (full, rest)" by (cases "cut_chunks [] (live_records now sv)")
  then show ?thesis
    using run_walk [OF refl, of "[]" now "From []" sv full rest x "sv_global_version sv"]
    by (simp add: sync_snapshot_def live_records_def entries_ahead_all Let_def)
qed

lemma run_records:
  "run_feeder x now (Suc (length rs)) (FeedRecords start rs) sv =
     (FeedSubscribe (if rs = [] then start else fst (last rs)), map (\<lambda>(tx_id, json). WalRecord tx_id json) rs)"
proof (induction rs arbitrary: start)
  case (Cons r rs)
  then show ?case by (cases r) (auto simp: sent_def)
qed simp

lemma planned:
  obtains "feeder_step x ok now (FeedPlan v) sv = Some (FeedVersion, [])" "sync_plan x v sv = (True, [])"
  | "feeder_step x ok now (FeedPlan v) sv = Some (FeedCompare v, [])" "sync_plan x v sv = (v < sv_global_version sv, [])"
  | rs where "feeder_step x ok now (FeedPlan v) sv = Some (FeedRecords v rs, [])" "sync_plan x v sv = (False, rs)"
proof (cases "v = 0 \<or> sv_wal_path sv = None")
  case False
  then obtain w where "sv_wal_path sv = Some w" "v \<noteq> 0" by auto
  then show ?thesis
    using that by (cases "read_from_tx_id x (sv_disk sv w) (v + 1)"; cases "projr (read_from_tx_id x (sv_disk sv w) (v + 1))";
        cases "v + 1 < fst (hd (projr (read_from_tx_id x (sv_disk sv w) (v + 1))))") (auto simp: sync_plan_def)
qed (use that in \<open>auto simp: sync_plan_def\<close>)

text \<open>Up to the subscription a task that runs alone sends what \<open>sync_initial\<close> says; then it forwards.\<close>

theorem feed_steps_make_sync:
  "\<exists>n. run_feeder x now n (FeedPlan v) sv =
     (FeedSubscribe (snd (sync_initial x now v sv)), fst (sync_initial x now v sv))"
proof -
  have l: "\<exists>n. run_feeder x now n f sv = r"
    if "feeder_step x True now f sv = Some (f1, [])" "\<exists>n. run_feeder x now n f1 sv = r" for f f1 r
    using that run_feeder_first [of x now f sv f1 "[]"] by (metis append_Nil surj_pair)
  have s: "\<exists>n. run_feeder x now n FeedVersion sv = (FeedSubscribe (sv_global_version sv), sync_snapshot now sv)"
    using run_version by (rule exI)
  have r: "\<exists>n. run_feeder x now n (FeedRecords v rs) sv =
      (FeedSubscribe (if rs = [] then v else fst (last rs)), map (\<lambda>(tx_id, json). WalRecord tx_id json) rs)" for rs
    using run_records by (rule exI)
  show ?thesis
  proof (rule planned [of x True now v sv])
    assume c: "feeder_step x True now (FeedPlan v) sv = Some (FeedCompare v, [])" "sync_plan x v sv = (v < sv_global_version sv, [])"
    show ?thesis
    proof (cases "v < sv_global_version sv")
      case True
      then show ?thesis using l [OF c(1) l [OF _ s]] c(2) by (simp add: sync_initial_def)
    next
      case False
      then show ?thesis using l [OF c(1) l [OF _ r [of "[]"]]] c(2) by (simp add: sync_initial_def)
    qed
  next
    assume "feeder_step x True now (FeedPlan v) sv = Some (FeedVersion, [])" "sync_plan x v sv = (True, [])"
    then show ?thesis using l [OF _ s] by (simp add: sync_initial_def)
  next
    fix rs
    assume "feeder_step x True now (FeedPlan v) sv = Some (FeedRecords v rs, [])" "sync_plan x v sv = (False, rs)"
    then show ?thesis using l [OF _ r] by (simp add: sync_initial_def)
  qed
qed

theorem feed_steps_make_forward:
  "sv_sync sv = sent_before @ ms \<Longrightarrow>
   run_feeder x now (length ms) (FeedStream start (length sent_before)) sv =
     (FeedStream start (length (sv_sync sv)), sync_forward x start ms)"
proof (induction ms arbitrary: sent_before)
  case (Cons m ms)
  obtain tx c where m: "m = (tx, c)" by (cases m)
  have "run_feeder x now (length ms) (FeedStream start (length (sent_before @ [m]))) sv =
      (FeedStream start (length (sv_sync sv)), sync_forward x start ms)"
    using Cons.IH [of "sent_before @ [m]"] Cons.prems by simp
  then show ?case using Cons.prems by (simp add: m sent_def sync_forward_def not_le)
qed (simp add: sync_forward_def)

end
