(* ===== verification/Sync_Properties.thy ===== *)
theory Sync_Properties
  imports Sync_Steps Background_Properties
begin

text \<open>
  Snapshots for replicas beside writers: the task of a \<open>sync\<close> call as one more task of a running node.
\<close>

section \<open>The task on a node\<close>

text \<open>What the node does, and the accesses of the task with what it has sent so far.\<close>

type_synonym feed_node = "node \<times> feeder \<times> sync_payload list"

inductive feeding :: "('n, 'z) ext_scheme \<Rightarrow> nat option set \<Rightarrow> feed_node \<Rightarrow> feed_node \<Rightarrow> bool" for x T where
  others: "node_step x T nd nd' \<Longrightarrow> feeding x T (nd, f, out) (nd', f, out)"
| feed: "now \<in> T \<Longrightarrow> feeder_step x ok now f (nd_server nd) = Some (f', ps) \<Longrightarrow> feeding x T (nd, f, out) (nd, f', out @ ps)"

definition feed_trees :: "feed_node list \<Rightarrow> (str, db_record) fmap set" where
  "feed_trees cs = trees (map fst cs)"

lemma feed_trees_simps [simp]:
  "feed_trees [] = {}" "feed_trees (c # cs) = insert (sv_tree (nd_server (fst c))) (feed_trees cs)"
  "feed_trees (cs @ ds) = feed_trees cs \<union> feed_trees ds"
  by (simp_all add: feed_trees_def)

section \<open>What the chunks hold\<close>

definition streamed :: "visit list \<Rightarrow> kv_record list" where
  "streamed vs = map (\<lambda>(k, r, now). answer (k, r)) (filter (\<lambda>(k, r, now). live now r) vs)"

lemma streamed_push: "streamed (vs @ [(k, r, now)]) = streamed vs @ (if live now r then [answer (k, r)] else [])"
  by (simp add: streamed_def)

definition chunked :: "u64 \<Rightarrow> sync_payload list \<Rightarrow> kv_record list \<Rightarrow> bool" where
  "chunked m out recs \<longleftrightarrow> (\<exists>cs. out = map (\<lambda>c. Snapshot c m) cs \<and> concat cs = recs \<and> (\<forall>c \<in> set cs. length c \<le> 100))"

lemma chunked_Nil [simp]: "chunked m [] []"
  by (simp add: chunked_def)

lemma chunked_push: "chunked m out recs \<Longrightarrow> length c \<le> 100 \<Longrightarrow> chunked m (out @ [Snapshot c m]) (recs @ c)"
  unfolding chunked_def by (elim exE) (rename_tac cs, rule_tac x = "cs @ [c]" in exI, auto)

fun walk_goes :: "nat option set \<Rightarrow> (str, db_record) fmap set \<Rightarrow> u64 \<Rightarrow> sync_payload list \<Rightarrow> feeder \<Rightarrow> bool" where
  "walk_goes T M m out (FeedWalk m' c chunk) \<longleftrightarrow> m' = m \<and> From [] \<le> c \<and> length chunk < 100 \<and>
     (\<exists>vs recs. walked T (Prefixed []) (\<lambda>k. \<not> ahead c k) M vs \<and> chunked m out recs \<and> recs @ chunk = streamed vs)"
| "walk_goes T M m out (FeedSubscribe m') \<longleftrightarrow> m' = m \<and>
     (\<exists>vs. walked T (Prefixed []) (\<lambda>_. True) M vs \<and> chunked m out (streamed vs) \<and> (out = [] \<longrightarrow> m \<noteq> 0))"
| "walk_goes T M m out f \<longleftrightarrow> True"

lemma walk_goes_grow: "walk_goes T M m out f \<Longrightarrow> M \<subseteq> M' \<Longrightarrow> walk_goes T M' m out f"
  using walked_grow by (cases f) (auto; blast)+

definition walking :: "feeder \<Rightarrow> bool" where
  "walking f \<longleftrightarrow> (\<exists>m c chunk. f = FeedWalk m c chunk)"

lemma walk_goes_step:
  assumes "walk_goes T M m out f" "walking f" "feeder_step x ok now f sv = Some (f', ps)" "sv_tree sv \<in> M" "now \<in> T"
  shows "walk_goes T M m (out @ ps) f'"
proof -
  obtain c chunk vs recs where f: "f = FeedWalk m c chunk" "From [] \<le> c" "length chunk < 100"
    and w: "walked T (Prefixed []) (\<lambda>k. \<not> ahead c k) M vs" "chunked m out recs" "recs @ chunk = streamed vs"
    using assms(1,2) by (auto simp: walking_def)
  have c: "first_cursor (Prefixed []) \<le> c" using f(2) by simp
  show ?thesis
  proof (cases "next_entry c (sv_tree sv)")
    case None
    note all = walked_stop [OF w(1) c assms(4)]
    have "chunked m (out @ [Snapshot chunk m]) (streamed vs)" using chunked_push [OF w(2), of chunk] f(3) w(3) by simp
    moreover have "out = [] \<and> chunk = [] \<longrightarrow> chunked m out (streamed vs)" using w(2,3) by (auto simp: chunked_def)
    ultimately show ?thesis
      using all None assms(3) w(2,3) by (auto simp: f(1) sent_def split: if_splits)
  next
    case (Some e)
    then obtain k r where n: "next_entry c (sv_tree sv) = Some (k, r)" by (cases e) auto
    have g: "goes_on (Prefixed []) k" by (simp add: starts_with_def)
    note visit = walked_visit [OF w(1) c n g assms(4,5)]
    have later: "From [] \<le> After k" using visit(2) by simp
    let ?chunk = "if live now r then chunk @ [answer (k, r)] else chunk"
    have s: "recs @ ?chunk = streamed (vs @ [(k, r, now)])" using w(3) by (simp add: streamed_push)
    consider "f' = FeedEnd" | "f' = FeedWalk m (After k) ?chunk" "ps = []" "length ?chunk < 100"
      | "f' = FeedWalk m (After k) []" "ps = [Snapshot ?chunk m]" "length ?chunk \<le> 100"
      using assms(3) f(3) by (auto simp: f(1) n live_def sent_def Let_def split: if_splits)
    then show ?thesis
    proof cases
      case 2
      show ?thesis
        unfolding 2(1,2) walk_goes.simps append_Nil2 using 2(3) later visit(1) w(2) s by blast
    next
      case 3
      have "chunked m (out @ ps) (recs @ ?chunk)" unfolding 3(2) by (rule chunked_push [OF w(2) 3(3)])
      then show ?thesis using later visit(1) s 3(1) by auto
    qed simp
  qed
qed

definition feed_at :: "nat option set \<Rightarrow> u64 \<Rightarrow> feed_node list \<Rightarrow> bool" where
  "feed_at T m cs \<longleftrightarrow> cs \<noteq> [] \<and> ((\<forall>(d, f, out) \<in> set (butlast cs). walking f) \<longrightarrow>
     walk_goes T (feed_trees cs) m (snd (snd (last cs))) (fst (snd (last cs))))"

lemma feed_at_step:
  assumes "feed_at T m (cs @ [c])" "feeding x T c c'"
  shows "feed_at T m (cs @ [c, c'])"
proof (cases "\<forall>(d, f, out) \<in> set (cs @ [c]). walking f")
  case True
  obtain nd f out where c: "c = (nd, f, out)" by (cases c)
  have g: "walk_goes T (feed_trees (cs @ [c])) m out f" using assms(1) True by (auto simp: feed_at_def c)
  from assms(2) [unfolded c] have "walk_goes T (feed_trees (cs @ [c, c'])) m (snd (snd c')) (fst (snd c'))"
  proof cases
    case (others nd')
    then show ?thesis using walk_goes_grow [OF g, of "feed_trees (cs @ [c, c'])"] by (auto simp: c)
  next
    case (feed now ok f' ps)
    have "walking f" using True by (simp add: c)
    from walk_goes_step [OF g this feed(3) _ feed(2)] show ?thesis using feed(1) by (simp add: c insert_absorb)
  qed
  then show ?thesis by (simp add: feed_at_def)
qed (use assms(1) in \<open>auto simp: feed_at_def butlast_append\<close>)

interpretation feed: run_invariant "feeding x T" "feed_at T m" for x T m
  by unfold_locales (rule feed_at_step)

section \<open>What an empty replica has then\<close>

lemma streamed_keys: "walked T b P M vs \<Longrightarrow> distinct (map kv_key (streamed vs))"
proof -
  assume w: "walked T b P M vs"
  have "map kv_key (streamed vs) = map fst (filter (\<lambda>(k, r, now). live now r) vs)"
    by (auto simp: streamed_def answer_def)
  moreover have "distinct (map fst vs)" using walked_sorted [OF w] by (simp add: strict_sorted_iff)
  ultimately show ?thesis by (simp add: distinct_map_filter)
qed

lemma streamed_binding:
  assumes "walked T b P M vs"
  shows "map_of (map binding (streamed vs)) k = Some (v, ex) \<longleftrightarrow>
    (\<exists>r now. (k, r, now) \<in> set vs \<and> live now r \<and> v = rec_value r \<and> ex = rec_expires r)"
proof -
  have "distinct (map fst (map binding (streamed vs)))"
    using streamed_keys [OF assms] by (simp add: binding_def comp_def)
  then show ?thesis by (force simp: map_of_eq_Some_iff streamed_def binding_def answer_def)
qed

lemma installs_chunks:
  assumes "chunked m out recs" "distinct (map kv_key recs)"
  shows "\<exists>r'. replica_run x (map (Pair e) out) r = Some (True, r') \<and> abs_store r' = abs_store r ++ map_of (map binding recs) \<and>
    sv_global_version r' = (if out = [] then sv_global_version r else m)"
proof -
  obtain cs where "out = map (\<lambda>c. Snapshot c m) cs" "concat cs = recs" using assms(1) by (auto simp: chunked_def)
  then show ?thesis
    using replica_run_snapshots [of x e m cs r] assms(2) by (auto simp: install_chunks abs_store_installs)
qed

text \<open>
  C6: A snapshot taken beside writers. However the walk of a \<open>sync\<close> call over the tree is interleaved
  with what else the leader does, it sends chunks of at most 100 records under the version it has
  read before. An empty replica that takes them has only records that were in the leader's tree, live,
  at some point of the walk, and every record that was there and live throughout; and it has the
  leader's version of before the walk, unless nothing was live.
\<close>

theorem snapshot_beside_writers:
  assumes "successively (feeding x T) ((nd, FeedWalk m (From []) [], []) # cs)"
    and "last ((nd, FeedWalk m (From []) [], []) # cs) = (nd', FeedSubscribe m', out)"
    and "\<forall>(d, f, sent) \<in> set (butlast ((nd, FeedWalk m (From []) [], []) # cs)). walking f"
    and "sv_tree r = fmempty"
  shows "\<exists>r'. replica_run x (map (Pair e) out) r = Some (True, r') \<and> m' = m \<and>
    (\<forall>p \<in> set out. \<exists>recs. p = Snapshot recs m \<and> length recs \<le> 100) \<and>
    sv_global_version r' = (if out = [] then sv_global_version r else m) \<and>
    (\<forall>k v ex. abs_store r' k = Some (v, ex) \<longrightarrow>
      (\<exists>d \<in> set (nd # map fst cs). \<exists>rec. \<exists>now \<in> T.
         fmlookup (sv_tree (nd_server d)) k = Some rec \<and> live now rec \<and> v = rec_value rec \<and> ex = rec_expires rec)) \<and>
    (\<forall>k rec. (\<forall>d \<in> set (nd # map fst cs). fmlookup (sv_tree (nd_server d)) k = Some rec) \<and> (\<forall>now \<in> T. live now rec) \<longrightarrow>
      abs_store r' k = Some (rec_value rec, rec_expires rec))"
proof -
  let ?cs = "(nd, FeedWalk m (From []) [], []) # cs"
  have "feed_at T m [(nd, FeedWalk m (From []) [], [])]"
    using walked_start [of T "Prefixed []" "{sv_tree (nd_server nd)}"] by (auto simp: feed_at_def streamed_def)
  from feed.run [OF assms(1) this] have "walk_goes T (feed_trees ?cs) m out (FeedSubscribe m')"
    using assms(2,3) by (auto simp: feed_at_def)
  then obtain vs where m: "m' = m" and w: "walked T (Prefixed []) (\<lambda>_. True) (feed_trees ?cs) vs" and c: "chunked m out (streamed vs)"
    by auto
  have t: "t \<in> feed_trees ?cs \<longleftrightarrow> (\<exists>d \<in> set (nd # map fst cs). t = sv_tree (nd_server d))" for t
    by (auto simp: feed_trees_def trees_def)
  obtain r' where r': "replica_run x (map (Pair e) out) r = Some (True, r')"
    "abs_store r' = abs_store r ++ map_of (map binding (streamed vs))"
    "sv_global_version r' = (if out = [] then sv_global_version r else m)"
    using installs_chunks [OF c streamed_keys [OF w]] by blast
  have s: "abs_store r' = map_of (map binding (streamed vs))"
    using r'(2) assms(4) by (simp add: abs_store_def fun_eq_iff map_add_def split: option.split)
  have "\<exists>d \<in> set (nd # map fst cs). \<exists>rec. \<exists>now \<in> T.
      fmlookup (sv_tree (nd_server d)) k = Some rec \<and> live now rec \<and> v = rec_value rec \<and> ex = rec_expires rec"
    if "abs_store r' k = Some (v, ex)" for k v ex
    using that walked_visited [OF w] t unfolding s streamed_binding [OF w] by metis
  moreover have "abs_store r' k = Some (rec_value rec, rec_expires rec)"
    if "\<forall>d \<in> set (nd # map fst cs). fmlookup (sv_tree (nd_server d)) k = Some rec" "\<forall>now \<in> T. live now rec" for k rec
    using walked_all [OF w, of k rec] that t unfolding s streamed_binding [OF w] by (metis in_bounds_everything)
  moreover have "\<forall>p \<in> set out. \<exists>recs. p = Snapshot recs m \<and> length recs \<le> 100" using c by (auto simp: chunked_def)
  ultimately show ?thesis using r'(1,3) m by blast
qed

section \<open>An instance\<close>

theorem snapshot_beside_writers_witness:
  "\<exists>cs out r'. successively (feeding plain_ext {Some 3}) cs \<and> snd (last cs) = (FeedSubscribe 1, out) \<and>
     nd_tasks (fst (hd cs)) \<noteq> nd_tasks (fst (last cs)) \<and>
     replica_run plain_ext (map (Pair (at 4)) out) (blank_server\<lparr>sv_is_replica := True\<rparr>) = Some (True, r') \<and>
     abs_store r' ''a'' = Some ([65], None)"
proof -
  let ?r = "\<lparr>rec_value = [65], rec_expires = None, rec_version = 1\<rparr>"
  let ?e = "GetEnd (Inl (NotFound ''Key not found''))"
  define sv where "sv = one_record None"
  define nd where "nd = get_node GetLookup SaveIdle EvictIdle sv"
  define nd' where "nd' = get_node ?e SaveIdle EvictIdle sv"
  define rec where "rec = answer (''a'', ?r)"
  define cs where "cs = [(nd, FeedWalk 1 (After ''a'') [rec], []), (nd', FeedWalk 1 (After ''a'') [rec], []),
    (nd', FeedSubscribe 1, [Snapshot [rec] 1])]"
  have t: "sv_tree sv = fmupd ''a'' ?r fmempty" by (simp add: sv_def)
  have n: "sv_tree (nd_server nd) = fmupd ''a'' ?r fmempty" "sv_tree (nd_server nd') = fmupd ''a'' ?r fmempty"
    by (simp_all add: nd_def nd'_def t)
  have "node_step plain_ext {Some 3} nd nd'" unfolding nd_def nd'_def by (rule get_node_steps(1)) (simp add: t)
  then have g: "feeding plain_ext {Some 3} (nd, f, out) (nd', f, out)" for f out by (rule feeding.others)
  have f: "feeder_step plain_ext True (Some 3) f (nd_server d) = Some (f', ps) \<Longrightarrow>
      feeding plain_ext {Some 3} (d, f, out) (d, f', out @ ps)" for d f f' ps out
    by (rule feeding.feed) simp_all
  have s: "feeder_step plain_ext True (Some 3) (FeedWalk 1 (From []) []) (nd_server nd) = Some (FeedWalk 1 (After ''a'') [rec], [])"
    "feeder_step plain_ext True (Some 3) (FeedWalk 1 (After ''a'') [rec]) (nd_server nd') = Some (FeedSubscribe 1, [Snapshot [rec] 1])"
    by (simp_all add: n one_entry is_expired_def rec_def sent_def)
  have run: "successively (feeding plain_ext {Some 3}) ((nd, FeedWalk 1 (From []) [], []) # cs)"
    using f [OF s(1), of "[]"] g f [OF s(2), of "[]"] by (simp add: cs_def)
  have l: "last ((nd, FeedWalk 1 (From []) [], []) # cs) = (nd', FeedSubscribe 1, [Snapshot [rec] 1])" by (simp add: cs_def)
  have w: "\<forall>(d, f, sent) \<in> set (butlast ((nd, FeedWalk 1 (From []) [], []) # cs)). walking f" by (simp add: cs_def walking_def)
  have "sv_tree (blank_server\<lparr>sv_is_replica := True\<rparr>) = fmempty" by (simp add: blank_server_def)
  from snapshot_beside_writers [OF run l w this, of "at 4"] obtain r' where
    "replica_run plain_ext (map (Pair (at 4)) [Snapshot [rec] 1]) (blank_server\<lparr>sv_is_replica := True\<rparr>) = Some (True, r')"
    and a: "\<And>k rec. (\<forall>d \<in> set (nd # map fst cs). fmlookup (sv_tree (nd_server d)) k = Some rec) \<and> (\<forall>now \<in> {Some 3}. live now rec) \<Longrightarrow>
      abs_store r' k = Some (rec_value rec, rec_expires rec)"
    by blast
  moreover have "abs_store r' ''a'' = Some ([65], None)"
    using a [of "''a''" ?r] by (simp add: cs_def n live_def is_expired_def)
  moreover have "nd_tasks nd \<noteq> nd_tasks nd'" by (simp add: nd_def nd'_def get_node_def)
  ultimately show ?thesis
    using run l by (intro exI [of _ "(nd, FeedWalk 1 (From []) [], []) # cs"] exI [of _ "[Snapshot [rec] 1]"] exI [of _ r'])
      (simp add: cs_def)
qed

end
