(* ===== verification/Kindctl.thy ===== *)
theory Kindctl
  imports Scan_Properties Durability_Properties
begin

text \<open>
  The command-line client (src/bin/kindctl.rs): the request each command makes, what it prints and
  how it exits. Parsing the arguments is the work of a library, so a command is a value of
  \<open>commands\<close>; a connection that is up delivers the request to the handler and its answer back.
\<close>

section \<open>Commands\<close>

datatype commands =
  CmdPut str str "u64 option"
| CmdGet str
| CmdDel str
| CmdScan str str
| CmdQuery str str str u32 u32
| CmdCas str str str "u64 option"

text \<open>
  The library functions for printing: \<open>String::from_utf8_lossy\<close>, \<open>serde_json::from_str::<Value>\<close> and
  \<open>serde_json::to_string_pretty\<close>.
\<close>

record 'n cli = "'n ext" +
  from_utf8_lossy :: "bytes \<Rightarrow> str"
  json_from_str :: "str \<Rightarrow> 'n json option"
  json_pretty :: "'n json \<Rightarrow> str option"

text \<open>\<open>str::as_bytes\<close>: the UTF-8 encoding, for the code points up to U+00FF.\<close>

definition utf8_char :: "char \<Rightarrow> bytes" where
  "utf8_char c = (let n = code c in
     if n < 128 then [word_of_nat n] else [word_of_nat (192 + n div 64), word_of_nat (128 + n mod 64)])"

definition as_bytes :: "str \<Rightarrow> bytes" where
  "as_bytes s = concat (map utf8_char s)"

section \<open>Output\<close>

text \<open>How the process ends: normally, with \<open>exit(1)\<close>, or by an error that \<open>main\<close> returns.\<close>

datatype abort = Rpc status | Unprintable

datatype exit = Success | Failure | Aborted abort

record console =
  co_out :: str
  co_err :: str
  co_exit :: exit

definition line :: "str \<Rightarrow> str" where
  "line s = s @ [newline]"

definition quoted :: "str \<Rightarrow> str" where
  "quoted s = CHR 0x22 # s @ [CHR 0x22]"

definition says :: "str \<Rightarrow> console" where
  "says s = \<lparr>co_out = s, co_err = [], co_exit = Success\<rparr>"

definition complains :: "str \<Rightarrow> console" where
  "complains s = \<lparr>co_out = [], co_err = s, co_exit = Failure\<rparr>"

definition aborts :: "str \<Rightarrow> abort \<Rightarrow> console" where
  "aborts s a = \<lparr>co_out = s, co_err = [], co_exit = Aborted a\<rparr>"

section \<open>What each command makes of the answer\<close>

definition put_output :: "str \<Rightarrow> status + bool \<Rightarrow> console" where
  "put_output key response =
     (case response of
        Inl st \<Rightarrow> aborts [] (Rpc st)
      | Inr success \<Rightarrow>
          if success then says (line (''stored '' @ quoted key))
          else complains (line (''failed to store '' @ quoted key)))"

text \<open>A value that parses as JSON is printed with indentation, any other as it is.\<close>

definition json_text :: "('n, 'z) cli_scheme \<Rightarrow> str \<Rightarrow> str option" where
  "json_text x val = (case json_from_str x val of Some json \<Rightarrow> json_pretty x json | None \<Rightarrow> Some val)"

definition get_output :: "('n, 'z) cli_scheme \<Rightarrow> str \<Rightarrow> status + kv_record \<Rightarrow> console" where
  "get_output x key response =
     (case response of
        Inr rec \<Rightarrow>
          (case json_text x (from_utf8_lossy x (kv_value rec)) of
             Some t \<Rightarrow> says (line t @ (case kv_expires rec of
                 Some exp \<Rightarrow> line (newline # ''expires at: '' @ show_nat (unat exp) @ '' ms (unix epoch)'')
               | None \<Rightarrow> []))
           | None \<Rightarrow> aborts [] Unprintable)
      | Inl st \<Rightarrow>
          (case st of
             NotFound _ \<Rightarrow> complains (line (''key not found: '' @ quoted key))
           | _ \<Rightarrow> aborts [] (Rpc st)))"

definition del_output :: "str \<Rightarrow> status + bool \<Rightarrow> console" where
  "del_output key response =
     (case response of
        Inl st \<Rightarrow> aborts [] (Rpc st)
      | Inr success \<Rightarrow>
          if success then says (line (''deleted '' @ quoted key))
          else complains (line (''key not found: '' @ quoted key)))"

text \<open>The loop over the records: what it prints, and whether it comes to its end.\<close>

fun records_text :: "('n, 'z) cli_scheme \<Rightarrow> kv_record list \<Rightarrow> str \<times> bool" where
  "records_text x [] = ([], True)"
| "records_text x (rec # recs) =
     (let key_line = line (''key: '' @ kv_key rec) in
      case json_text x (from_utf8_lossy x (kv_value rec)) of
        None \<Rightarrow> (key_line, False)
      | Some t \<Rightarrow>
          (let (rest, ok) = records_text x recs in (key_line @ line (''val: '' @ t) @ line [] @ rest, ok)))"

definition list_output :: "('n, 'z) cli_scheme \<Rightarrow> str \<Rightarrow> str \<Rightarrow> status + kv_record list \<Rightarrow> console" where
  "list_output x none_text header_text response =
     (case response of
        Inl st \<Rightarrow> aborts [] (Rpc st)
      | Inr recs \<Rightarrow>
          if recs = [] then says (line none_text)
          else
            (let header = line (show_nat (length recs) @ header_text @ [newline]);
                 (body, ok) = records_text x recs
             in if ok then says (header @ body) else aborts (header @ body) Unprintable))"

definition scan_output :: "('n, 'z) cli_scheme \<Rightarrow> str \<Rightarrow> str \<Rightarrow> status + kv_record list \<Rightarrow> console" where
  "scan_output x lo hi =
     list_output x (''no records found in range '' @ quoted lo @ '' ..= '' @ quoted hi)
       ('' record(s) in ['' @ quoted lo @ '' ..= '' @ quoted hi @ '']:'')"

definition query_output ::
  "('n, 'z) cli_scheme \<Rightarrow> str \<Rightarrow> str \<Rightarrow> str \<Rightarrow> status + kv_record list \<Rightarrow> console" where
  "query_output x schema_type field val =
     list_output x (''no records found where '' @ schema_type @ ''.'' @ field @ '' = '' @ quoted val)
       ('' record(s) where '' @ schema_type @ ''.'' @ field @ '' = '' @ quoted val @ '':'')"

definition cas_output :: "str \<Rightarrow> status + bool \<Rightarrow> console" where
  "cas_output key response =
     (case response of
        Inl st \<Rightarrow> aborts [] (Rpc st)
      | Inr success \<Rightarrow>
          if success then says (line (''cas succeeded: '' @ quoted key @ '' updated''))
          else complains
            (line (''cas failed: current value of '' @ quoted key @ '' did not match expected'') @
             line (''hint: run '' @ [CHR 0x60] @ ''kindctl get '' @ key @ [CHR 0x60] @ '' to see the current value'')))"

section \<open>Running a command\<close>

definition shows_as :: "('r \<Rightarrow> console) \<Rightarrow> ('r \<times> server) option \<Rightarrow> (console \<times> server) option" where
  "shows_as f h = map_option (\<lambda>(r, s). (f r, s)) h"

fun kindctl :: "('n, 'z) cli_scheme \<Rightarrow> env \<Rightarrow> commands \<Rightarrow> server \<Rightarrow> (console \<times> server) option" where
  "kindctl x e (CmdPut key val ttl) sv = shows_as (put_output key) (put x e key (as_bytes val) ttl sv)"
| "kindctl x e (CmdGet key) sv = shows_as (get_output x key) (get x e key sv)"
| "kindctl x e (CmdDel key) sv = shows_as (del_output key) (delete x e key sv)"
| "kindctl x e (CmdScan lo hi) sv = shows_as (scan_output x lo hi) (range_scan x e lo hi [] sv)"
| "kindctl x e (CmdQuery schema_type field val limit offset) sv =
     shows_as (query_output x schema_type field val) (query e schema_type field val (Some limit) (Some offset) sv)"
| "kindctl x e (CmdCas key expected new_val ttl) sv =
     shows_as (cas_output key) (cas x e key (as_bytes expected) (as_bytes new_val) ttl sv)"

text \<open>The address, and what is printed when no connection can be made.\<close>

definition endpoint :: "str \<Rightarrow> str" where
  "endpoint host = ''http://'' @ host"

definition connect_failed :: "str \<Rightarrow> str \<Rightarrow> str" where
  "connect_failed host cause =
     line (''Could not connect to Kind DB at '' @ [CHR 0x27] @ host @ [CHR 0x27] @ '': '' @ cause) @
     line ''Is the server running? Try: docker run -d -p 50051:50051 nks01x/kind-db:latest''"

section \<open>Properties\<close>

text \<open>\<open>from_utf8_lossy\<close> gives back a string from its bytes.\<close>

definition lossy_ok :: "('n, 'z) cli_scheme \<Rightarrow> bool" where
  "lossy_ok x \<longleftrightarrow> (\<forall>s. from_utf8_lossy x (as_bytes s) = s)"

lemma reply_with_Done: "reply_with Done h = Some (r, s) \<longleftrightarrow>
    (case r of Done b \<Rightarrow> h = Some (Inr b, s) | Failed st \<Rightarrow> h = Some (Inl st, s) | Found _ \<Rightarrow> False)"
  by (cases h; cases r) (auto simp: reply_with_def split: sum.splits)

lemma reply_with_Found: "reply_with Found h = Some (r, s) \<longleftrightarrow>
    (case r of Found b \<Rightarrow> h = Some (Inr b, s) | Failed st \<Rightarrow> h = Some (Inl st, s) | Done _ \<Rightarrow> False)"
  by (cases h; cases r) (auto simp: reply_with_def split: sum.splits)

text \<open>
  What is put on the command line is what get prints. On a leader that serves, \<open>kindctl put\<close>
  without a time to live confirms the key, and \<open>kindctl get\<close> of the same key then prints the value,
  reformatted if it is JSON, with nothing on the error output, and exits normally.
\<close>

theorem ctl_put_get:
  assumes "serving UNIV sv" "lossy_ok x" "json_text x val = Some t"
  shows "\<exists>sv1 sv2. kindctl x e (CmdPut key val None) sv = Some (says (line (''stored '' @ quoted key)), sv1) \<and>
    kindctl x e' (CmdGet key) sv1 = Some (says (line t), sv2)"
proof -
  obtain sv1 where p: "serve x e (ReqPut key (as_bytes val) None) sv = Some (Done True, sv1)" "serving UNIV sv1"
    "abs_store sv1 = (abs_store sv)(key \<mapsto> (as_bytes val, None))"
    using serve_refines [OF assms(1), where req = "ReqPut key (as_bytes val) None" and e = e and x = x] by auto
  obtain sv2 where g: "serve x e' (ReqGet key) sv1 = Some (Found \<lparr>kv_key = key, kv_value = as_bytes val, kv_expires = None\<rparr>, sv2)"
    using serve_refines [OF p(2), where req = "ReqGet key" and e = e' and x = x] p(3) by auto
  have "put x e key (as_bytes val) None sv = Some (Inr True, sv1)"
    using p(1) by (simp add: reply_with_Done)
  moreover have "get x e' key sv1 = Some (Inr \<lparr>kv_key = key, kv_value = as_bytes val, kv_expires = None\<rparr>, sv2)"
    using g by (simp add: reply_with_Found)
  ultimately show ?thesis
    using assms(2,3) by (simp add: shows_as_def put_output_def get_output_def lossy_ok_def)
qed

text \<open>
  The exit status tells the outcome. On a leader that serves, \<open>kindctl del\<close> exits normally if the
  key was there and with status 1 otherwise; \<open>kindctl cas\<close> if the value was the expected one, an absent
  or expired record counting as empty; \<open>kindctl get\<close> if the record is there and has not expired, unless
  its JSON cannot be printed. None of them panics.
\<close>

theorem ctl_exit_codes:
  assumes "serving P sv"
  shows "map_option (co_exit \<circ> fst) (kindctl x e (CmdDel key) sv) =
      Some (if abs_store sv key = None then Failure else Success) \<and>
    map_option (co_exit \<circ> fst) (kindctl x e (CmdCas key expected new_val None) sv) =
      Some (if (case abs_store sv key of
                  None \<Rightarrow> as_bytes expected = []
                | Some (v, ex) \<Rightarrow> if is_expired (en_now e) ex then as_bytes expected = [] else v = as_bytes expected)
            then Success else Failure) \<and>
    map_option (co_exit \<circ> fst) (kindctl x e (CmdGet key) sv) =
      Some (case abs_store sv key of
              None \<Rightarrow> Failure
            | Some (v, ex) \<Rightarrow>
                if is_expired (en_now e) ex then Failure
                else if json_text x (from_utf8_lossy x v) = None then Aborted Unprintable else Success)"
proof (intro conjI)
  note outputs = shows_as_def del_output_def cas_output_def get_output_def says_def complains_def aborts_def
  show "map_option (co_exit \<circ> fst) (kindctl x e (CmdDel key) sv) =
      Some (if abs_store sv key = None then Failure else Success)"
    using serve_refines [OF assms, where req = "ReqDelete key" and e = e and x = x]
    by (auto simp: reply_with_Done outputs)
  show "map_option (co_exit \<circ> fst) (kindctl x e (CmdCas key expected new_val None) sv) =
      Some (if (case abs_store sv key of
                  None \<Rightarrow> as_bytes expected = []
                | Some (v, ex) \<Rightarrow> if is_expired (en_now e) ex then as_bytes expected = [] else v = as_bytes expected)
            then Success else Failure)"
    using serve_refines [OF assms, where req = "ReqCas key (as_bytes expected) (as_bytes new_val) None" and e = e and x = x]
    by (auto simp: reply_with_Done outputs split: option.splits if_splits)
  show "map_option (co_exit \<circ> fst) (kindctl x e (CmdGet key) sv) =
      Some (case abs_store sv key of
              None \<Rightarrow> Failure
            | Some (v, ex) \<Rightarrow>
                if is_expired (en_now e) ex then Failure
                else if json_text x (from_utf8_lossy x v) = None then Aborted Unprintable else Success)"
    using serve_refines [OF assms, where req = "ReqGet key" and e = e and x = x]
    by (auto simp: reply_with_Found outputs split: option.splits if_splits)
qed

section \<open>Instances\<close>

text \<open>A client that decodes by the first byte of each code point, and knows no JSON.\<close>

fun decode :: "bytes \<Rightarrow> str" where
  "decode [] = []"
| "decode (b # bs) =
     (if unat b < 128 then char_of (unat b) # decode bs
      else case bs of
             [] \<Rightarrow> []
           | b2 # bs2 \<Rightarrow> char_of ((unat b - 192) * 64 + (unat b2 - 128)) # decode bs2)"

lemma decode_char: "decode (utf8_char c @ bs) = c # decode bs"
proof -
  define n where "n = code c"
  have n: "n < 256" and c: "char_of n = c"
    unfolding n_def code_def using of_char_mod_256 [of c, where ?'a = nat] by (metis mod_less_divisor zero_less_numeral, simp)
  show ?thesis
  proof (cases "n < 128")
    case True
    then have "unat (word_of_nat n :: u8) = n" by (simp add: unat_of_nat)
    then show ?thesis using True c by (simp add: utf8_char_def n_def [symmetric] Let_def)
  next
    case False
    have "unat (word_of_nat (192 + n div 64) :: u8) = 192 + n div 64" "unat (word_of_nat (128 + n mod 64) :: u8) = 128 + n mod 64"
      using n by (simp_all only: unat_of_nat, simp_all)
    moreover have "n div 64 * 64 + n mod 64 = n" by simp
    ultimately show ?thesis using False c by (simp only: utf8_char_def n_def [symmetric] Let_def if_False append.simps decode.simps) simp
  qed
qed

lemma decode_bytes: "decode (as_bytes s) = s"
  by (induction s) (simp_all add: as_bytes_def decode_char)

definition plain_cli :: "nat cli" where
  "plain_cli = ext.extend plain_ext \<lparr>from_utf8_lossy = decode, json_from_str = \<lambda>_. None, json_pretty = \<lambda>_. None\<rparr>"

lemma plain_cli_lossy: "lossy_ok plain_cli" "json_text plain_cli s = Some s"
  by (simp_all add: lossy_ok_def plain_cli_def ext.defs json_text_def decode_bytes)

theorem ctl_put_get_witness:
  "\<exists>sv1 sv2. kindctl plain_cli (at 1) (CmdPut ''user:1'' ''Zo'' None) blank_server = Some (says (line (''stored '' @ quoted ''user:1'')), sv1) \<and>
     kindctl plain_cli (at 2) (CmdGet ''user:1'') sv1 = Some (says (line ''Zo''), sv2)"
  using ctl_put_get [OF blank_serving(1) plain_cli_lossy(1) plain_cli_lossy(2)] by blast

theorem ctl_exit_codes_witness:
  "map_option (co_exit \<circ> fst) (kindctl plain_cli (at 1) (CmdDel ''a'') blank_server) = Some Failure \<and>
   map_option (co_exit \<circ> fst) (kindctl plain_cli (at 1) (CmdCas ''a'' [] ''v'' None) blank_server) = Some Success"
  using ctl_exit_codes [OF blank_serving(1) [of UNIV], of plain_cli "at 1" "''a''" "[]" "''v''"]
  by (simp add: blank_serving(2) as_bytes_def)

end
