(* ===== verification/End_To_End.thy ===== *)
theory End_To_End
  imports Kindctl Disjoint_Properties
begin

text \<open>
  From the client's command line through a handler, the log, the saves and a restart, back to the
  command line: what a client was told is stored is there after a crash.
\<close>

section \<open>Actions that spare a key\<close>

fun spares :: "str \<Rightarrow> action \<Rightarrow> bool" where
  "spares k (Request e req) \<longleftrightarrow> (\<exists>k'. req = ReqGet k') \<or> key_of req \<noteq> k"
| "spares k (Commit e it tx) \<longleftrightarrow> fmlookup (tx_write_set tx) k = None"
| "spares k (Sweep now) \<longleftrightarrow> True"
| "spares k (Save now se) \<longleftrightarrow> True"

lemma spec_step_spares:
  assumes "spec_step e req m = Some (r, m')" "(\<exists>k'. req = ReqGet k') \<or> key_of req \<noteq> k" "eternal m"
  shows "m' k = m k"
proof (cases "\<exists>k'. req = ReqGet k'")
  case True
  then obtain k' where "req = ReqGet k'" by blast
  moreover have "\<not> is_expired now ex" if "m k' = Some (v, ex)" for now v ex
  proof -
    have "ex = None" using assms(3) that unfolding eternal_def by blast
    then show ?thesis by (simp add: is_expired_def)
  qed
  ultimately show ?thesis using assms(1) by (auto split: option.splits if_splits)
next
  case False
  then show ?thesis using assms(1,2) spec_step_local [of e req m] by auto
qed

lemma commit_spares:
  assumes "cache_ok sv" "\<not> sv_is_replica sv" "\<not> sv_wal_poisoned sv" "fmlookup (tx_write_set tx) k = None"
    and "commit x e it tx sv = Some (r, sv')"
  shows "abs_store sv' k = abs_store sv k"
proof (cases "tx_conflicts (tx_snapshot_version tx) (entries it (tx_write_set tx)) sv")
  case True
  then show ?thesis using assms(2,3,5) by (simp add: commit_def)
next
  case False
  have "fmlookup (sv_tree sv') = written (sv_global_version sv + 1) (fmlookup (tx_write_set tx)) (fmlookup (sv_tree sv))"
    using commit_spec [OF assms(1-3) False, of x e] assms(5) by auto
  then show ?thesis using assms(4) by (simp add: abs_store_def written_def)
qed

lemma perform_spares:
  assumes "wal_codec_ok x" "snap_codec_ok x" "durable x sv" "action_ok a" "spares k a" "perform x a sv = Some sv'"
  shows "abs_store sv' k = abs_store sv k"
proof -
  have s: "serving UNIV sv" "eternal (abs_store sv)" using assms(3) by (simp_all add: durable_def)
  show ?thesis
  proof (cases a)
    case (Request e req)
    then have "no_ttl req" using assms(4) by simp
    then obtain r m' where m: "spec_step e req (abs_store sv) = Some (r, m')"
      using spec_step_no_ttl by blast
    have u: "separate UNIV req" using \<open>no_ttl req\<close> by (cases req) auto
    then have "abs_store sv' = m'"
      using serve_refines [OF s(1) u, where e = e and x = x] m assms(6) Request by (auto simp: perform_def)
    then show ?thesis using spec_step_spares [OF m _ s(2)] assms(5) Request by simp
  next
    case (Commit e it tx)
    then show ?thesis
      using assms(5,6) commit_spares [of sv tx k x e it] s(1) by (auto simp: perform_def serving_def)
  next
    case (Sweep now)
    then show ?thesis using sweep_durable [OF assms(3), of x now] assms(6) by (simp add: perform_def)
  next
    case (Save now se)
    then show ?thesis using save_durable [OF assms(2,3), of se now] assms(4,6) by (auto simp: perform_def)
  qed
qed

lemma perform_all_spares:
  assumes "wal_codec_ok x" "snap_codec_ok x"
  shows "durable x sv \<Longrightarrow> list_all action_ok as \<Longrightarrow> list_all (spares k) as \<Longrightarrow>
    \<exists>sv'. perform_all x as sv = Some sv' \<and> durable x sv' \<and> abs_store sv' k = abs_store sv k"
proof (induction as arbitrary: sv)
  case (Cons a as)
  obtain sv1 where s: "perform x a sv = Some sv1" "durable x sv1"
    using perform_durable [OF assms Cons.prems(1), of a] Cons.prems(2) by auto
  then have "abs_store sv1 k = abs_store sv k"
    using perform_spares [OF assms Cons.prems(1) _ _ s(1)] Cons.prems(2,3) by simp
  then show ?case using Cons.IH [OF s(2)] Cons.prems(2,3) s(1) by simp
qed simp

section \<open>Across a crash\<close>

text \<open>A leader restarted from the files of a durable server serves what that server held.\<close>

lemma restart_serving:
  assumes "durable x sv"
  shows "\<exists>sv'. server_new x now creatable (sv_snapshot_path sv) schema_path (sv_wal_path sv) False (sv_disk sv) = Some sv' \<and>
    serving UNIV sv' \<and> abs_store sv' = abs_store sv"
proof -
  obtain sv' where n: "server_new x now creatable (sv_snapshot_path sv) schema_path (sv_wal_path sv) False (sv_disk sv) = Some sv'"
    using server_new_total by blast
  obtain w d where wd: "(case sv_wal_path sv of Some path \<Rightarrow> wal_new creatable path (sv_disk sv) | None \<Rightarrow> (None, sv_disk sv)) = (w, d)"
    by (cases "case sv_wal_path sv of Some path \<Rightarrow> wal_new creatable path (sv_disk sv) | None \<Rightarrow> (None, sv_disk sv)")
  have t: "sv_tree sv' = rv_tree (recover x now (load_schema_file (sv_disk sv) schema_path) (sv_snapshot_path sv) (sv_wal_path sv) (sv_disk sv))"
    and c: "sv_cache sv' = fresh_cache" "\<not> sv_is_replica sv'" "\<not> sv_wal_poisoned sv'"
    using n wd by (auto simp: server_new_def lru_new_fresh Let_def)
  have "abs_store sv' = abs_store sv"
    using durable_recovers [OF assms, of now "load_schema_file (sv_disk sv) schema_path"]
    by (simp add: abs_store_def [abs_def] rv_store_def [abs_def] t)
  moreover have "serving UNIV sv'" using c by (simp add: serving_def cache_ok_def)
  ultimately show ?thesis using n by blast
qed

text \<open>
  C3: What the client was told is stored survives a crash. \<open>kindctl put\<close> on a leader whose files are
  good for a restart confirms the key; after any requests, transactions, sweeps and saves that spare
  the key and have no expiry times, whose appends were synced, the machine stops; a leader started
  from the files, at any time and with any schema, answers \<open>kindctl get\<close> of the key with the value.
\<close>

theorem ctl_put_survives:
  assumes "wal_codec_ok x" "snap_codec_ok x" "lossy_ok x" "durable x sv" "en_wal e = Written"
    and "list_all action_ok as" "list_all (spares key) as" "json_text x val = Some t"
  shows "\<exists>sv1 sv2. kindctl x e (CmdPut key val None) sv = Some (says (line (''stored '' @ quoted key)), sv1) \<and>
    perform_all x as sv1 = Some sv2 \<and>
    (\<forall>now creatable schema_path e'. \<exists>sv3 sv4.
       server_new x now creatable (sv_snapshot_path sv2) schema_path (sv_wal_path sv2) False (sv_disk sv2) = Some sv3 \<and>
       kindctl x e' (CmdGet key) sv3 = Some (says (line t), sv4))"
proof -
  let ?put = "ReqPut key (as_bytes val) None"
  have s: "serving UNIV sv" using assms(4) by (simp add: durable_def)
  obtain sv1 where p: "serve x e ?put sv = Some (Done True, sv1)" "abs_store sv1 key = Some (as_bytes val, None)"
    using serve_refines [OF s, where req = ?put and e = e and x = x] by auto
  obtain sv2 where r: "perform_all x as sv1 = Some sv2" "durable x sv2" "abs_store sv2 key = Some (as_bytes val, None)"
    using serve_durable [OF assms(1,4,5), of ?put] p perform_all_spares [OF assms(1,2) _ assms(6,7), of sv1] by auto
  have "\<exists>sv3 sv4. server_new x now creatable (sv_snapshot_path sv2) schema_path (sv_wal_path sv2) False (sv_disk sv2) = Some sv3 \<and>
       kindctl x e' (CmdGet key) sv3 = Some (says (line t), sv4)" for now creatable schema_path e'
  proof -
    obtain sv3 where n: "server_new x now creatable (sv_snapshot_path sv2) schema_path (sv_wal_path sv2) False (sv_disk sv2) = Some sv3"
      "serving UNIV sv3" "abs_store sv3 = abs_store sv2"
      using restart_serving [OF r(2)] by blast
    obtain sv4 where "serve x e' (ReqGet key) sv3 = Some (Found \<lparr>kv_key = key, kv_value = as_bytes val, kv_expires = None\<rparr>, sv4)"
      using serve_refines [OF n(2), where req = "ReqGet key" and e = e' and x = x] n(3) r(3) by auto
    then have "get x e' key sv3 = Some (Inr \<lparr>kv_key = key, kv_value = as_bytes val, kv_expires = None\<rparr>, sv4)"
      by (simp add: reply_with_Found)
    then show ?thesis using n(1) assms(3,8) by (auto simp: shows_as_def get_output_def lossy_ok_def)
  qed
  moreover have "put x e key (as_bytes val) None sv = Some (Inr True, sv1)" using p(1) by (simp add: reply_with_Done)
  ultimately show ?thesis using r(1) by (auto simp: shows_as_def put_output_def)
qed

lemma plain_cli_codecs: "wal_codec_ok plain_cli" "snap_codec_ok plain_cli"
proof -
  show "wal_codec_ok plain_cli" using plain_ext_codec(1) by (simp add: wal_codec_ok_def plain_cli_def ext.defs)
  show "snap_codec_ok plain_cli" using plain_ext_snap by (simp add: snap_codec_ok_def plain_cli_def ext.defs)
qed

theorem ctl_put_survives_witness:
  "\<exists>sv sv1 sv2 sv3 sv4. server_new plain_cli None True (Some ''db'') None (Some ''log'') False files = Some sv \<and>
     kindctl plain_cli (at 1) (CmdPut ''user:1'' ''Zo'' None) sv = Some (says (line (''stored '' @ quoted ''user:1'')), sv1) \<and>
     perform_all plain_cli [Request (at 2) (ReqPut ''user:2'' [1] None),
       Save (Some 3) \<lparr>sn_create_ok = True, sn_flushed = 0, sn_rename_ok = True, sn_truncate_ok = True, sn_drop_ok = True\<rparr>,
       Request (at 4) (ReqDelete ''user:2'')] sv1 = Some sv2 \<and>
     server_new plain_cli (Some 9) True (sv_snapshot_path sv2) None (sv_wal_path sv2) False (sv_disk sv2) = Some sv3 \<and>
     kindctl plain_cli (at 10) (CmdGet ''user:1'') sv3 = Some (says (line ''Zo''), sv4)"
proof -
  let ?as = "[Request (at 2) (ReqPut ''user:2'' [1] None),
       Save (Some 3) \<lparr>sn_create_ok = True, sn_flushed = 0, sn_rename_ok = True, sn_truncate_ok = True, sn_drop_ok = True\<rparr>,
       Request (at 4) (ReqDelete ''user:2'')]"
  obtain sv where sv: "server_new plain_cli None True (Some ''db'') None (Some ''log'') False files = Some sv" "durable plain_cli sv"
    using first_start [of "''db''" "''log''" plain_cli None] by (auto simp: temp_path_def)
  have a: "en_wal (at 1) = Written" "list_all action_ok ?as" "list_all (spares ''user:1'') ?as" by simp_all
  from ctl_put_survives [OF plain_cli_codecs plain_cli_lossy(1) sv(2) a plain_cli_lossy(2)]
  show ?thesis using sv(1) by blast
qed

end
