(* ===== verification/Unit_Tests.thy ===== *)
theory Unit_Tests
  imports Lfu_Cache Fifo_Cache Scan_Properties Recovery
begin

text \<open>
  The unit tests of the program (the \<open>tests\<close> modules of src/cache.rs, src/schema/mod.rs and
  src/server.rs), as predicates on the model, and that the model passes them: whatever the order
  of hash sets and hash maps, and for every JSON codec where the test does not depend on one.
\<close>

section \<open>The caches\<close>

text \<open>A test of a cache: puts, and gets with the answer they are asserted to have.\<close>

datatype ('k, 'v) call = CallPut 'k 'v | AssertGet 'k "'v option"

fun cache_test ::
  "('k \<Rightarrow> 'c \<Rightarrow> ('v option \<times> 'c) option) \<Rightarrow> ('k \<Rightarrow> 'v \<Rightarrow> 'c \<Rightarrow> 'c option) \<Rightarrow> ('k, 'v) call list \<Rightarrow> 'c option \<Rightarrow> bool" where
  "cache_test g p calls None \<longleftrightarrow> False"
| "cache_test g p [] (Some c) \<longleftrightarrow> True"
| "cache_test g p (CallPut k v # calls) (Some c) \<longleftrightarrow> cache_test g p calls (p k v c)"
| "cache_test g p (AssertGet k a # calls) (Some c) \<longleftrightarrow>
     (case g k c of Some (b, c') \<Rightarrow> b = a \<and> cache_test g p calls (Some c') | None \<Rightarrow> False)"

definition capacity_1_calls :: "(int, str) call list" where
  "capacity_1_calls =
     [CallPut 1 ''A'', AssertGet 1 (Some ''A''), CallPut 2 ''B'', AssertGet 1 None, AssertGet 2 (Some ''B'')]"

definition test_lru_cache :: bool where
  "test_lru_cache \<longleftrightarrow> cache_test lru_get lru_put
     [CallPut (1 :: int) ''A'', CallPut 2 ''B'', AssertGet 1 (Some ''A''), CallPut 3 ''C'',
      AssertGet 2 None, AssertGet 3 (Some ''C''), AssertGet 1 (Some ''A'')] (lru_new 2)"

definition test_lru_capacity_1 :: bool where
  "test_lru_capacity_1 \<longleftrightarrow> cache_test lru_get lru_put capacity_1_calls (lru_new 1)"

definition test_lfu_cache :: "int hash_order \<Rightarrow> bool" where
  "test_lfu_cache ord \<longleftrightarrow> cache_test lfu_get (lfu_put ord)
     [CallPut 1 ''A'', CallPut 2 ''B'', AssertGet 1 (Some ''A''), CallPut 3 ''C'',
      AssertGet 2 None, AssertGet 3 (Some ''C''), AssertGet 1 (Some ''A'')] (lfu_new 2)"

definition test_lfu_capacity_1 :: "int hash_order \<Rightarrow> bool" where
  "test_lfu_capacity_1 ord \<longleftrightarrow> cache_test lfu_get (lfu_put ord) capacity_1_calls (lfu_new 1)"

definition test_fifo_cache :: bool where
  "test_fifo_cache \<longleftrightarrow> cache_test fifo_get fifo_put
     [CallPut (1 :: int) ''A'', CallPut 2 ''B'', AssertGet 1 (Some ''A''), CallPut 3 ''C'',
      AssertGet 1 None, AssertGet 2 (Some ''B''), AssertGet 3 (Some ''C'')] (fifo_new 2)"

definition test_fifo_capacity_1 :: bool where
  "test_fifo_capacity_1 \<longleftrightarrow> cache_test fifo_get fifo_put capacity_1_calls (fifo_new 1)"

lemma lru_tests: "test_lru_cache" "test_lru_capacity_1"
  by code_simp+

lemma fifo_tests: "test_fifo_cache" "test_fifo_capacity_1"
  unfolding test_fifo_cache_def test_fifo_capacity_1_def capacity_1_calls_def
  by (simp_all add: fifo_new_def fifo_put_def fifo_get_def fifo_evict.simps fcard.rep_eq)

lemma pick_single: "pick ord {|k|} = k"
  using pick_in [of "{|k|}" ord] by simp

lemma other_of_two: "a \<noteq> b \<Longrightarrow> {|a, b|} |-| {|b|} = {|a|}" "a \<noteq> b \<Longrightarrow> {|a, b|} |-| {|a|} = {|b|}"
  by auto

lemma lfu_tests: "test_lfu_cache ord" "test_lfu_capacity_1 ord"
  unfolding test_lfu_cache_def test_lfu_capacity_1_def capacity_1_calls_def
  by (simp_all add: lfu_new_def lfu_put_def lfu_get_def lfu_evict_def increment_freq_def freq_remove_def freq_insert_def
      Let_def fcard.rep_eq card_insert_if pick_single other_of_two)

section \<open>Schemas\<close>

definition lines_text :: "str list \<Rightarrow> str" where
  "lines_text ls = concat (map (\<lambda>l. l @ [newline]) ls)"

text \<open>The schema texts of the two tests, line by line.\<close>

definition container_sdl :: str where
  "container_sdl = lines_text
     [[],
      ''            enum ContainerStatus {'',
      ''                Running, Unhealthy, Draining, Stopped'',
      ''            }'',
      [],
      ''            type ContainerRecord {'',
      ''                id: String,'',
      ''                port: U16,'',
      ''                status: ContainerStatus'',
      ''            }''] @ ''        ''"

definition user_sdl :: str where
  "user_sdl = lines_text
     [[],
      ''            type User {'',
      ''                id: String,'',
      ''                friends: [String],'',
      ''                scores: [[U32]]'',
      ''            }''] @ ''        ''"

fun is_invalid_enum_variant :: "validation_error + unit \<Rightarrow> bool" where
  "is_invalid_enum_variant (Inl (InvalidEnumVariant _ _)) \<longleftrightarrow> True"
| "is_invalid_enum_variant _ \<longleftrightarrow> False"

fun is_field_missing :: "validation_error + unit \<Rightarrow> bool" where
  "is_field_missing (Inl (FieldMissing _)) \<longleftrightarrow> True"
| "is_field_missing _ \<longleftrightarrow> False"

fun is_invalid_type :: "validation_error + unit \<Rightarrow> bool" where
  "is_invalid_type (Inl (InvalidType _ _)) \<longleftrightarrow> True"
| "is_invalid_type _ \<longleftrightarrow> False"

text \<open>\<open>num\<close> makes the JSON number of an integer literal.\<close>

definition test_ksl_parsing_and_validation :: "('n, 'z) serde_scheme \<Rightarrow> (nat \<Rightarrow> 'n) \<Rightarrow> bool" where
  "test_ksl_parsing_and_validation x num \<longleftrightarrow>
     (let (loaded, registry) = load_schema container_sdl registry_new;
          with_status = (\<lambda>s. JObject [(''id'', JString ''abc-123''), (''port'', JNumber (num 8080)), (''status'', JString s)])
      in loaded = Inr () \<and>
         fmlookup (reg_types registry) ''ContainerRecord'' \<noteq> None \<and>
         fmlookup (reg_enums registry) ''ContainerStatus'' \<noteq> None \<and>
         validate x registry ''ContainerRecord'' (with_status ''Running'') = Inr () \<and>
         is_invalid_enum_variant (validate x registry ''ContainerRecord'' (with_status ''Crashed'')) \<and>
         is_field_missing (validate x registry ''ContainerRecord''
           (JObject [(''id'', JString ''abc-123''), (''status'', JString ''Running'')])) \<and>
         is_invalid_type (validate x registry ''ContainerRecord''
           (JObject [(''id'', JString ''abc-123''), (''port'', JString ''8080''), (''status'', JString ''Running'')])))"

definition test_ksl_array_support :: "('n, 'z) serde_scheme \<Rightarrow> (nat \<Rightarrow> 'n) \<Rightarrow> bool" where
  "test_ksl_array_support x num \<longleftrightarrow>
     (let (loaded, registry) = load_schema user_sdl registry_new;
          scores = JArray [JArray [JNumber (num 10), JNumber (num 20)], JArray [JNumber (num 30)]];
          with_friends = (\<lambda>friends. JObject [(''id'', JString ''u1''), (''friends'', friends), (''scores'', scores)])
      in loaded = Inr () \<and>
         fmlookup (reg_types registry) ''User'' \<noteq> None \<and>
         validate x registry ''User'' (with_friends (JArray [JString ''alice'', JString ''bob''])) = Inr () \<and>
         is_invalid_type (validate x registry ''User'' (with_friends (JArray [JString ''alice'', JNumber (num 123)]))) \<and>
         is_invalid_type (validate x registry ''User'' (with_friends (JString ''alice''))))"

lemma parse_container_sdl:
  "parse_schema container_sdl = Inr
     [EnumNode \<lparr>ed_name = ''ContainerStatus'', ed_variants = [''Running'', ''Unhealthy'', ''Draining'', ''Stopped'']\<rparr>,
      TypeNode \<lparr>td_name = ''ContainerRecord'',
        td_fields = [\<lparr>fd_name = ''id'', fd_data_type = StringT, fd_is_indexed = False\<rparr>,
          \<lparr>fd_name = ''port'', fd_data_type = U16, fd_is_indexed = False\<rparr>,
          \<lparr>fd_name = ''status'', fd_data_type = Custom ''ContainerStatus'', fd_is_indexed = False\<rparr>],
        td_prefix = None\<rparr>]"
  by code_simp

lemma parse_user_sdl:
  "parse_schema user_sdl = Inr
     [TypeNode \<lparr>td_name = ''User'',
        td_fields = [\<lparr>fd_name = ''id'', fd_data_type = StringT, fd_is_indexed = False\<rparr>,
          \<lparr>fd_name = ''friends'', fd_data_type = Array StringT, fd_is_indexed = False\<rparr>,
          \<lparr>fd_name = ''scores'', fd_data_type = Array (Array U32), fd_is_indexed = False\<rparr>],
        td_prefix = None\<rparr>]"
  by code_simp

lemma schema_tests:
  assumes "\<And>i. num_is_u64 x (num i)"
  shows "test_ksl_parsing_and_validation x num" "test_ksl_array_support x num"
  using assms
  by (simp_all add: test_ksl_parsing_and_validation_def test_ksl_array_support_def load_schema_def parse_container_sdl
      parse_user_sdl load_nodes_def registry_new_def validate.simps validate_field.simps)

section \<open>The server\<close>

text \<open>
  Each test starts a server and lets it commit a transaction; a panic fails it. \<open>now\<close> and \<open>e\<close> are
  the clock and the log, which the tests do not use, \<open>it\<close> the order of the write set.
\<close>

definition passed :: "bool option \<Rightarrow> bool" where
  "passed r \<longleftrightarrow> r = Some True"

definition test_transaction ::
  "('n, 'z) ext_scheme \<Rightarrow> env \<Rightarrow> db_record option map_order \<Rightarrow> bool" where
  "test_transaction x e it \<longleftrightarrow> passed (do {
     server \<leftarrow> server_new x (en_now e) True None None None False (\<lambda>_. Absent);
     tx \<leftarrow> tx_put (en_now e) ''key1'' [1] None (begin_transaction server);
     (committed, server1) \<leftarrow> commit x e it tx server;
     tx1 \<leftarrow> tx_put (en_now e) ''key2'' [2] None (begin_transaction server1);
     let server2 = tx_rollback (tx_delete ''key1'' tx1) server1;
     Some (committed = Inr () \<and> fmlookup (sv_tree server2) ''key2'' = None \<and>
       map_option rec_value (fmlookup (sv_tree server2) ''key1'') = Some [1])
   })"

definition test_range_and_prefix_scan ::
  "('n, 'z) ext_scheme \<Rightarrow> env \<Rightarrow> db_record option map_order \<Rightarrow> bool" where
  "test_range_and_prefix_scan x e it \<longleftrightarrow> passed (do {
     server \<leftarrow> server_new x (en_now e) True None None None False (\<lambda>_. Absent);
     tx1 \<leftarrow> tx_put (en_now e) ''a1'' [1] None (begin_transaction server);
     tx2 \<leftarrow> tx_put (en_now e) ''b1'' [2] None tx1;
     tx3 \<leftarrow> tx_put (en_now e) ''b2'' [3] None tx2;
     tx4 \<leftarrow> tx_put (en_now e) ''b3'' [4] None tx3;
     tx5 \<leftarrow> tx_put (en_now e) ''c1'' [5] None tx4;
     (committed, server1) \<leftarrow> commit x e it tx5 server;
     let with_prefix = (\<lambda>p. takeWhile (\<lambda>k. starts_with k p) (map fst (tree_range_from p (sv_tree server1))));
     let b_prefix = with_prefix ''b'';
     let full_scan = map fst (tree_range ''a'' ''z'' (sv_tree server1));
     Some (committed = Inr () \<and> length b_prefix = 3 \<and> b_prefix ! 0 = ''b1'' \<and> b_prefix ! 2 = ''b3'' \<and>
       with_prefix ''z'' = [] \<and> length full_scan = 5)
   })"

text \<open>The two puts read the clock at \<open>now1\<close> and \<open>now2\<close>, the assertions at \<open>later\<close>.\<close>

definition test_ttl_eviction ::
  "('n, 'z) ext_scheme \<Rightarrow> env \<Rightarrow> nat \<Rightarrow> nat \<Rightarrow> nat \<Rightarrow> db_record option map_order \<Rightarrow> bool" where
  "test_ttl_eviction x e now1 now2 later it \<longleftrightarrow> passed (do {
     server \<leftarrow> server_new x (en_now e) True None None None False (\<lambda>_. Absent);
     tx1 \<leftarrow> tx_put (Some now1) ''key1'' [1] (Some 0) (begin_transaction server);
     tx2 \<leftarrow> tx_put (Some now2) ''key2'' [2] (Some 10000) tx1;
     (committed, server1) \<leftarrow> commit x e it tx2 server;
     rec1 \<leftarrow> fmlookup (sv_tree server1) ''key1'';
     rec2 \<leftarrow> fmlookup (sv_tree server1) ''key2'';
     Some (committed = Inr () \<and> is_expired (Some later) (rec_expires rec1) \<and>
       \<not> is_expired (Some later) (rec_expires rec2))
   })"

text \<open>\<open>num\<close> and \<open>to_vec\<close> make JSON numbers and the bytes of a JSON value.\<close>

definition indexed_container_sdl :: str where
  "indexed_container_sdl = lines_text
     [[],
      ''            enum ContainerStatus { Running, Stopped }'',
      ''            @prefix('' @ [quote] @ ''container'' @ [quote] @ '')'',
      ''            type ContainerRecord {'',
      ''                id: String,'',
      ''                image: String,'',
      ''                port: U16,'',
      ''                @indexed status: ContainerStatus,'',
      ''                spawn_time: I64'',
      ''            }''] @ ''        ''"

definition container :: "(nat \<Rightarrow> 'n) \<Rightarrow> str \<Rightarrow> str \<Rightarrow> nat \<Rightarrow> str \<Rightarrow> nat \<Rightarrow> 'n json" where
  "container num ident img port status spawn_time =
     JObject [(''id'', JString ident), (''image'', JString img), (''port'', JNumber (num port)),
       (''status'', JString status), (''spawn_time'', JNumber (num spawn_time))]"

definition insert_indexed :: "('n, 'z) serde_scheme \<Rightarrow> ('n json \<Rightarrow> bytes) \<Rightarrow> str \<Rightarrow> 'n json \<Rightarrow> server \<Rightarrow> server" where
  "insert_indexed x to_vec key json server =
     index_record x key (to_vec json)
       (tree_insert key \<lparr>rec_value = to_vec json, rec_expires = None, rec_version = 1\<rparr> server)"

definition test_secondary_index_query :: "('n, 'z) ext_scheme \<Rightarrow> nat option \<Rightarrow> (nat \<Rightarrow> 'n) \<Rightarrow> ('n json \<Rightarrow> bytes) \<Rightarrow> bool" where
  "test_secondary_index_query x now num to_vec \<longleftrightarrow> passed (do {
     server \<leftarrow> server_new x now True None (Some ''ksl'') None False (\<lambda>_. Content indexed_container_sdl);
     let server1 = insert_indexed x to_vec ''container:1'' (container num ''1'' ''nginx'' 80 ''Running'' 100) server;
     let server2 = insert_indexed x to_vec ''container:2'' (container num ''2'' ''redis'' 6379 ''Stopped'' 101) server1;
     let server3 = insert_indexed x to_vec ''container:3'' (container num ''3'' ''node'' 3000 ''Running'' 102) server2;
     skip_set \<leftarrow> fmlookup (sv_indexes server3) ''ContainerRecord:status:Running'';
     let running_keys = sorted_list_of_fset skip_set;
     Some (length running_keys = 2 \<and> running_keys ! 0 = ''container:1'' \<and> running_keys ! 1 = ''container:3'')
   })"

text \<open>A fresh server and its first transaction.\<close>

lemma fresh_server:
  obtains server where "server_new x now True None None None False (\<lambda>_. Absent) = Some server"
    "cache_ok server" "\<not> sv_is_replica server" "\<not> sv_wal_poisoned server" "sv_tree server = fmempty"
    "sv_global_version server = 0"
proof -
  obtain server where "server_new x now True None None None False (\<lambda>_. Absent) = Some server"
    using server_new_total by blast
  moreover from this have "sv_tree server = fmempty" "sv_global_version server = 0" "sv_cache server = fresh_cache"
    "\<not> sv_is_replica server" "\<not> sv_wal_poisoned server"
    by (auto simp: server_new_def Let_def recover_def recovery_start_def lru_new_fresh)
  moreover from this have "cache_ok server" by (simp add: cache_ok_def)
  ultimately show ?thesis using that by blast
qed

lemma first_commit:
  assumes "cache_ok server" "\<not> sv_is_replica server" "\<not> sv_wal_poisoned server" "sv_tree server = fmempty"
  obtains server' where "commit x e it tx server = Some (Inr (), server')"
    "\<And>k. fmlookup (sv_tree server') k =
       Option.bind (fmlookup (tx_write_set tx) k) (map_option (rec_version_update (\<lambda>_. sv_global_version server + 1)))"
proof -
  have "\<not> tx_conflicts n ws server" for n ws using assms(4) by (simp add: tx_conflicts_def list_ex_iff)
  from commit_spec [OF assms(1-3) this, of x e it tx] obtain server' where
    c: "commit x e it tx server = Some (Inr (), server')"
    "fmlookup (sv_tree server') = written (sv_global_version server + 1) (fmlookup (tx_write_set tx)) (fmlookup (sv_tree server))"
    by blast
  show ?thesis by (rule that [OF c(1)]) (simp add: c(2) written_def assms(4) split: option.split)
qed

lemma transaction_test: "test_transaction x e it"
proof -
  obtain server where s: "server_new x (en_now e) True None None None False (\<lambda>_. Absent) = Some server"
    "cache_ok server" "\<not> sv_is_replica server" "\<not> sv_wal_poisoned server" "sv_tree server = fmempty"
    using fresh_server .
  obtain tx where t: "tx_put (en_now e) ''key1'' [1] None (begin_transaction server) = Some tx"
    "tx_write_set tx = fmupd ''key1'' (Some \<lparr>rec_value = [1], rec_expires = None, rec_version = 0\<rparr>) fmempty"
    by (simp add: tx_put_def begin_transaction_def)
  obtain server1 where c: "commit x e it tx server = Some (Inr (), server1)"
    "\<And>k. fmlookup (sv_tree server1) k =
       Option.bind (fmlookup (tx_write_set tx) k) (map_option (rec_version_update (\<lambda>_. sv_global_version server + 1)))"
    using first_commit [OF s(2-5), where x = x and e = e and it = it and tx = tx] by blast
  show ?thesis
    by (simp add: test_transaction_def passed_def s(1) t c tx_rollback_def) (simp add: tx_put_def)
qed

lemma ttl_test:
  assumes "now1 < later" "later \<le> now2 + 10000" "now2 + 10000 < 2 ^ 64"
  shows "test_ttl_eviction x e now1 now2 later it"
proof -
  obtain server where s: "server_new x (en_now e) True None None None False (\<lambda>_. Absent) = Some server"
    "cache_ok server" "\<not> sv_is_replica server" "\<not> sv_wal_poisoned server" "sv_tree server = fmempty"
    using fresh_server .
  obtain tx1 where t1: "tx_put (Some now1) ''key1'' [1] (Some 0) (begin_transaction server) = Some tx1"
    "tx_write_set tx1 = fmupd ''key1'' (Some \<lparr>rec_value = [1], rec_expires = Some (word_of_nat now1), rec_version = 0\<rparr>) fmempty"
    by (simp add: tx_put_def begin_transaction_def ttl_expiry_def)
  obtain tx2 where t2: "tx_put (Some now2) ''key2'' [2] (Some 10000) tx1 = Some tx2"
    "tx_write_set tx2 = fmupd ''key2'' (Some \<lparr>rec_value = [2], rec_expires = Some (word_of_nat now2 + 10000), rec_version = 0\<rparr>)
       (tx_write_set tx1)"
    by (simp add: tx_put_def ttl_expiry_def)
  obtain server1 where c: "commit x e it tx2 server = Some (Inr (), server1)"
    "\<And>k. fmlookup (sv_tree server1) k =
       Option.bind (fmlookup (tx_write_set tx2) k) (map_option (rec_version_update (\<lambda>_. sv_global_version server + 1)))"
    using first_commit [OF s(2-5), where x = x and e = e and it = it and tx = tx2] by blast
  have w: "word_of_nat now2 + 10000 = (word_of_nat (now2 + 10000) :: u64)" by simp
  have u: "unat (word_of_nat (now2 + 10000) :: u64) = now2 + 10000"
    using assms(3) by (simp only: unat_of_nat) simp
  have "(word_of_nat now1 :: u64) < word_of_nat later"
    using assms by (simp add: word_less_nat_alt unat_of_nat)
  moreover have "\<not> (word_of_nat now2 + 10000 :: u64) < word_of_nat later"
    unfolding w word_less_nat_alt u using assms by (simp add: unat_of_nat)
  ultimately show ?thesis
    by (simp add: test_ttl_eviction_def passed_def s(1) t1 t2 c is_expired_def)
qed

lemma parse_indexed_container_sdl:
  "parse_schema indexed_container_sdl = Inr
     [EnumNode \<lparr>ed_name = ''ContainerStatus'', ed_variants = [''Running'', ''Stopped'']\<rparr>,
      TypeNode \<lparr>td_name = ''ContainerRecord'',
        td_fields = [\<lparr>fd_name = ''id'', fd_data_type = StringT, fd_is_indexed = False\<rparr>,
          \<lparr>fd_name = ''image'', fd_data_type = StringT, fd_is_indexed = False\<rparr>,
          \<lparr>fd_name = ''port'', fd_data_type = U16, fd_is_indexed = False\<rparr>,
          \<lparr>fd_name = ''status'', fd_data_type = Custom ''ContainerStatus'', fd_is_indexed = True\<rparr>,
          \<lparr>fd_name = ''spawn_time'', fd_data_type = I64, fd_is_indexed = False\<rparr>],
        td_prefix = Some ''container''\<rparr>]"
  by code_simp

lemma index_query_test:
  assumes "\<And>v. from_slice x (to_vec v) = Some v"
  shows "test_secondary_index_query x now num to_vec"
proof -
  let ?reg = "load_nodes [EnumNode \<lparr>ed_name = ''ContainerStatus'', ed_variants = [''Running'', ''Stopped'']\<rparr>,
      TypeNode \<lparr>td_name = ''ContainerRecord'',
        td_fields = [\<lparr>fd_name = ''id'', fd_data_type = StringT, fd_is_indexed = False\<rparr>,
          \<lparr>fd_name = ''image'', fd_data_type = StringT, fd_is_indexed = False\<rparr>,
          \<lparr>fd_name = ''port'', fd_data_type = U16, fd_is_indexed = False\<rparr>,
          \<lparr>fd_name = ''status'', fd_data_type = Custom ''ContainerStatus'', fd_is_indexed = True\<rparr>,
          \<lparr>fd_name = ''spawn_time'', fd_data_type = I64, fd_is_indexed = False\<rparr>],
        td_prefix = Some ''container''\<rparr>] registry_new"
  obtain server where s: "server_new x now True None (Some ''ksl'') None False (\<lambda>_. Content indexed_container_sdl) = Some server"
    using server_new_total by blast
  then have r: "sv_schema_registry server = ?reg" "sv_indexes server = fmempty"
    by (auto simp: server_new_def Let_def recover_def recovery_start_def lru_new_fresh load_schema_file_def load_schema_def
        parse_indexed_container_sdl)
  have k: "extract_index_keys x ?reg (''container:'' @ n) (to_vec (container num i im p st t)) = [''ContainerRecord:status:'' @ st]"
    for n i im p st t
    by (simp add: extract_index_keys_def indexed_fields_for_prefix_def load_nodes_def registry_new_def split_first_def
        assms container_def List.map_filter_def index_key_def)
  have k': "extract_index_keys x ?reg ''container:1'' (to_vec (container num i im p st t)) = [''ContainerRecord:status:'' @ st]"
    "extract_index_keys x ?reg ''container:2'' (to_vec (container num i im p st t)) = [''ContainerRecord:status:'' @ st]"
    "extract_index_keys x ?reg ''container:3'' (to_vec (container num i im p st t)) = [''ContainerRecord:status:'' @ st]"
    for i im p st t
    using k [of "''1''"] k [of "''2''"] k [of "''3''"] by simp_all
  show ?thesis
    by (simp add: test_secondary_index_query_def passed_def s insert_indexed_def step_defs index_add_def r k'
        skip_set_insert_def Let_def sorted_list_of_fset_finsert)
qed

lemma scan_test: "test_range_and_prefix_scan x e it"
proof -
  obtain server where s: "server_new x (en_now e) True None None None False (\<lambda>_. Absent) = Some server"
    "cache_ok server" "\<not> sv_is_replica server" "\<not> sv_wal_poisoned server" "sv_tree server = fmempty"
    using fresh_server .
  let ?r = "\<lambda>v n. \<lparr>rec_value = [v], rec_expires = None, rec_version = n\<rparr>"
  define put where "put k v tx = tx\<lparr>tx_write_set := fmupd k (Some (?r v 0)) (tx_write_set tx)\<rparr>" for k v and tx :: tx_handle
  let ?tx = "put ''c1'' 5 (put ''b3'' 4 (put ''b2'' 3 (put ''b1'' 2 (put ''a1'' 1 (begin_transaction server)))))"
  obtain server1 where c: "commit x e it ?tx server = Some (Inr (), server1)"
    "\<And>k. fmlookup (sv_tree server1) k =
       Option.bind (fmlookup (tx_write_set ?tx) k) (map_option (rec_version_update (\<lambda>_. sv_global_version server + 1)))"
    using first_commit [OF s(2-5), where x = x and e = e and it = it and tx = "?tx"] by blast
  let ?t = "fmupd ''c1'' (?r 5 (sv_global_version server + 1)) (fmupd ''b3'' (?r 4 (sv_global_version server + 1))
    (fmupd ''b2'' (?r 3 (sv_global_version server + 1)) (fmupd ''b1'' (?r 2 (sv_global_version server + 1))
    (fmupd ''a1'' (?r 1 (sv_global_version server + 1)) fmempty))))"
  have t: "sv_tree server1 = ?t" by (rule fmap_ext) (simp add: c(2) put_def begin_transaction_def)
  have p: "tx_put (en_now e) k [v] None tx = Some (put k v tx)" for k v tx by (simp add: tx_put_def put_def)
  have "map fst (sorted_entries ?t) = [''a1'', ''b1'', ''b2'', ''b3'', ''c1'']"
    by (simp add: sorted_list_of_fset_finsert)
  then show ?thesis
    by (simp add: test_range_and_prefix_scan_def passed_def s(1) p c(1) t tree_range_from_def tree_range_def
        sorted_entries_def sorted_list_of_fset_finsert starts_with_def)
qed

section \<open>All tests\<close>

text \<open>
  The model passes the program's unit tests, for every order of hash sets and maps, every clock the
  tests allow, and every JSON codec that knows integers and reads back what it writes.
\<close>

theorem model_passes_unit_tests:
  "test_lru_cache \<and> test_lru_capacity_1 \<and> test_fifo_cache \<and> test_fifo_capacity_1 \<and>
   test_lfu_cache ord \<and> test_lfu_capacity_1 ord"
  "(\<And>i. num_is_u64 x (num i)) \<Longrightarrow> test_ksl_parsing_and_validation x num \<and> test_ksl_array_support x num"
  "test_transaction y e it \<and> test_range_and_prefix_scan y e it"
  "(\<And>v. from_slice y (to_vec v) = Some v) \<Longrightarrow> test_secondary_index_query y now num' to_vec"
  "now1 < later \<Longrightarrow> later \<le> now2 + 10000 \<Longrightarrow> now2 + 10000 < 2 ^ 64 \<Longrightarrow> test_ttl_eviction y e now1 now2 later it"
  by (simp_all add: lru_tests fifo_tests lfu_tests schema_tests transaction_test scan_test index_query_test ttl_test)

end
