(* ===== verification/Spec2Isabelle.thy ===== *)
theory Spec2Isabelle
  imports Lfu_Cache Fifo_Cache Scan_Properties Cluster_Properties Race_Properties Serial_Properties Disjoint_Properties
    Reader_Properties Background_Properties Node_Schedules Replica_Node Replica_Race Replica_Gaps Sync_Properties End_To_End Unit_Tests
begin

text \<open>
  Kind DB: an in-memory key-value store with expiry times, secondary indexes given by a schema,
  optimistic transactions, a write-ahead log with snapshots, and replication to read-only followers.
  The program is a Rust crate; paths below are under src/src/.

  \<^bold>\<open>How the parts work together.\<close> A node (main.rs, \<open>run_server\<close>) loads the schema, the snapshot and
  the log into a skip list of records, the tree, and serves requests from it (server.rs). Every write
  updates the secondary indexes, the LRU cache in front of the tree (cache.rs), the log (wal.rs), the
  channel to the replicas and the watchers, under a number drawn from one global version counter.
  Two tasks run beside the handlers: one removes expired records, one saves a snapshot and truncates
  the log. A replica (replica.rs) asks the leader for what it lacks, receives a snapshot in chunks or
  the tail of the log, then every new command. kindctl (bin/kindctl.rs) is the command-line client.

  \<^bold>\<open>Foundations.\<close>
  \<^item> Prelude: machine integers as words, the string functions used, ordered iteration over finite
    maps, and shared lemmas. \<open>step_defs\<close> collects the accesses of the server's state.
  \<^item> Json: JSON values; what \<open>serde_json\<close> and floating-point numbers contribute is a record of
    parameters, and the log, the snapshots and the client extend it.

  \<^bold>\<open>Caches (cache.rs).\<close>
  \<^item> Cache_Spec: the \<open>Cache\<close> trait as locales \<open>cache\<close> and \<open>bounded_cache\<close>; what holds of every
    history of calls is proved in them once and interpreted for the three caches below.
  \<^item> Lru_Cache: the hash map, the vector of nodes with its doubly linked list, and the free list, by
    indices as in the code. The invariant says that the links form the recency list; \<open>lru_abs\<close> and the
    list of keys are the abstraction. Out-of-bounds accesses are \<open>None\<close> and proved not to happen.
  \<^item> Lfu_Cache, Fifo_Cache: the same for the frequency buckets (any choice a hash set may make, as a
    parameter \<open>hash_order\<close>) and the queue (its eviction loop as a partial function, proved to end).

  \<^bold>\<open>Schema (schema/).\<close>
  \<^item> Schema_Ast, Ksl_Lexer, Ksl_Parser: ast.rs and parser.rs, the lexer on the rest of its input, the
    parser as mutually recursive functions with a termination proof from the consumption of tokens.
  \<^item> Ksl_Grammar: texts of syntax trees, and that the parser reads each well-formed one back.
  \<^item> Schema_Registry: registry.rs: loading, prefixes, \<open>validate\<close>, decided against an inductive relation of
    values to types, once with the integers every integer type lets pass and once with its own range.

  \<^bold>\<open>Log.\<close>
  \<^item> Wal: wal.rs: envelopes with checksum, \<open>append\<close> with the outcomes a write may have, \<open>read_from_tx_id\<close>,
    \<open>read_all_commands\<close>, \<open>truncate\<close>.
  \<^item> Plain_Codec: a concrete encoding that meets what is assumed of the JSON codec, for instances.

  \<^bold>\<open>Server (server.rs).\<close>
  \<^item> Secondary_Index: index keys of a record and the index sets, with a locale for filing and unfiling.
  \<^item> Server_State: the state \<open>server\<close> (\<open>KindServerImpl\<close>), expiry, filters, shared helpers, tree scans.
  \<^item> Server_Ops: the handlers get, put, delete, range_scan, prefix_scan, query, cas, watch, and the sweep.
  \<^item> Store_Spec, Store_Invariant, Store_Properties: the map with expiry times the server promises;
    invariants of index and cache and what each operation does to them; the refinement and the index
    over whole histories, replicas refusing writes, exact expiry.
  \<^item> Scan_Properties: scans, queries and the sweep against the ordered list of all entries; a record
    that \<open>validate\<close> accepts is found by its indexed fields.
  \<^item> Transactions: \<open>TxHandle\<close>: put, delete, commit, for any order in which the hash map is read.
  \<^item> Recovery: \<open>KindServerImpl::new\<close> (snapshot, log replay) and \<open>save_snapshot_and_truncate_wal\<close> with
    the system calls that may fail and a buffer that is written when it is dropped.
  \<^item> Durability, Durability_Properties, Replay_Properties: what a restart recovers after any history,
    crashes inside an append or a save, and where the replay differs from the run it replays. How much
    of a snapshot the buffered writer has written when it is renamed is arbitrary; \<open>whole_entries\<close> are
    the records of that part, and a restart finds these and what the log still adds.

  \<^bold>\<open>Concurrency.\<close>
  \<^item> Concurrent_Ops: put, delete, get, cas, commit and the sweep, cut into their single accesses of the
    shared state, with the lock of the log; \<open>interleave\<close> is the step relation of any number of them
    and of saves. Run alone, the steps are the handlers above.
  \<^item> Concurrency_Properties, Progress_Properties: invariants of reachable configurations (no version
    number is drawn twice) and progress (no panic, one lock holder, every run can end), through the
    locales \<open>step_invariant\<close> and \<open>step_progress\<close>.
  \<^item> Serial_Properties: cas and commit, which hold the lock, are serializable, by the simulation locale
    \<open>step_simulation\<close>; of several compare-and-swaps on an absent key exactly one succeeds.
  \<^item> Disjoint_Properties: requests on different keys are linearizable, by assertions on single keys that
    other requests cannot break (the locale \<open>independent_tasks\<close>).
  \<^item> Tree_Walk: iterators over a skip list that others change: positions, ordered as they are passed,
    the next entry, and what a walk has visited by the time it ends (\<open>walked\<close>).
  \<^item> Scan_Steps, Background_Steps: range_scan, prefix_scan and query, the save and the eviction, cut
    into the visits of single entries, each with its own reading of the clock, and into their other
    accesses. Run alone, they are the handlers and tasks in one piece.
  \<^item> Index_Steps: index_record and remove_record_from_index cut into their accesses of the two-level
    skip lists, with the index sets at addresses, for any number of tasks.
  \<^item> Node: everything that \<open>run_server\<close> sets going on one server as one step relation: \<open>node_work\<close>, what
    handlers, scans, the save and the eviction do, and \<open>node_input\<close>, calls, ticks of the timers and
    messages of a leader.
  \<^item> Node_Properties: a node never panics and its lock is never poisoned; without new input all tasks
    end (\<open>node_work\<close> is well-founded). The locale \<open>run_invariant\<close> carries statements on the history of
    configurations along every run; Reader_Properties and Background_Properties use it for what scans,
    queries, a save and an eviction guarantee beside writers.
  \<^item> Node_Schedules: the executions of \<open>interleave\<close> are executions of a node.
  \<^item> Replica_Node: a node started as a replica refuses writes and broadcasts nothing.
  \<^item> Race_Properties: schedules that lose or tear acknowledged writes.
  \<^item> Replica_Race: concurrent writes on the leader that reach the log out of order.

  \<^bold>\<open>Replication (server.rs \<open>sync\<close>, replica.rs).\<close>
  \<^item> Replication: the leader's plan, snapshot chunks and forwarding; the replica's loop on one message.
  \<^item> Replication_Properties, Resync_Properties: a replica in step stays a past state of the leader
    under lost, repeated and reordered messages; a new one is brought up by the snapshot; what a
    snapshot does to old contents, and when a replica stays behind.
  \<^item> Cluster_Properties: leader, connection and replica as one step relation \<open>cluster\<close>, with connections
    lost and opened again: while the leader keeps its log the replica is always in a past state of it,
    and from every configuration it can catch up.
  \<^item> Sync_Steps, Sync_Properties: the task of a \<open>sync\<close> call cut into its accesses, and what a snapshot
    holds that is taken while a node goes on (\<open>feeding\<close>).
  \<^item> Replica_Gaps: where a replica and its leader differ as long as the leader keeps its log
    (\<open>stays_apart\<close>): the rest of a snapshot that was cut short, a put that was under way, the first write
    of a leader, two deletes sent in the wrong order.

  \<^bold>\<open>Client and start.\<close>
  \<^item> Kindctl: the request, output and exit status of each command.
  \<^item> Entry_Point: the arguments and variables of main.rs, the server of \<open>run_server\<close>, the leader's host.
  \<^item> End_To_End: from the command line through a handler, the log, saves and a restart back to the
    command line.

  \<^bold>\<open>Tests.\<close>
  \<^item> Unit_Tests: the program's own unit tests, run on the model: the caches call by call, the schema
    texts through the lexer and the parser, transactions, scans, indexes and expiry on a server.

  \<^bold>\<open>Conventions.\<close> A handler is a function from the state to \<open>None\<close> (it panics) or to its answer
  (\<open>Inl\<close> the status, \<open>Inr\<close> the response) and the new state. The clock, the outcome of each write to a
  file and the order of hash maps are arguments, so theorems hold for all of them. Versions and times
  are 64-bit words with wrap-around, as in a release build; theorems that need the absence of
  a wrap say so. The broadcast channels are the lists of all that was sent. The fuel of
  \<open>run_task\<close>, \<open>run_reader\<close>, \<open>run_saver\<close> and \<open>run_evictor\<close> is at least the number of steps of the handler or
  task, shown in \<open>steps_make_handlers\<close>, \<open>reader_steps_make_handlers\<close>, \<open>save_steps_make_save\<close> and
  \<open>eviction_steps_make_sweep\<close>, that of \<open>run_index\<close> in
  \<open>index_steps_make_updates\<close>; some fuel is enough for \<open>run_feeder\<close> by \<open>feed_steps_make_sync\<close>. The
  skip lists are finite maps and sets: an iterator goes to the least key behind the one it stands at,
  and inserting into a map replaces an entry with the same key in one step, where crossbeam takes the
  old entry out before it puts the new one in. A handler in one piece has one reading of the clock; the
  scans read it again for each record, which Scan_Steps has, and cas reads it for the time to live and
  again for the record it finds, which is one reading here.

  \<^bold>\<open>What the proofs assume of code outside the repository.\<close> Named predicates on the record of
  parameters, each with an instance: \<open>wal_codec_ok\<close> and \<open>snap_codec_ok\<close> (JSON text of an envelope or a
  snapshot line is one line, not blank, and is read back), \<open>wal_torn_ok\<close> and \<open>snap_torn_ok\<close> (an object
  cut short is not read), \<open>stream_codec_ok\<close> (a newline after the object is ignored), met by the encoding
  of Plain_Codec, and \<open>numbers_ok\<close> (which numbers are integers of 64 bits). The checksum is any function.
  Strings are exact for the code points up to U+00FF.

  \<^bold>\<open>Where the code differs from its intent.\<close> A put with a time to live leaves a stale cache entry; a
  compare-and-swap on an expired record and the replay of a put leave stale index entries; the replay
  of a transaction numbers it one too high, and skips expired puts and with them the overwriting;
  a save renames and truncates before its buffer is written; a save, another put, the sweep or a
  compare-and-swap may fall between the log entry of a put and its entry in the tree; readers see
  half of a transaction; a query in the middle of a put pairs the old record with the new value; two
  writers that create the same index set lose a record from it; deletions are not conflicts; a replica
  of an emptied leader never catches up, one whose snapshot is cut short takes it for complete, one that
  connects in the middle of a put may miss it, watchers of a replica hear nothing, a snapshot removes
  nothing, and writes that are logged out of order send a replica into one; \<open>validate\<close> takes any integer
  for any integer type. Each is stated as a theorem where it occurs, and the positive theorems carry the
  conditions that exclude it.

  \<^bold>\<open>Not modelled.\<close> The gRPC transport, connection handling and the length of the timers' intervals;
  the bounded capacity of the broadcast channels (lagging receivers); argument parsing of kindctl (a
  library); memory orderings; handlers that cut their index updates and their other accesses at the
  same time; the accesses within one message of the replica's loop; the single writes of the buffered
  writer of a save before its loop has ended (how much it has written by then is arbitrary); the Go
  client, benchmarks and build.rs.
\<close>

end
